(* ===== verification/Prelude.thy ===== *)
theory Prelude
  imports Main "HOL-Library.Word" "HOL-Library.Multiset"
begin

text \<open>
  Shared vocabulary of the development: the machine-integer types of the C++ code, the time
  points of its clock, and the sum of a quantity over the workers of a scheduler. Nothing here
  models a particular source file.
\<close>

section \<open>Types\<close>

type_synonym u8 = "8 word"
type_synonym u32 = "32 word"
type_synonym u64 = "64 word"

text \<open>\<open>i32\<close> values live in the same 32 bits; \<open>sint\<close> reads them.\<close>

type_synonym i32 = "32 word"

text \<open>Time points and durations, counted in nanoseconds.\<close>

type_synonym time_point = int

text \<open>Addresses of tasks (\<open>shared_ptr<TaskBase>\<close>); a null pointer is \<open>None\<close>.\<close>

type_synonym task_id = nat

text \<open>A thread identifier; the default-constructed \<open>std::thread::id\<close> is \<open>None\<close>.\<close>

type_synonym tid = nat

section \<open>Counters of 32 bits\<close>

lemma u32_unat_less: "unat (c :: u32) < 2 ^ 32"
  by (rule order_less_le_trans [OF unsigned_less]) simp

lemma u32_unat_max: "unat (- 1 :: u32) = 2 ^ 32 - 1"
  by (simp add: unsigned_minus_1_eq_mask mask_eq_exp_minus_1)

lemma u32_unat_inc: "(c :: u32) \<noteq> - 1 \<Longrightarrow> unat (c + 1) = Suc (unat c)"
proof -
  assume "c \<noteq> - 1"
  then have "unat c \<noteq> 2 ^ 32 - 1" using u32_unat_max by (simp add: word_unat_eq_iff)
  then have "Suc (unat c) < 2 ^ 32" using u32_unat_less [of c] by simp
  then show ?thesis by (simp add: unat_word_ariths)
qed

lemma u32_unat_dec: "unat (c :: u32) = Suc h \<Longrightarrow> unat (c - 1) = h"
  by (subst unat_minus_one) auto

section \<open>Lists\<close>

lemma set_remove1_distinct [simp]:
  "distinct xs \<Longrightarrow> set (remove1 x xs) = set xs - {x}"
  by (rule set_remove1_eq)

lemma list_all_update [intro]:
  "list_all P xs \<Longrightarrow> P x \<Longrightarrow> list_all P (xs[i := x])"
  by (auto simp: list_all_iff dest: set_update_subset_insert [THEN subsetD])

lemma sum_list_update_mset:
  fixes f :: "'a \<Rightarrow> 'b multiset"
  assumes "i < length xs"
  shows "sum_list (map f (xs[i := x])) + f (xs ! i) = sum_list (map f xs) + f x"
  using assms
proof (induction xs arbitrary: i)
  case Nil
  then show ?case by simp
next
  case (Cons y ys)
  then show ?case by (cases i) (auto simp: add.assoc add.commute add.left_commute)
qed

section \<open>Sums over the workers \<open>0 .. n-1\<close>\<close>

lemma sum_fun_upd_lessThan:
  fixes f :: "'a \<Rightarrow> 'b::ab_group_add"
  assumes "w < (n::nat)"
  shows "(\<Sum>i<n. f ((g(w := x)) i)) = (\<Sum>i<n. f (g i)) + (f x - f (g w))"
proof -
  have "(\<Sum>i\<in>{..<n}. f ((g(w := x)) i)) = f x + (\<Sum>i\<in>{..<n} - {w}. f (g i))"
    using assms by (subst sum.remove [of "{..<n}" w]) (auto intro: sum.cong)
  moreover have "(\<Sum>i\<in>{..<n}. f (g i)) = f (g w) + (\<Sum>i\<in>{..<n} - {w}. f (g i))"
    using assms by (subst sum.remove [of "{..<n}" w]) auto
  ultimately show ?thesis by simp
qed

lemma sum_fun_upd_mset:
  fixes f :: "'a \<Rightarrow> 'b::comm_monoid_add"
  assumes "w < (n::nat)"
  shows "(\<Sum>i<n. f ((g(w := x)) i)) + f (g w) = (\<Sum>i<n. f (g i)) + f x"
proof -
  have "(\<Sum>i\<in>{..<n}. f ((g(w := x)) i)) = f x + (\<Sum>i\<in>{..<n} - {w}. f (g i))"
    using assms by (subst sum.remove [of "{..<n}" w]) (auto intro: sum.cong)
  moreover have "(\<Sum>i\<in>{..<n}. f (g i)) = f (g w) + (\<Sum>i\<in>{..<n} - {w}. f (g i))"
    using assms by (subst sum.remove [of "{..<n}" w]) auto
  ultimately show ?thesis by (simp add: ac_simps)
qed

end
