(* ===== verification/Options.thy ===== *)
theory Options
  imports Prelude
begin

text \<open>
  \<open>config.hpp\<close> (the limits, thresholds and feature switches) and \<open>options.hpp\<close> (the options
  given to \<open>init_ums\<close>, clamped into the configured limits by their constructors).
\<close>

section \<open>Feature switches and limits\<close>

definition FS_thread_binding_allowed :: bool where "FS_thread_binding_allowed = True"
definition FS_work_stealing_allowed :: bool where "FS_work_stealing_allowed = True"
definition FS_idle_spinning_allowed :: bool where "FS_idle_spinning_allowed = True"

definition CFG_max_supported_cpus :: u32 where "CFG_max_supported_cpus = 64"
definition CFG_allowed_cpus_mask :: u64 where "CFG_allowed_cpus_mask = 0xFFFFFFFFFFFFFFFF"

definition CFG_min_schedulers_count :: u64 where "CFG_min_schedulers_count = 1"
definition CFG_max_schedulers_count :: u64 where
  "CFG_max_schedulers_count = ucast CFG_max_supported_cpus"
definition CFG_default_schedulers_count :: u64 where "CFG_default_schedulers_count = 7"

definition CFG_min_workers_per_scheduler :: u64 where "CFG_min_workers_per_scheduler = 1"
definition CFG_max_workers_per_scheduler :: u64 where "CFG_max_workers_per_scheduler = 256"
definition CFG_default_workers_per_scheduler :: u64 where
  "CFG_default_workers_per_scheduler = 64"

text \<open>20 ms and 100 us, in nanoseconds.\<close>

definition CFG_idle_sleep_threshold :: int where "CFG_idle_sleep_threshold = 20000000"
definition CFG_idle_spin_threshold :: int where "CFG_idle_spin_threshold = 100000"

lemmas cfg_defs = CFG_max_supported_cpus_def CFG_allowed_cpus_mask_def
  CFG_min_schedulers_count_def CFG_max_schedulers_count_def CFG_default_schedulers_count_def
  CFG_min_workers_per_scheduler_def CFG_max_workers_per_scheduler_def
  CFG_default_workers_per_scheduler_def

section \<open>Options\<close>

text \<open>\<open>std::clamp\<close> on \<open>u64\<close>.\<close>

definition clamp_u64 :: "u64 \<Rightarrow> u64 \<Rightarrow> u64 \<Rightarrow> u64" where
  "clamp_u64 v lo hi = (if v < lo then lo else if hi < v then hi else v)"

text \<open>\<open>Options::Option\<close> and its two subclasses, as the \<open>u64\<close> they convert to.\<close>

definition Option_value :: "u64 \<Rightarrow> u64 \<Rightarrow> u64 \<Rightarrow> u64" where
  "Option_value v lo hi = clamp_u64 v lo hi"

definition Schedulers_count :: "u64 \<Rightarrow> u64" where
  "Schedulers_count v = Option_value v CFG_min_schedulers_count CFG_max_schedulers_count"

definition Workers_per_scheduler :: "u64 \<Rightarrow> u64" where
  "Workers_per_scheduler v =
     Option_value v CFG_min_workers_per_scheduler CFG_max_workers_per_scheduler"

record options =
  schedulers_count :: u64
  workers_per_scheduler :: u64

definition Options :: "u64 \<Rightarrow> u64 \<Rightarrow> options" where
  "Options sc wps = \<lparr>schedulers_count = Schedulers_count sc,
     workers_per_scheduler = Workers_per_scheduler wps\<rparr>"

definition default_Options :: options where
  "default_Options = Options CFG_default_schedulers_count CFG_default_workers_per_scheduler"

lemma clamp_u64_range: "lo \<le> hi \<Longrightarrow> lo \<le> clamp_u64 v lo hi \<and> clamp_u64 v lo hi \<le> hi"
  by (auto simp: clamp_u64_def)

lemma clamp_u64_id: "lo \<le> v \<Longrightarrow> v \<le> hi \<Longrightarrow> clamp_u64 v lo hi = v"
  by (auto simp: clamp_u64_def)

lemma clamp_u64_nat: "unat (clamp_u64 v lo hi) =
    (if unat v < unat lo then unat lo else if unat hi < unat v then unat hi else unat v)"
  by (auto simp: clamp_u64_def word_less_nat_alt)

lemma Schedulers_count_nat: "unat (Schedulers_count v) = max 1 (min 64 (unat v))"
  by (auto simp: Schedulers_count_def Option_value_def cfg_defs clamp_u64_nat)

lemma Workers_per_scheduler_nat: "unat (Workers_per_scheduler v) = max 1 (min 256 (unat v))"
  by (auto simp: Workers_per_scheduler_def Option_value_def cfg_defs clamp_u64_nat)

text \<open>
  Whatever the caller asks for, the options hold between 1 and 64 schedulers and between 1
  and 256 workers per scheduler; a request inside the limits is taken as it is, one outside is
  moved to the nearer limit.
\<close>

theorem Options_clamped:
  "unat (schedulers_count (Options sc wps)) = max 1 (min 64 (unat sc)) \<and>
   unat (workers_per_scheduler (Options sc wps)) = max 1 (min 256 (unat wps))"
  by (simp add: Options_def Schedulers_count_nat Workers_per_scheduler_nat)

end
