(* ===== verification/Io.thy ===== *)
theory Io
  imports Prelude
begin

text \<open>
  I/O requests: \<open>io.hpp\<close>, \<open>io.cpp\<close> and the I/O part of \<open>os_specific.cpp\<close> (Windows overlapped
  I/O and Linux io_uring). The operating system and liburing are not in the repository: what
  their calls return is an argument of the definitions.
\<close>

section \<open>Requests\<close>

datatype io_type = Io_read | Io_write

datatype io_state = Io_init | Io_error | Io_pending | Io_completed

text \<open>
  \<open>io_handle\<close> is the identifier of the \<open>os::IO_handle\<close> (the counter \<open>m_id\<close> on Linux);
  pointers are 64-bit addresses.
\<close>

record io_request =
  io_file_handle :: u64
  io_buffer :: u64
  io_size :: u64
  io_offset :: u64
  io_handle :: u64
  io_type :: io_type
  io_state :: io_state

definition io_is_completed :: "io_request \<Rightarrow> bool" where
  "io_is_completed r \<longleftrightarrow> io_state r = Io_completed"

definition io_is_pending :: "io_request \<Rightarrow> bool" where
  "io_is_pending r \<longleftrightarrow> io_state r = Io_pending"

definition io_is_error :: "io_request \<Rightarrow> bool" where
  "io_is_error r \<longleftrightarrow> io_state r = Io_error"

text \<open>
  The constructor fills the request in with state \<open>init\<close> and starts the operation:
  \<open>os::read_file\<close> or \<open>os::write_file\<close>, given as the two functions \<open>rd\<close> and \<open>wr\<close> (each
  platform's are below). \<open>None\<close> is a failed assertion or \<open>std::terminate\<close>.
\<close>

definition IO_Request ::
  "(io_request \<Rightarrow> io_request option) \<Rightarrow> (io_request \<Rightarrow> io_request option) \<Rightarrow>
   u64 \<Rightarrow> u64 \<Rightarrow> u64 \<Rightarrow> u64 \<Rightarrow> u64 \<Rightarrow> io_type \<Rightarrow> io_request option" where
  "IO_Request rd wr h fh buf sz off ty =
     (let r = \<lparr>io_file_handle = fh, io_buffer = buf, io_size = sz, io_offset = off,
                io_handle = h, io_type = ty, io_state = Io_init\<rparr>
      in if ty = Io_read then rd r else wr r)"

section \<open>Linux: io_uring\<close>

text \<open>\<open>IO_handle::IO_handle\<close> takes the next value of a global atomic counter.\<close>

definition IO_handle_linux :: "u64 \<Rightarrow> u64 \<times> u64" where
  "IO_handle_linux io_cnt = (io_cnt, io_cnt + 1)"

text \<open>
  The results of the liburing calls made by one submission or one update: whether
  \<open>io_uring_get_sqe\<close> returned an entry, the return values of \<open>io_uring_submit\<close> and
  \<open>io_uring_peek_cqe\<close>, and the completion entry at the head of the ring, if any.
\<close>

record uring =
  sqe_ok :: bool
  submit_ret :: int
  peek_ret :: int
  cqe :: "(i32 \<times> u64) option"

text \<open>What is handed to the kernel: opcode, descriptor address, buffer, length, offset, tag.\<close>

record sqe =
  sqe_write :: bool
  sqe_fd :: u64
  sqe_buf :: u64
  sqe_len :: u64
  sqe_off :: u64
  sqe_data :: u64

definition uring_sqe :: "io_request \<Rightarrow> sqe" where
  "uring_sqe r = \<lparr>sqe_write = (io_type r = Io_write), sqe_fd = io_file_handle r,
     sqe_buf = io_buffer r, sqe_len = io_size r, sqe_off = io_offset r,
     sqe_data = io_handle r\<rparr>"

definition uring_submit :: "uring \<Rightarrow> io_request \<Rightarrow> (sqe \<times> io_request) option" where
  "uring_submit u r =
     (if \<not> sqe_ok u then None
      else if submit_ret u \<noteq> 1 then None
      else Some (uring_sqe r, r\<lparr>io_state := Io_pending\<rparr>))"

text \<open>
  \<open>cqe->res\<close> is a signed 32-bit value compared with the unsigned 64-bit size: the comparison
  converts it with sign extension. The two assertions of the code are the \<open>None\<close> branches.
\<close>

definition uring_update :: "uring \<Rightarrow> io_request \<Rightarrow> io_request option" where
  "uring_update u r =
     (if io_state r \<noteq> Io_pending then Some r
      else if peek_ret u = 0 then
        (case cqe u of
           None \<Rightarrow> None
         | Some (res, tag) \<Rightarrow>
             (let r' = (if (scast res :: u64) \<noteq> io_size r then r\<lparr>io_state := Io_error\<rparr>
                        else r\<lparr>io_state := Io_completed\<rparr>)
              in if tag = io_handle r then Some r' else None))
      else Some r)"

definition linux_read_file :: "uring \<Rightarrow> io_request \<Rightarrow> io_request option" where
  "linux_read_file u r = map_option snd (uring_submit u r)"

definition linux_write_file :: "uring \<Rightarrow> io_request \<Rightarrow> io_request option" where
  "linux_write_file u r = map_option snd (uring_submit u r)"

definition linux_update_io_state :: "uring \<Rightarrow> io_request \<Rightarrow> io_request option" where
  "linux_update_io_state u r = uring_update u r"

text \<open>
  The build switch \<open>UMS_IO_URING_ENABLED\<close>. Without it the constructor of \<open>IO_uring\<close>, \<open>uring_submit\<close> and
  \<open>uring_update\<close> throw; the last two are \<open>noexcept\<close>, so the process ends.
\<close>

definition IO_uring_ctor :: "bool \<Rightarrow> unit option" where
  "IO_uring_ctor uring_enabled = (if \<not> uring_enabled then None else Some ())"

definition uring_submit_build :: "bool \<Rightarrow> uring \<Rightarrow> io_request \<Rightarrow> (sqe \<times> io_request) option" where
  "uring_submit_build uring_enabled u r = (if \<not> uring_enabled then None else uring_submit u r)"

definition uring_update_build :: "bool \<Rightarrow> uring \<Rightarrow> io_request \<Rightarrow> io_request option" where
  "uring_update_build uring_enabled u r = (if \<not> uring_enabled then None else uring_update u r)"

section \<open>Windows: overlapped I/O\<close>

text \<open>The low and high half of the offset, as \<open>IO_handle::IO_handle\<close> stores them.\<close>

definition overlapped_offset :: "u64 \<Rightarrow> u32 \<times> u32" where
  "overlapped_offset off =
     (ucast (and off 0xFFFFFFFF), ucast (drop_bit 32 off))"

datatype win_error = ERROR_SUCCESS | ERROR_IO_PENDING | ERROR_OTHER u32

definition bool_to_error :: "bool \<Rightarrow> win_error \<Rightarrow> win_error" where
  "bool_to_error b last_error = (if b then ERROR_SUCCESS else last_error)"

definition win_state :: "win_error \<Rightarrow> io_state" where
  "win_state e = (case e of
       ERROR_SUCCESS \<Rightarrow> Io_completed
     | ERROR_IO_PENDING \<Rightarrow> Io_pending
     | ERROR_OTHER _ \<Rightarrow> Io_error)"

text \<open>\<open>ok\<close> and \<open>err\<close>: the result of \<open>ReadFile\<close> or \<open>WriteFile\<close> and of \<open>GetLastError\<close>.\<close>

definition win_read_file :: "bool \<Rightarrow> win_error \<Rightarrow> io_request \<Rightarrow> io_request option" where
  "win_read_file ok err r = Some (r\<lparr>io_state := win_state (bool_to_error ok err)\<rparr>)"

definition win_write_file :: "bool \<Rightarrow> win_error \<Rightarrow> io_request \<Rightarrow> io_request option" where
  "win_write_file ok err r = Some (r\<lparr>io_state := win_state (bool_to_error ok err)\<rparr>)"

text \<open>\<open>done\<close>: \<open>HasOverlappedIoCompleted\<close>; \<open>ok\<close>, \<open>err\<close>: \<open>GetOverlappedResult\<close>.\<close>

definition win_update_io_state ::
  "bool \<Rightarrow> bool \<Rightarrow> win_error \<Rightarrow> io_request \<Rightarrow> io_request option" where
  "win_update_io_state completed ok err r =
     (if io_is_pending r \<and> \<not> completed then Some r
      else Some (r\<lparr>io_state := win_state (bool_to_error ok err)\<rparr>))"

section \<open>Behaviour\<close>

lemmas io_simps = io_is_completed_def io_is_pending_def io_is_error_def

text \<open>A completed transfer is reported as completed only when every requested byte moved.\<close>

lemma uring_update_completed:
  assumes "uring_update u r = Some r'" and "io_is_pending r" and "io_is_completed r'"
  shows "\<exists>res. cqe u = Some (res, io_handle r) \<and> (scast res :: u64) = io_size r"
  using assms by (auto simp: uring_update_def io_simps Let_def split: if_splits option.splits)

lemma uring_update_keeps:
  "uring_update u r = Some r' \<Longrightarrow>
     io_handle r' = io_handle r \<and> io_size r' = io_size r \<and> io_type r' = io_type r"
  by (auto simp: uring_update_def Let_def split: if_splits option.splits)

lemma uring_update_final:
  "\<not> io_is_pending r \<Longrightarrow> uring_update u r = Some r"
  by (simp add: uring_update_def io_simps)

text \<open>
  The life of an I/O request on Linux. Submission leaves it pending and hands the kernel
  the request's own descriptor, buffer, length, offset and tag; an update of a pending request
  completes it exactly when the completion at the head of the ring reports the requested number
  of bytes, makes it an error on any other count (a short transfer, or a negative error code),
  leaves it pending while there is no completion, and never revives a finished request.
\<close>

theorem uring_request_life:
  "(case IO_Request (linux_read_file u) (linux_write_file u) h fh buf sz off ty of
      None \<Rightarrow> \<not> (sqe_ok u \<and> submit_ret u = 1)
    | Some r \<Rightarrow> io_is_pending r \<and> uring_sqe r = \<lparr>sqe_write = (ty = Io_write), sqe_fd = fh,
        sqe_buf = buf, sqe_len = sz, sqe_off = off, sqe_data = h\<rparr>) \<and>
   linux_update_io_state v r =
     (if io_is_pending r then
        (if peek_ret v \<noteq> 0 then Some r
         else case cqe v of
           Some (res, tag) \<Rightarrow>
             if tag \<noteq> io_handle r then None
             else if (scast res :: u64) = io_size r then Some (r\<lparr>io_state := Io_completed\<rparr>)
             else Some (r\<lparr>io_state := Io_error\<rparr>)
         | None \<Rightarrow> None)
      else Some r)"
  by (auto simp: IO_Request_def linux_read_file_def linux_write_file_def uring_submit_def
      uring_sqe_def linux_update_io_state_def uring_update_def io_simps Let_def
      split: option.splits)

end
