(* ===== verification/Io_Ring.thy ===== *)
theory Io_Ring
  imports Io
begin

text \<open>
  The io_uring of one worker over many requests. The ring is \<open>thread_local\<close> and created for one
  entry; the worker submits to it (\<open>Worker::read_file\<close>, \<open>write_file\<close>) and is parked while the request
  is pending; its scheduler asks the ring for the completion (\<open>IO_Request::update\<close>, called by
  \<open>schedule_io_workers\<close>) and makes the worker runnable again. The kernel and liburing are parameters
  of each event; what the code relies on is \<open>uring_ok\<close>.
\<close>

section \<open>State and events\<close>

text \<open>
  The global counter of \<open>IO_handle\<close>, the tags of the entries that have been submitted and whose
  completion has not been seen, the worker's request, and whether the worker is in the queue
  \<open>m_pending_io_queue\<close> of its scheduler. The last two fields are ghosts: the number of transfers that
  the worker has started, and for every one that was answered the size asked for, the result
  reported and the final state, in order.
\<close>

record ring =
  rg_cnt :: u64
  rg_flight :: "u64 list"
  rg_req :: "io_request option"
  rg_parked :: bool
  rg_starts :: nat
  rg_log :: "(u64 \<times> i32 \<times> io_state) list"

definition ring_init :: "u64 \<Rightarrow> ring" where
  "ring_init n = \<lparr>rg_cnt = n, rg_flight = [], rg_req = None, rg_parked = False, rg_starts = 0,
     rg_log = []\<rparr>"

text \<open>
  The worker calls \<open>read_file\<close> or \<open>write_file\<close>, its scheduler runs \<open>schedule_io_workers\<close>, a request of
  another worker. The kernel may refuse a submission, complete a request late, in part, or not at
  all.
\<close>

datatype ring_event =
    R_start io_type u64 u64 u64 u64 uring
  | R_update uring
  | R_other

definition rg_pending :: "ring \<Rightarrow> bool" where
  "rg_pending s \<longleftrightarrow> (\<exists>r. rg_req s = Some r \<and> io_is_pending r)"

text \<open>
  \<open>None\<close> is a failed assertion. A parked worker does not run, so it makes no call; a worker that
  has started a transfer parks if the request is pending.
\<close>

definition ring_start ::
  "io_type \<Rightarrow> u64 \<Rightarrow> u64 \<Rightarrow> u64 \<Rightarrow> u64 \<Rightarrow> uring \<Rightarrow> ring \<Rightarrow> ring option" where
  "ring_start ty fh buf sz off u s =
     (if rg_parked s then Some s
      else let (h, cnt) = IO_handle_linux (rg_cnt s)
        in map_option (\<lambda>r. s\<lparr>rg_cnt := cnt, rg_req := Some r,
               rg_flight := rg_flight s @ [sqe_data (uring_sqe r)], rg_starts := Suc (rg_starts s),
               rg_parked := (io_state r = Io_pending)\<rparr>)
             (IO_Request (linux_read_file u) (linux_write_file u) h fh buf sz off ty))"

text \<open>
  \<open>schedule_io_workers\<close> visits the workers of the queue only: it updates the request and takes the
  worker out if the request is not pending any more.
\<close>

definition ring_update :: "uring \<Rightarrow> ring \<Rightarrow> ring option" where
  "ring_update u s =
     (if \<not> rg_parked s then Some s
      else case rg_req s of
        None \<Rightarrow> None
      | Some r \<Rightarrow> (case linux_update_io_state u r of
            None \<Rightarrow> None
          | Some r' \<Rightarrow> (let s' = s\<lparr>rg_req := Some r', rg_parked := io_is_pending r'\<rparr>
              in Some (if io_is_pending r \<and> peek_ret u = 0
                then s'\<lparr>rg_flight := remove1 (snd (the (cqe u))) (rg_flight s),
                  rg_log := rg_log s @ [(io_size r, fst (the (cqe u)), io_state r')]\<rparr>
                else s'))))"

fun ring_step :: "ring_event \<Rightarrow> ring \<Rightarrow> ring option" where
  "ring_step (R_start ty fh buf sz off u) s = ring_start ty fh buf sz off u s"
| "ring_step (R_update u) s = ring_update u s"
| "ring_step R_other s = Some (s\<lparr>rg_cnt := snd (IO_handle_linux (rg_cnt s))\<rparr>)"

fun ring_run :: "ring_event list \<Rightarrow> ring \<Rightarrow> ring option" where
  "ring_run [] s = Some s"
| "ring_run (e # es) s = (case ring_step e s of None \<Rightarrow> None | Some s' \<Rightarrow> ring_run es s')"

section \<open>What the code relies on\<close>

text \<open>
  liburing hands out an entry to a call of \<open>io_uring_get_sqe\<close> while the ring of one entry is not
  full, and reports only completions of entries in flight, with their tags.
\<close>

fun uring_ok :: "ring_event \<Rightarrow> ring \<Rightarrow> bool" where
  "uring_ok (R_start ty fh buf sz off u) s \<longleftrightarrow> (rg_flight s = [] \<longrightarrow> sqe_ok u)"
| "uring_ok (R_update u) s \<longleftrightarrow>
     (rg_parked s \<and> peek_ret u = 0 \<longrightarrow> (\<exists>res. \<exists>tag\<in>set (rg_flight s). cqe u = Some (res, tag)))"
| "uring_ok R_other s \<longleftrightarrow> True"

fun uring_oks :: "ring_event list \<Rightarrow> ring \<Rightarrow> bool" where
  "uring_oks [] s \<longleftrightarrow> True"
| "uring_oks (e # es) s \<longleftrightarrow> uring_ok e s \<and>
     (case ring_step e s of None \<Rightarrow> True | Some s' \<Rightarrow> uring_oks es s')"

text \<open>The worker runs, and the kernel refuses the entry that it submits.\<close>

fun refused :: "ring_event \<Rightarrow> ring \<Rightarrow> bool" where
  "refused (R_start ty fh buf sz off u) s \<longleftrightarrow> \<not> rg_parked s \<and> submit_ret u \<noteq> 1"
| "refused e s \<longleftrightarrow> False"

section \<open>The invariant\<close>

definition finished_io :: "u64 \<times> i32 \<times> io_state \<Rightarrow> bool" where
  "finished_io e \<longleftrightarrow> (case e of (sz, res, st) \<Rightarrow>
     st = (if (scast res :: u64) = sz then Io_completed else Io_error))"

definition ring_inv :: "ring \<Rightarrow> bool" where
  "ring_inv s \<longleftrightarrow> rg_parked s = rg_pending s \<and>
     rg_flight s = (case rg_req s of
       Some r \<Rightarrow> if io_is_pending r then [io_handle r] else [] | None \<Rightarrow> []) \<and>
     rg_starts s = length (rg_log s) + length (rg_flight s) \<and>
     list_all finished_io (rg_log s)"

lemma ring_init_inv: "ring_inv (ring_init n)"
  by (simp add: ring_inv_def ring_init_def rg_pending_def)

lemma ring_start_ok:
  assumes "ring_inv s" and "uring_ok (R_start ty fh buf sz off u) s"
  shows "case ring_start ty fh buf sz off u s of
      None \<Rightarrow> refused (R_start ty fh buf sz off u) s | Some s' \<Rightarrow> ring_inv s'"
proof (cases "rg_parked s")
  case False
  then have "rg_flight s = []"
    using assms(1) by (auto simp: ring_inv_def rg_pending_def split: option.splits)
  then show ?thesis using assms False
    by (auto simp: ring_start_def IO_handle_linux_def IO_Request_def linux_read_file_def
        linux_write_file_def uring_submit_def uring_sqe_def ring_inv_def rg_pending_def io_simps Let_def
        split: option.splits if_splits)
qed (use assms in \<open>simp add: ring_start_def\<close>)

lemma ring_update_ok:
  assumes "ring_inv s" and "uring_ok (R_update u) s"
  shows "\<exists>s'. ring_update u s = Some s' \<and> ring_inv s'"
proof (cases "rg_parked s")
  case True
  then obtain r where "rg_req s = Some r" "io_is_pending r" "rg_flight s = [io_handle r]"
    using assms(1) by (auto simp: ring_inv_def rg_pending_def)
  then show ?thesis using assms True
    by (auto simp: ring_update_def linux_update_io_state_def uring_update_def ring_inv_def
        rg_pending_def finished_io_def io_simps Let_def)
qed (use assms in \<open>simp add: ring_update_def\<close>)

lemma ring_step_ok:
  assumes "ring_inv s" and "uring_ok e s"
  shows "case ring_step e s of None \<Rightarrow> refused e s | Some s' \<Rightarrow> ring_inv s'"
proof (cases e)
  case (R_start ty fh buf sz off u)
  show ?thesis using ring_start_ok [OF assms(1) assms(2) [unfolded R_start]]
    by (simp add: R_start split: option.splits)
next
  case (R_update u)
  then show ?thesis using ring_update_ok assms by fastforce
next
  case R_other
  then show ?thesis using assms(1) by (simp add: ring_inv_def rg_pending_def)
qed

lemma ring_run_ok:
  "ring_inv s \<Longrightarrow> uring_oks es s \<Longrightarrow> (case ring_run es s of
      None \<Rightarrow> \<exists>es1 e es2 s1. es = es1 @ e # es2 \<and> ring_run es1 s = Some s1 \<and> refused e s1
    | Some s' \<Rightarrow> ring_inv s')"
proof (induction es arbitrary: s)
  case (Cons e es)
  show ?case
  proof (cases "ring_step e s")
    case None
    then have "refused e s" using ring_step_ok [OF Cons.prems(1), of e] Cons.prems(2) by simp
    then have "e # es = [] @ e # es \<and> ring_run [] s = Some s \<and> refused e s" by simp
    then show ?thesis using None by (auto intro!: exI [of _ "[]"])
  next
    case (Some s')
    then have "ring_inv s'" "uring_oks es s'"
      using ring_step_ok [OF Cons.prems(1), of e] Cons.prems(2) by simp_all
    note IH = Cons.IH [OF this]
    show ?thesis
    proof (cases "ring_run es s'")
      case None
      then obtain es1 e' es2 s1 where "es = es1 @ e' # es2" "ring_run es1 s' = Some s1" "refused e' s1"
        using IH by auto
      then have "e # es = (e # es1) @ e' # es2 \<and> ring_run (e # es1) s = Some s1 \<and> refused e' s1"
        using Some by simp
      then show ?thesis using Some None by (auto intro!: exI [of _ "e # es1"])
    qed (use IH Some in simp)
  qed
qed simp

section \<open>Properties\<close>

text \<open>
  C21: The requests of one worker, whatever the worker calls, however often its scheduler looks for
  completions, and whatever other workers do meanwhile. Because the worker parks while its request
  is pending, at most one request is in flight, under its own tag, and a ring of one entry is
  enough: the only assertion that can fail is the one on the result of \<open>io_uring_submit\<close>, in a call
  whose entry the kernel refuses. The worker is parked exactly while its request is pending; every
  transfer is answered by exactly one completion, which makes it completed if the reported number of
  bytes is the requested one and an error otherwise.
\<close>

theorem uring_session:
  assumes "uring_oks es (ring_init n)"
  shows "case ring_run es (ring_init n) of
      None \<Rightarrow> \<exists>es1 e es2 s1.
        es = es1 @ e # es2 \<and> ring_run es1 (ring_init n) = Some s1 \<and> refused e s1
    | Some s \<Rightarrow> rg_parked s = rg_pending s \<and>
        rg_flight s = (case rg_req s of
          Some r \<Rightarrow> if io_is_pending r then [io_handle r] else [] | None \<Rightarrow> []) \<and>
        rg_starts s = length (rg_log s) + length (rg_flight s) \<and>
        list_all (\<lambda>(sz, res, st). st = (if (scast res :: u64) = sz then Io_completed else Io_error))
          (rg_log s)"
  using ring_run_ok [OF ring_init_inv assms]
  by (auto simp: ring_inv_def finished_io_def list_all_iff split: option.splits)

text \<open>
  A read of 512 bytes that is not yet complete, then is; a write of which only 100 bytes are done; a
  read that the kernel refuses. While the worker is parked it makes no call.
\<close>

definition ring_ex :: "ring_event list" where
  "ring_ex =
    [R_start Io_read 1 2 512 0 \<lparr>sqe_ok = True, submit_ret = 1, peek_ret = 0, cqe = None\<rparr>,
     R_update \<lparr>sqe_ok = True, submit_ret = 0, peek_ret = - 11, cqe = None\<rparr>, R_other,
     R_start Io_read 1 2 512 0 \<lparr>sqe_ok = False, submit_ret = 0, peek_ret = 0, cqe = None\<rparr>,
     R_update \<lparr>sqe_ok = True, submit_ret = 0, peek_ret = 0, cqe = Some (512, 7)\<rparr>,
     R_start Io_write 1 2 512 0 \<lparr>sqe_ok = True, submit_ret = 1, peek_ret = 0, cqe = None\<rparr>,
     R_update \<lparr>sqe_ok = True, submit_ret = 0, peek_ret = 0, cqe = Some (100, 9)\<rparr>]"

lemmas ring_ex_simps = ring_ex_def ring_init_def ring_start_def ring_update_def IO_handle_linux_def
  IO_Request_def linux_read_file_def linux_write_file_def uring_submit_def uring_sqe_def
  linux_update_io_state_def uring_update_def rg_pending_def io_simps

theorem uring_session_witness:
  "case ring_run ring_ex (ring_init 7) of None \<Rightarrow> False
     | Some s \<Rightarrow> rg_starts s = 2 \<and> length (rg_log s) + length (rg_flight s) = 2"
proof -
  have "uring_oks ring_ex (ring_init 7)" by (simp add: ring_ex_simps Let_def)
  note run = uring_session [OF this]
  have "(case ring_run ring_ex (ring_init 7) of None \<Rightarrow> False | Some s \<Rightarrow> rg_starts s = 2)"
    by (simp add: ring_ex_simps Let_def)
  then obtain s where "ring_run ring_ex (ring_init 7) = Some s" "rg_starts s = 2"
    by (auto split: option.splits)
  with run show ?thesis unfolding option.case by auto
qed

end
