(* ===== verification/Task_Queue.thy ===== *)
theory Task_Queue
  imports Prelude
begin

text \<open>
  The class \<open>Tasks\<close> of \<open>task.hpp\<close> and \<open>task.cpp\<close>: the queue of tasks of a scheduler, a
  \<open>std::deque\<close> guarded by a spinlock, with an atomic counter \<open>m_size\<close> that \<open>size\<close> and
  \<open>empty\<close> read without the lock. Every operation that takes the lock is one atomic step.
\<close>

record tasks =
  m_tasks :: "task_id list"
  m_size :: u64

definition Tasks_init :: tasks where
  "Tasks_init = \<lparr>m_tasks = [], m_size = 0\<rparr>"

definition Tasks_enque :: "task_id \<Rightarrow> tasks \<Rightarrow> tasks" where
  "Tasks_enque t q = q\<lparr>m_tasks := m_tasks q @ [t], m_size := m_size q + 1\<rparr>"

definition Tasks_deque :: "tasks \<Rightarrow> task_id option \<times> tasks" where
  "Tasks_deque q = (case m_tasks q of
       [] \<Rightarrow> (None, q)
     | t # ts \<Rightarrow> (Some t, q\<lparr>m_tasks := ts, m_size := m_size q - 1\<rparr>))"

definition Tasks_size :: "tasks \<Rightarrow> u64" where
  "Tasks_size q = m_size q"

definition Tasks_empty :: "tasks \<Rightarrow> bool" where
  "Tasks_empty q \<longleftrightarrow> Tasks_size q = 0"

lemmas Tasks_defs = Tasks_enque_def Tasks_deque_def Tasks_size_def Tasks_empty_def

section \<open>Invariant\<close>

text \<open>
  The counter is the number of queued tasks. The address space bounds that number, so the
  counter never wraps and \<open>empty\<close> is exact.
\<close>

definition tasks_inv :: "tasks \<Rightarrow> bool" where
  "tasks_inv q \<longleftrightarrow> m_size q = of_nat (length (m_tasks q))"

lemma tasks_inv_init [simp]: "tasks_inv Tasks_init"
  by (simp add: tasks_inv_def Tasks_init_def)

lemma tasks_inv_enque: "tasks_inv q \<Longrightarrow> tasks_inv (Tasks_enque t q)"
  by (simp add: tasks_inv_def Tasks_enque_def)

lemma tasks_inv_deque: "tasks_inv q \<Longrightarrow> tasks_inv (snd (Tasks_deque q))"
  by (auto simp: tasks_inv_def Tasks_deque_def split: list.splits)

lemma m_tasks_enque [simp]: "m_tasks (Tasks_enque t q) = m_tasks q @ [t]"
  by (simp add: Tasks_enque_def)

lemma Tasks_deque_None: "fst (Tasks_deque q) = None \<longleftrightarrow> m_tasks q = []"
  by (simp add: Tasks_deque_def split: list.splits)

lemma Tasks_deque_Nil: "m_tasks q = [] \<Longrightarrow> Tasks_deque q = (None, q)"
  by (simp add: Tasks_deque_def)

lemma Tasks_deque_SomeD:
  "Tasks_deque q = (Some t, q') \<Longrightarrow> m_tasks q = t # m_tasks q' \<and> m_size q' = m_size q - 1"
  by (auto simp: Tasks_deque_def split: list.splits)

lemma Tasks_deque_NoneD: "Tasks_deque q = (None, q') \<Longrightarrow> m_tasks q = [] \<and> q' = q"
  by (auto simp: Tasks_deque_def split: list.splits)

lemma of_nat_u64_eq_0: "n < 2 ^ 64 \<Longrightarrow> (of_nat n :: u64) = 0 \<longleftrightarrow> n = 0"
  by (auto simp: word_unat_eq_iff unat_of_nat take_bit_nat_eq_self)

lemma Tasks_empty_iff:
  "tasks_inv q \<Longrightarrow> length (m_tasks q) < 2 ^ 64 \<Longrightarrow> Tasks_empty q \<longleftrightarrow> m_tasks q = []"
  by (simp add: tasks_inv_def Tasks_empty_def Tasks_size_def of_nat_u64_eq_0)

section \<open>The interface of the queue\<close>

text \<open>
  What a scheduler relies on: the operations act on a sequence of tasks, first in, first out,
  and the size is the length of the sequence.
\<close>

locale task_queue =
  fixes enq :: "'a \<Rightarrow> 'q \<Rightarrow> 'q"
    and deq :: "'q \<Rightarrow> 'a option \<times> 'q"
    and qsize :: "'q \<Rightarrow> u64"
    and contents :: "'q \<Rightarrow> 'a list"
    and qinv :: "'q \<Rightarrow> bool"
  assumes qinv_enq: "qinv q \<Longrightarrow> qinv (enq x q)"
    and qinv_deq: "qinv q \<Longrightarrow> qinv (snd (deq q))"
    and contents_enq: "qinv q \<Longrightarrow> contents (enq x q) = contents q @ [x]"
    and deq_Nil: "contents q = [] \<Longrightarrow> deq q = (None, q)"
    and deq_Cons: "contents q = x # xs \<Longrightarrow> fst (deq q) = Some x \<and> contents (snd (deq q)) = xs"
    and size_contents: "qinv q \<Longrightarrow> qsize q = of_nat (length (contents q))"

text \<open>Dequeue up to \<open>n\<close> times; the elements obtained, in order.\<close>

fun dequeue_many :: "('q \<Rightarrow> 'a option \<times> 'q) \<Rightarrow> nat \<Rightarrow> 'q \<Rightarrow> 'a list \<times> 'q" where
  "dequeue_many deq 0 q = ([], q)"
| "dequeue_many deq (Suc n) q = (case deq q of
     (None, q') \<Rightarrow> ([], q')
   | (Some x, q') \<Rightarrow> (let (xs, q'') = dequeue_many deq n q' in (x # xs, q'')))"

context task_queue
begin

lemma fold_enq:
  "qinv q \<Longrightarrow> qinv (fold enq xs q) \<and> contents (fold enq xs q) = contents q @ xs"
  by (induction xs arbitrary: q) (auto simp: qinv_enq contents_enq)

lemma drain:
  "qinv q \<Longrightarrow> n = length (contents q) \<Longrightarrow> fst (dequeue_many deq n q) = contents q \<and>
    contents (snd (dequeue_many deq n q)) = [] \<and> qinv (snd (dequeue_many deq n q))"
proof (induction n arbitrary: q)
  case (Suc n)
  then obtain x xs where c: "contents q = x # xs" by (cases "contents q") auto
  obtain q' where d: "deq q = (Some x, q')" "contents q' = xs"
    using deq_Cons [OF c] by (cases "deq q") auto
  have "qinv q'" using qinv_deq [OF Suc.prems(1)] d by simp
  with Suc.IH [of q'] Suc.prems d c show ?case by (simp add: case_prod_beta Let_def)
qed simp

lemma fifo:
  assumes "qinv q"
    and r_def: "r = dequeue_many deq (length (contents q) + length xs) (fold enq xs q)"
  shows "fst r = contents q @ xs" "contents (snd r) = []" "qsize (snd r) = 0"
    "fst (deq (snd r)) = None"
  using drain [of "fold enq xs q" "length (contents q) + length xs"] fold_enq [OF assms(1), of xs]
  by (simp_all add: r_def deq_Nil size_contents)

end

interpretation tq: task_queue Tasks_enque Tasks_deque Tasks_size m_tasks tasks_inv
proof (unfold_locales, goal_cases)
  case (2 q)
  then show ?case by (rule tasks_inv_deque)
next
  case (6 q)
  then show ?case by (simp add: Tasks_size_def tasks_inv_def)
qed (simp_all add: tasks_inv_enque Tasks_deque_def)

text \<open>
  The task queue is first in, first out, and its counter is exact: after any number of
  \<open>enque\<close> calls on a queue, dequeuing as many tasks as it then holds returns the old ones and
  then the new ones in the order they were enqueued; the queue is then empty, \<open>size\<close> is 0 and
  \<open>deque\<close> returns null.
\<close>

theorem Tasks_fifo:
  assumes "tasks_inv q"
    and "r = dequeue_many Tasks_deque (length (m_tasks q) + length ts) (fold Tasks_enque ts q)"
  shows "fst r = m_tasks q @ ts \<and> m_tasks (snd r) = [] \<and> Tasks_size (snd r) = 0 \<and>
    Tasks_empty (snd r) \<and> fst (Tasks_deque (snd r)) = None"
  using tq.fifo [OF assms] by (simp add: Tasks_empty_def)

theorem Tasks_fifo_witness:
  "fst (dequeue_many Tasks_deque (length (m_tasks Tasks_init) + length [5, 6])
     (fold Tasks_enque [5, 6] Tasks_init)) = [5, 6]"
  using Tasks_fifo [OF tasks_inv_init refl, of "[5, 6]"] by (simp add: Tasks_init_def)

end
