(* ===== verification/Stl_Interface.thy ===== *)
theory Stl_Interface
  imports Prelude
begin

text \<open>
  The headers \<open>intrusive_list.hpp\<close> and \<open>util.hpp\<close> come from a separate library
  (\<open>cmake/stl.cmake\<close> fetches it) and are not part of the repository. What the repository uses
  of them is a parameter of the model: a record of the operations of \<open>stl::IList\<close> over worker
  pointers, and \<open>Time_point::max()\<close>. The locale \<open>stl_laws\<close> names what the code relies on:
  the operations act on the sequence \<open>begin() .. end()\<close> as those of \<open>std::list\<close> do, pushing
  being allowed only for a node that is not linked.
\<close>

record 'q stl =
  il_empty :: 'q
  il_is_empty :: "'q \<Rightarrow> bool"
  il_front :: "'q \<Rightarrow> nat"
  il_push_back :: "'q \<Rightarrow> nat \<Rightarrow> 'q"
  il_push_front :: "'q \<Rightarrow> nat \<Rightarrow> 'q"
  il_pop_front :: "'q \<Rightarrow> 'q"
  il_erase :: "'q \<Rightarrow> nat \<Rightarrow> 'q"
  il_elems :: "'q \<Rightarrow> nat list"
  tp_max :: time_point

locale stl_laws =
  fixes L :: "'q stl"
  assumes elems_empty: "il_elems L (il_empty L) = []"
    and is_empty: "il_is_empty L q \<longleftrightarrow> il_elems L q = []"
    and front: "il_elems L q \<noteq> [] \<Longrightarrow> il_front L q = hd (il_elems L q)"
    and elems_push_back:
      "w \<notin> set (il_elems L q) \<Longrightarrow> il_elems L (il_push_back L q w) = il_elems L q @ [w]"
    and elems_push_front:
      "w \<notin> set (il_elems L q) \<Longrightarrow> il_elems L (il_push_front L q w) = w # il_elems L q"
    and elems_pop_front:
      "il_elems L q \<noteq> [] \<Longrightarrow> il_elems L (il_pop_front L q) = tl (il_elems L q)"
    and elems_erase:
      "w \<in> set (il_elems L q) \<Longrightarrow> distinct (il_elems L q) \<Longrightarrow>
        il_elems L (il_erase L q w) = remove1 w (il_elems L q)"
begin

lemmas queue_laws = elems_empty is_empty front elems_push_back elems_push_front
  elems_pop_front elems_erase

end

text \<open>
  The laws can be met: a list of worker pointers with the obvious operations, and the largest
  signed 64-bit tick count. Witnesses instantiate the parameter with it.
\<close>

definition list_stl :: "nat list stl" where
  "list_stl = \<lparr>il_empty = [], il_is_empty = (\<lambda>q. q = []), il_front = hd,
     il_push_back = (\<lambda>q w. q @ [w]), il_push_front = (\<lambda>q w. w # q), il_pop_front = tl,
     il_erase = (\<lambda>q w. remove1 w q), il_elems = (\<lambda>q. q), tp_max = 2 ^ 63 - 1\<rparr>"

lemma list_stl_simps [simp]:
  "il_empty list_stl = []" "il_is_empty list_stl q \<longleftrightarrow> q = []" "il_front list_stl q = hd q"
  "il_push_back list_stl q w = q @ [w]" "il_push_front list_stl q w = w # q"
  "il_pop_front list_stl q = tl q" "il_erase list_stl q w = remove1 w q"
  "il_elems list_stl q = q" "tp_max list_stl = 2 ^ 63 - 1"
  by (simp_all add: list_stl_def)

interpretation list_il: stl_laws list_stl
  by unfold_locales simp_all

end
