(* ===== verification/Worker.thy ===== *)
theory Worker
  imports Io Stl_Interface
begin

text \<open>
  \<open>worker.hpp\<close> and \<open>worker.cpp\<close>: the state of a worker (a thread that executes tasks) and the
  operations on one worker alone, and the table of loads of \<open>scheduler.cpp\<close> that is indexed
  by the state. The calls into the scheduler (\<open>sync\<close>) are in the theory Scheduler.
\<close>

section \<open>State\<close>

datatype worker_state =
    W_initializing | W_idle | W_waiting | W_pending_io
  | W_yielded | W_runnable | W_running | W_exiting

text \<open>The underlying value of the enumerator, \<open>i32(state)\<close>.\<close>

fun worker_state_index :: "worker_state \<Rightarrow> nat" where
  "worker_state_index W_initializing = 0"
| "worker_state_index W_idle = 1"
| "worker_state_index W_waiting = 2"
| "worker_state_index W_pending_io = 3"
| "worker_state_index W_yielded = 4"
| "worker_state_index W_runnable = 5"
| "worker_state_index W_running = 6"
| "worker_state_index W_exiting = 7"

lemma worker_state_index_inject: "worker_state_index a = worker_state_index b \<Longrightarrow> a = b"
  by (cases a; cases b; simp)

instantiation worker_state :: linorder
begin

definition less_eq_worker_state :: "worker_state \<Rightarrow> worker_state \<Rightarrow> bool" where
  "a \<le> b \<longleftrightarrow> worker_state_index a \<le> worker_state_index b"

definition less_worker_state :: "worker_state \<Rightarrow> worker_state \<Rightarrow> bool" where
  "a < b \<longleftrightarrow> worker_state_index a < worker_state_index b"

instance
  by standard
    (auto simp: less_eq_worker_state_def less_worker_state_def
      intro: worker_state_index_inject)

end

text \<open>
  \<open>w_running\<close> is \<open>m_running\<close>, the flag that guards the worker's condition variable against
  spurious wakeups; \<open>w_cond\<close> and \<open>w_sleep_tp\<close> are the two fields of \<open>Wait_info\<close>. The id is
  the index of the worker in its scheduler, its address.
\<close>

record worker =
  w_state :: worker_state
  w_running :: bool
  w_cond :: bool
  w_sleep_tp :: time_point
  w_task :: "task_id option"
  w_io :: "io_request option"

text \<open>The members as their initializers leave them, before the thread has run.\<close>

definition Worker_init :: "'q stl \<Rightarrow> worker" where
  "Worker_init L = \<lparr>w_state = W_initializing, w_running = True, w_cond = False,
     w_sleep_tp = tp_max L, w_task = None, w_io = None\<rparr>"

section \<open>Wait info\<close>

definition set_state :: "worker_state \<Rightarrow> worker \<Rightarrow> worker" where
  "set_state st w = w\<lparr>w_state := st\<rparr>"

definition worker_exit :: "worker \<Rightarrow> bool" where
  "worker_exit w \<longleftrightarrow> w_state w = W_exiting"

definition set_cond :: "worker \<Rightarrow> worker" where
  "set_cond w = w\<lparr>w_cond := True\<rparr>"

definition clear_cond :: "worker \<Rightarrow> worker" where
  "clear_cond w = w\<lparr>w_cond := False\<rparr>"

definition check_cond :: "worker \<Rightarrow> bool" where
  "check_cond w \<longleftrightarrow> w_cond w"

definition set_sleep :: "time_point \<Rightarrow> worker \<Rightarrow> worker" where
  "set_sleep tp w = w\<lparr>w_sleep_tp := tp\<rparr>"

definition clear_sleep :: "'q stl \<Rightarrow> worker \<Rightarrow> worker" where
  "clear_sleep L w = w\<lparr>w_sleep_tp := tp_max L\<rparr>"

text \<open>\<open>now\<close> is the reading of the clock.\<close>

definition check_sleep :: "time_point \<Rightarrow> worker \<Rightarrow> bool" where
  "check_sleep now w \<longleftrightarrow> now \<ge> w_sleep_tp w"

definition set_wait_info :: "bool \<Rightarrow> time_point \<Rightarrow> worker \<Rightarrow> worker" where
  "set_wait_info cond tp w = set_sleep tp (if cond then set_cond w else clear_cond w)"

definition clear_wait_info :: "'q stl \<Rightarrow> worker \<Rightarrow> worker" where
  "clear_wait_info L w = clear_sleep L (clear_cond w)"

definition check_wait_info :: "time_point \<Rightarrow> worker \<Rightarrow> bool" where
  "check_wait_info now w \<longleftrightarrow> check_cond w \<or> check_sleep now w"

lemmas wait_info_defs = set_cond_def clear_cond_def check_cond_def set_sleep_def
  clear_sleep_def check_sleep_def set_wait_info_def clear_wait_info_def check_wait_info_def

text \<open>
  The two halves of the handshake on \<open>m_running\<close>: \<open>wait\<close> clears the flag and blocks until it
  is set; \<open>notify\<close> sets it.
\<close>

definition Worker_wait :: "worker \<Rightarrow> worker" where
  "Worker_wait w = w\<lparr>w_running := False\<rparr>"

definition Worker_notify :: "worker \<Rightarrow> worker" where
  "Worker_notify w = w\<lparr>w_running := True\<rparr>"

lemma set_wait_info_check:
  "check_wait_info now (set_wait_info False tp w) \<longleftrightarrow> tp \<le> now"
  by (simp add: wait_info_defs)

section \<open>Loads\<close>

text \<open>The class \<open>Load\<close>: an array of 32-bit loads indexed by the worker state.\<close>

definition Load_task :: i32 where "Load_task = 10"

definition Load_m_loads :: "i32 list" where
  "Load_m_loads = [0, 0, 1, 2, 10, 10, 10, 0]"

definition Loads :: "worker_state \<Rightarrow> i32" where
  "Loads st = Load_m_loads ! worker_state_index st"

lemma Loads_simps [simp]:
  "Loads W_initializing = 0" "Loads W_idle = 0" "Loads W_waiting = 1" "Loads W_pending_io = 2"
  "Loads W_yielded = 10" "Loads W_runnable = 10" "Loads W_running = 10" "Loads W_exiting = 0"
  by (simp_all add: Loads_def Load_m_loads_def)

lemma Loads_le_10: "unat (Loads st) \<le> 10"
  by (cases st) simp_all

end
