(* ===== verification/Scheduler.thy ===== *)
theory Scheduler
  imports Options Task_Queue Worker
begin

text \<open>
  The class \<open>Scheduler\<close> of \<open>scheduler.hpp\<close> and \<open>scheduler.cpp\<close>, as far as it acts on one
  scheduler alone: the worker queues, the load, the scheduling passes, the decision to sleep,
  the hand-over between workers. Stealing and the class \<open>Schedulers\<close> are in the theory
  Schedulers. \<open>L\<close> is the external list library, \<open>env\<close> what the clock and the operating system
  answer during one pass. All of this code runs on the one worker thread of the scheduler
  that holds the baton; what other threads may do between the steps is in the theory Runtime.
\<close>

section \<open>State\<close>

datatype scheduler_state =
  S_initializing | S_running | S_idle_wait | S_idle_sleep | S_exiting

definition state_to_string :: "scheduler_state \<Rightarrow> string" where
  "state_to_string st = (case st of
       S_initializing \<Rightarrow> ''initializing''
     | S_running \<Rightarrow> ''running''
     | S_idle_wait \<Rightarrow> ''idle_wait''
     | S_idle_sleep \<Rightarrow> ''idle_sleep''
     | S_exiting \<Rightarrow> ''exiting'')"

datatype sync_context = Ctx_main | Ctx_yield | Ctx_wait | Ctx_io

text \<open>
  Worker pointers are indices into the store \<open>workers\<close> (the \<open>StableVector\<close>, of which the code
  uses only \<open>emplace_back\<close> and \<open>size\<close>); a null pointer is \<open>None\<close>.
\<close>

record 'q scheduler =
  cpu_id :: nat
  m_worker :: "nat option"
  runnable_queue :: 'q
  idle_queue :: 'q
  waiting_queue :: 'q
  pending_io_queue :: 'q
  yielded_worker :: "nat option"
  sch_tasks :: tasks
  sch_state :: scheduler_state
  sch_running :: bool
  workers_started :: bool
  m_state_load :: i32
  m_exit :: bool
  idle_start_time :: time_point
  workers :: "nat \<Rightarrow> worker"
  workers_size :: nat

text \<open>
  What one pass reads from outside: the clock reading when the wait info of a worker is
  checked, and what \<open>os::update_io_state\<close> makes of the request of a worker.
\<close>

record sched_env =
  env_clock :: "nat \<Rightarrow> time_point"
  env_io :: "nat \<Rightarrow> io_request \<Rightarrow> io_request"

definition upd_worker :: "nat \<Rightarrow> (worker \<Rightarrow> worker) \<Rightarrow> 'q scheduler \<Rightarrow> 'q scheduler" where
  "upd_worker w f s = s\<lparr>workers := (workers s)(w := f (workers s w))\<rparr>"

section \<open>Queues and loads\<close>

definition has_idle_workers :: "'q stl \<Rightarrow> 'q scheduler \<Rightarrow> bool" where
  "has_idle_workers L s \<longleftrightarrow> \<not> il_is_empty L (idle_queue s)"

definition has_runnable_workers :: "'q stl \<Rightarrow> 'q scheduler \<Rightarrow> bool" where
  "has_runnable_workers L s \<longleftrightarrow> \<not> il_is_empty L (runnable_queue s)"

definition has_waiting_workers :: "'q stl \<Rightarrow> 'q scheduler \<Rightarrow> bool" where
  "has_waiting_workers L s \<longleftrightarrow> \<not> il_is_empty L (waiting_queue s)"

definition has_pending_io_workers :: "'q stl \<Rightarrow> 'q scheduler \<Rightarrow> bool" where
  "has_pending_io_workers L s \<longleftrightarrow> \<not> il_is_empty L (pending_io_queue s)"

definition has_yielded_workers :: "'q scheduler \<Rightarrow> bool" where
  "has_yielded_workers s \<longleftrightarrow> yielded_worker s \<noteq> None"

definition manage_load :: "worker_state \<Rightarrow> worker_state \<Rightarrow> 'q scheduler \<Rightarrow> 'q scheduler" where
  "manage_load prev new s = s\<lparr>m_state_load := m_state_load s + (Loads new - Loads prev)\<rparr>"

definition set_worker_state :: "nat \<Rightarrow> worker_state \<Rightarrow> 'q scheduler \<Rightarrow> 'q scheduler" where
  "set_worker_state w st s =
     upd_worker w (set_state st) (manage_load (w_state (workers s w)) st s)"

definition state_load :: "'q scheduler \<Rightarrow> i32" where
  "state_load s = m_state_load s"

text \<open>\<open>m_tasks.size() * Load::task\<close> is computed in 64 bits and truncated to 32.\<close>

definition tasks_load :: "'q scheduler \<Rightarrow> i32" where
  "tasks_load s = ucast (Tasks_size (sch_tasks s) * scast Load_task)"

definition load :: "'q scheduler \<Rightarrow> i32" where
  "load s = state_load s + tasks_load s"

definition park_runnable :: "'q stl \<Rightarrow> nat \<Rightarrow> 'q scheduler \<Rightarrow> 'q scheduler" where
  "park_runnable L w s = set_worker_state w W_runnable
     (s\<lparr>runnable_queue := il_push_back L (runnable_queue s) w\<rparr>)"

definition park_idle :: "'q stl \<Rightarrow> bool \<Rightarrow> nat \<Rightarrow> 'q scheduler \<Rightarrow> 'q scheduler" where
  "park_idle L back w s = set_worker_state w W_idle
     (if back then s\<lparr>idle_queue := il_push_back L (idle_queue s) w\<rparr>
      else s\<lparr>idle_queue := il_push_front L (idle_queue s) w\<rparr>)"

definition park_waiting :: "'q stl \<Rightarrow> nat \<Rightarrow> 'q scheduler \<Rightarrow> 'q scheduler" where
  "park_waiting L w s = set_worker_state w W_waiting
     (s\<lparr>waiting_queue := il_push_back L (waiting_queue s) w\<rparr>)"

definition park_pending_io :: "'q stl \<Rightarrow> nat \<Rightarrow> 'q scheduler \<Rightarrow> 'q scheduler" where
  "park_pending_io L w s = set_worker_state w W_pending_io
     (s\<lparr>pending_io_queue := il_push_back L (pending_io_queue s) w\<rparr>)"

definition park_yielded :: "nat \<Rightarrow> 'q scheduler \<Rightarrow> 'q scheduler" where
  "park_yielded w s = set_worker_state w W_yielded (s\<lparr>yielded_worker := Some w\<rparr>)"

definition prepare_next_worker :: "'q stl \<Rightarrow> 'q scheduler \<Rightarrow> 'q scheduler" where
  "prepare_next_worker L s =
     (let w = il_front L (runnable_queue s)
      in set_worker_state w W_running
           (s\<lparr>m_worker := Some w, runnable_queue := il_pop_front L (runnable_queue s)\<rparr>))"

definition invalidate_idle_timer :: "'q stl \<Rightarrow> 'q scheduler \<Rightarrow> 'q scheduler" where
  "invalidate_idle_timer L s = s\<lparr>idle_start_time := tp_max L\<rparr>"

definition prepare_exec :: "'q stl \<Rightarrow> 'q scheduler \<Rightarrow> 'q scheduler" where
  "prepare_exec L s = prepare_next_worker L (invalidate_idle_timer L s)"

section \<open>Tasks\<close>

definition has_tasks :: "'q scheduler \<Rightarrow> bool" where
  "has_tasks s \<longleftrightarrow> \<not> Tasks_empty (sch_tasks s)"

definition next_task :: "'q scheduler \<Rightarrow> task_id option \<times> 'q scheduler" where
  "next_task s = (let (t, q) = Tasks_deque (sch_tasks s) in (t, s\<lparr>sch_tasks := q\<rparr>))"

text \<open>\<open>notify()\<close>: set the flag under \<open>m_mtx\<close>, then wake the scheduler's condition variable.\<close>

definition notify_sched :: "'q scheduler \<Rightarrow> 'q scheduler" where
  "notify_sched s = s\<lparr>sch_running := True\<rparr>"

definition enqueue_task :: "task_id \<Rightarrow> 'q scheduler \<Rightarrow> 'q scheduler" where
  "enqueue_task t s = notify_sched (s\<lparr>sch_tasks := Tasks_enque t (sch_tasks s)\<rparr>)"

definition has_stealable_work :: "'q scheduler \<Rightarrow> bool" where
  "has_stealable_work s \<longleftrightarrow>
     (let tasks_size = Tasks_size (sch_tasks s)
      in if tasks_size = 0 then False
         else if tasks_size = 1 then 0 <s state_load s
         else True)"

section \<open>Scheduling passes\<close>

definition schedule_idle_worker ::
  "'q stl \<Rightarrow> task_id option \<Rightarrow> 'q scheduler \<Rightarrow> 'q scheduler" where
  "schedule_idle_worker L task s =
     (let (task', s1) = (case task of Some t \<Rightarrow> (Some t, s) | None \<Rightarrow> next_task s)
      in case task' of
           None \<Rightarrow> s1
         | Some t \<Rightarrow>
             (let w = il_front L (idle_queue s1);
                  s2 = s1\<lparr>idle_queue := il_pop_front L (idle_queue s1)\<rparr>;
                  s3 = upd_worker w (\<lambda>x. x\<lparr>w_task := Some t\<rparr>) s2
              in park_runnable L w s3))"

text \<open>
  The predicate \<open>io_completed\<close> updates the request and then tests it. A worker without a
  request would be a null dereference; the invariant excludes it.
\<close>

definition io_completed :: "sched_env \<Rightarrow> nat \<Rightarrow> 'q scheduler \<Rightarrow> bool \<times> 'q scheduler" where
  "io_completed env w s = (case w_io (workers s w) of
       None \<Rightarrow> (False, s)
     | Some r \<Rightarrow> (let r' = env_io env w r
                   in (\<not> io_is_pending r', upd_worker w (\<lambda>x. x\<lparr>w_io := Some r'\<rparr>) s)))"

text \<open>
  The two loops visit the workers of a queue from \<open>begin()\<close> to \<open>end()\<close>; the erasure returns the
  position of the next worker. The list argument holds the workers still to be visited.
\<close>

fun io_pass :: "'q stl \<Rightarrow> sched_env \<Rightarrow> nat list \<Rightarrow> 'q scheduler \<Rightarrow> 'q scheduler" where
  "io_pass L env [] s = s"
| "io_pass L env (w # ws) s =
     (case io_completed env w s of
        (True, s1) \<Rightarrow> io_pass L env ws (park_runnable L w
          (s1\<lparr>pending_io_queue := il_erase L (pending_io_queue s1) w\<rparr>))
      | (False, s1) \<Rightarrow> io_pass L env ws s1)"

definition schedule_io_workers :: "'q stl \<Rightarrow> sched_env \<Rightarrow> 'q scheduler \<Rightarrow> 'q scheduler" where
  "schedule_io_workers L env s = io_pass L env (il_elems L (pending_io_queue s)) s"

fun waiting_pass :: "'q stl \<Rightarrow> sched_env \<Rightarrow> nat list \<Rightarrow> 'q scheduler \<Rightarrow> 'q scheduler" where
  "waiting_pass L env [] s = s"
| "waiting_pass L env (w # ws) s =
     (if check_wait_info (env_clock env w) (workers s w)
      then waiting_pass L env ws (park_runnable L w
             (s\<lparr>waiting_queue := il_erase L (waiting_queue s) w\<rparr>))
      else waiting_pass L env ws s)"

definition schedule_waiting_workers ::
  "'q stl \<Rightarrow> sched_env \<Rightarrow> 'q scheduler \<Rightarrow> 'q scheduler" where
  "schedule_waiting_workers L env s = waiting_pass L env (il_elems L (waiting_queue s)) s"

definition schedule_idle_workers :: "'q stl \<Rightarrow> 'q scheduler \<Rightarrow> 'q scheduler" where
  "schedule_idle_workers L s =
     (if \<not> has_runnable_workers L s \<and> has_idle_workers L s \<and> has_tasks s
      then schedule_idle_worker L None s else s)"

definition schedule_yielded_workers :: "'q stl \<Rightarrow> 'q scheduler \<Rightarrow> 'q scheduler" where
  "schedule_yielded_workers L s = (case yielded_worker s of
       None \<Rightarrow> s
     | Some w \<Rightarrow> (park_runnable L w s)\<lparr>yielded_worker := None\<rparr>)"

text \<open>\<open>schedule_workers\<close> up to the call of \<open>steal_work\<close>.\<close>

definition schedule_local :: "'q stl \<Rightarrow> sched_env \<Rightarrow> 'q scheduler \<Rightarrow> 'q scheduler" where
  "schedule_local L env s =
     schedule_yielded_workers L (schedule_idle_workers L
       (schedule_waiting_workers L env (schedule_io_workers L env s)))"

section \<open>Sleeping\<close>

record waiters_info =
  wi_cond :: bool
  wi_earliest_wait :: time_point

definition waiters_info :: "'q stl \<Rightarrow> 'q scheduler \<Rightarrow> waiters_info" where
  "waiters_info L s = foldl
     (\<lambda>r w. \<lparr>wi_cond = (wi_cond r \<or> check_cond (workers s w)),
              wi_earliest_wait = min (wi_earliest_wait r) (w_sleep_tp (workers s w))\<rparr>)
     \<lparr>wi_cond = False, wi_earliest_wait = tp_max L\<rparr> (il_elems L (waiting_queue s))"

text \<open>\<open>t1\<close> and \<open>t2\<close> are the readings of the two calls of \<open>now\<close>, in program order.\<close>

definition should_idle_spin ::
  "'q stl \<Rightarrow> time_point \<Rightarrow> time_point \<Rightarrow> 'q scheduler \<Rightarrow> bool \<times> 'q scheduler" where
  "should_idle_spin L t1 t2 s =
     (if \<not> FS_idle_spinning_allowed then (False, s)
      else if sch_state s = S_initializing then (False, s)
      else let s1 = (if idle_start_time s = tp_max L then s\<lparr>idle_start_time := t1\<rparr> else s)
           in if t2 > idle_start_time s1 + CFG_idle_spin_threshold then (False, s1)
              else (True, s1))"

text \<open>
  \<open>sleep()\<close> up to the blocking call it reaches, if any: it returns without blocking, or it
  waits until a point in time or a notification (state \<open>idle_wait\<close>), or it waits for a task
  or the exit signal (state \<open>idle_sleep\<close>). Both waits have cleared \<open>m_running\<close>, under the
  mutex that a notifier must take.
\<close>

datatype sleep_result = Sl_return | Sl_wait_until time_point | Sl_idle_sleep

definition sleep_enter ::
  "'q stl \<Rightarrow> time_point \<Rightarrow> time_point \<Rightarrow> time_point \<Rightarrow> 'q scheduler \<Rightarrow>
   sleep_result \<times> 'q scheduler" where
  "sleep_enter L t1 t2 t3 s =
     (if has_pending_io_workers L s then (Sl_return, s)
      else let (spin, s1) = should_idle_spin L t1 t2 s
      in if spin then (Sl_return, s1)
      else if has_tasks s1 \<and> has_idle_workers L s1 then (Sl_return, s1)
      else if m_exit s1 \<and> \<not> has_waiting_workers L s1 \<and> \<not> has_tasks s1 then (Sl_return, s1)
      else if has_waiting_workers L s1 then
        (let info = waiters_info L s1;
             earliest = wi_earliest_wait info - CFG_idle_sleep_threshold
         in if wi_cond info \<or> t3 \<ge> earliest then (Sl_return, s1)
            else (Sl_wait_until earliest,
                  s1\<lparr>sch_state := S_idle_wait, sch_running := False\<rparr>))
      else (Sl_idle_sleep, s1\<lparr>sch_state := S_idle_sleep, sch_running := False\<rparr>))"

text \<open>When the two waits may end, and what the rest of \<open>sleep\<close> does then.\<close>

definition wait_until_ready :: "time_point \<Rightarrow> time_point \<Rightarrow> 'q scheduler \<Rightarrow> bool" where
  "wait_until_ready now tp s \<longleftrightarrow> sch_running s \<or> now \<ge> tp"

definition wait_until_done :: "'q scheduler \<Rightarrow> 'q scheduler" where
  "wait_until_done s = s\<lparr>sch_running := True, sch_state := S_running\<rparr>"

definition idle_sleep_ready :: "'q scheduler \<Rightarrow> bool" where
  "idle_sleep_ready s \<longleftrightarrow> has_tasks s \<or> m_exit s"

definition idle_sleep_done :: "'q scheduler \<Rightarrow> 'q scheduler" where
  "idle_sleep_done s = s\<lparr>sch_state := S_running\<rparr>"

section \<open>Exit\<close>

definition signal_exit :: "'q scheduler \<Rightarrow> 'q scheduler" where
  "signal_exit s = s\<lparr>m_exit := True\<rparr>"

definition has_work :: "'q stl \<Rightarrow> 'q scheduler \<Rightarrow> bool" where
  "has_work L s \<longleftrightarrow> has_runnable_workers L s \<or> has_waiting_workers L s \<or>
     has_pending_io_workers L s \<or> has_tasks s \<or> has_yielded_workers s"

text \<open>\<open>None\<close> is the failure of the assertion.\<close>

definition should_exit :: "'q stl \<Rightarrow> 'q scheduler \<Rightarrow> bool option" where
  "should_exit L s = (if m_exit s \<and> has_work L s then None else Some (m_exit s))"

text \<open>\<open>exit()\<close>; the pointer \<open>m_worker\<close> is set before the first worker runs.\<close>

definition exit_sched :: "'q scheduler \<Rightarrow> 'q scheduler" where
  "exit_sched s = (case m_worker s of
       None \<Rightarrow> s
     | Some w \<Rightarrow> (set_worker_state w W_exiting s)\<lparr>sch_state := S_exiting\<rparr>)"

section \<open>Synchronisation of the workers\<close>

definition park_worker :: "'q stl \<Rightarrow> sync_context \<Rightarrow> nat \<Rightarrow> 'q scheduler \<Rightarrow> 'q scheduler" where
  "park_worker L ctx w s = (case ctx of
       Ctx_main \<Rightarrow> park_idle L (sch_state s = S_initializing) w s
     | Ctx_yield \<Rightarrow> park_yielded w s
     | Ctx_wait \<Rightarrow> park_waiting L w s
     | Ctx_io \<Rightarrow> park_pending_io L w s)"

text \<open>
  \<open>sync_init\<close> in two halves: before the worker blocks (only while initializing; the flag says
  that it did not block), and after it was woken (the flag says whether to go on scheduling).
\<close>

definition sync_init_enter :: "nat \<Rightarrow> 'q scheduler \<Rightarrow> bool \<times> 'q scheduler" where
  "sync_init_enter w s =
     (if sch_state s \<noteq> S_initializing then (True, s)
      else (False, upd_worker w (\<lambda>x. Worker_wait (Worker_notify x)) s))"

definition sync_init_resume :: "'q scheduler \<Rightarrow> bool \<times> 'q scheduler" where
  "sync_init_resume s =
     (if m_exit s then (False, s)
      else if workers_started s then (False, s)
      else (True, s\<lparr>workers_started := True\<rparr>))"

definition context_switch :: "nat \<Rightarrow> 'q scheduler \<Rightarrow> 'q scheduler" where
  "context_switch prev s = (case m_worker s of
       None \<Rightarrow> s
     | Some w \<Rightarrow> upd_worker prev Worker_wait (upd_worker w Worker_notify s))"

text \<open>The end of \<open>sync\<close>, once \<open>schedule\<close> has returned.\<close>

definition sync_finish :: "nat \<Rightarrow> 'q scheduler \<Rightarrow> 'q scheduler" where
  "sync_finish w s = (if m_worker s \<noteq> Some w then context_switch w s else s)"

section \<open>Construction\<close>

definition Scheduler_members :: "'q stl \<Rightarrow> nat \<Rightarrow> 'q scheduler" where
  "Scheduler_members L cpu = \<lparr>cpu_id = cpu, m_worker = None,
     runnable_queue = il_empty L, idle_queue = il_empty L, waiting_queue = il_empty L,
     pending_io_queue = il_empty L, yielded_worker = None, sch_tasks = Tasks_init,
     sch_state = S_initializing, sch_running = True, workers_started = False,
     m_state_load = 0, m_exit = False, idle_start_time = tp_max L,
     workers = (\<lambda>_. Worker_init L), workers_size = 0\<rparr>"

text \<open>
  Creating worker \<open>i\<close>: its thread calls \<open>sync<main>\<close>, parks itself at the back of the idle
  queue and blocks in \<open>sync_init\<close>; the constructor of the worker returns then.
\<close>

definition start_worker :: "'q stl \<Rightarrow> nat \<Rightarrow> 'q scheduler \<Rightarrow> 'q scheduler" where
  "start_worker L i s =
     snd (sync_init_enter i (park_worker L Ctx_main i
       (s\<lparr>workers := (workers s)(i := Worker_init L), workers_size := Suc i\<rparr>)))"

definition Scheduler_ctor :: "'q stl \<Rightarrow> nat \<Rightarrow> nat \<Rightarrow> 'q scheduler" where
  "Scheduler_ctor L cpu workers_count =
     (let s = fold (start_worker L) [0 ..< workers_count] (Scheduler_members L cpu);
          w = il_front L (idle_queue s)
      in upd_worker w Worker_notify (s\<lparr>m_worker := Some w\<rparr>))"

end
