(* ===== verification/Scheduler_Inv.thy ===== *)
theory Scheduler_Inv
  imports Scheduler
begin

text \<open>
  The well-formedness invariant of a scheduler and its preservation by every operation of the
  theory Scheduler. The lemmas live in the context of the laws of the external list library.
\<close>

section \<open>The invariant\<close>

text \<open>The queue in which a worker of a given state belongs, front first.\<close>

fun queue_of :: "'q stl \<Rightarrow> 'q scheduler \<Rightarrow> worker_state \<Rightarrow> nat list" where
  "queue_of L s W_idle = il_elems L (idle_queue s)"
| "queue_of L s W_waiting = il_elems L (waiting_queue s)"
| "queue_of L s W_pending_io = il_elems L (pending_io_queue s)"
| "queue_of L s W_runnable = il_elems L (runnable_queue s)"
| "queue_of L s W_yielded = (case yielded_worker s of None \<Rightarrow> [] | Some w \<Rightarrow> [w])"
| "queue_of L s W_initializing = []"
| "queue_of L s W_running = []"
| "queue_of L s W_exiting = []"

declare queue_of.simps [simp del]

fun parked_state :: "worker_state \<Rightarrow> bool" where
  "parked_state W_initializing = False"
| "parked_state W_running = False"
| "parked_state W_exiting = False"
| "parked_state _ = True"

text \<open>
  Each queue holds, without repetition, exactly the workers in its state. So every worker is
  in at most one queue: its single list node is never linked twice.
\<close>

definition queues_wf :: "'q stl \<Rightarrow> 'q scheduler \<Rightarrow> bool" where
  "queues_wf L s \<longleftrightarrow> (\<forall>st. distinct (queue_of L s st) \<and>
     (parked_state st \<longrightarrow>
       set (queue_of L s st) = {w. w < workers_size s \<and> w_state (workers s w) = st}))"

definition load_ok :: "'q scheduler \<Rightarrow> bool" where
  "load_ok s \<longleftrightarrow> m_state_load s = (\<Sum>w<workers_size s. Loads (w_state (workers s w)))"

text \<open>Idle workers have no task, suspended and runnable ones do; pending I/O has a request.\<close>

definition worker_linked :: "worker \<Rightarrow> bool" where
  "worker_linked x \<longleftrightarrow> (w_state x = W_idle \<longrightarrow> w_task x = None) \<and>
     (w_state x \<in> {W_waiting, W_pending_io, W_yielded, W_runnable} \<longrightarrow> w_task x \<noteq> None) \<and>
     (w_state x = W_pending_io \<longrightarrow> w_io x \<noteq> None)"

definition workers_linked :: "'q scheduler \<Rightarrow> bool" where
  "workers_linked s \<longleftrightarrow> (\<forall>w<workers_size s. worker_linked (workers s w))"

definition sched_inv :: "'q stl \<Rightarrow> 'q scheduler \<Rightarrow> bool" where
  "sched_inv L s \<longleftrightarrow>
     queues_wf L s \<and> load_ok s \<and> workers_linked s \<and> tasks_inv (sch_tasks s)"

text \<open>No worker is executing: between \<open>park_worker\<close> and \<open>prepare_exec\<close>.\<close>

definition no_running :: "'q scheduler \<Rightarrow> bool" where
  "no_running s \<longleftrightarrow> (\<forall>w<workers_size s. parked_state (w_state (workers s w)))"

text \<open>Exactly the worker \<open>w\<close>, the current one, is executing.\<close>

definition executing :: "nat \<Rightarrow> 'q scheduler \<Rightarrow> bool" where
  "executing w s \<longleftrightarrow> m_worker s = Some w \<and> w < workers_size s \<and>
     w_state (workers s w) = W_running \<and>
     (\<forall>v<workers_size s. v \<noteq> w \<longrightarrow> parked_state (w_state (workers s v)))"

lemma sched_invD:
  assumes "sched_inv L s"
  shows "queues_wf L s" "load_ok s" "workers_linked s" "tasks_inv (sch_tasks s)"
  using assms by (auto simp: sched_inv_def)

lemma queues_wf_distinct [simp]: "queues_wf L s \<Longrightarrow> distinct (queue_of L s st)"
  by (simp add: queues_wf_def)

lemma queues_wf_mem:
  "queues_wf L s \<Longrightarrow> parked_state st \<Longrightarrow>
    w \<in> set (queue_of L s st) \<longleftrightarrow> w < workers_size s \<and> w_state (workers s w) = st"
  by (auto simp: queues_wf_def)

lemma queue_of_unparked: "\<not> parked_state st \<Longrightarrow> queue_of L s st = []"
  by (cases st) (simp_all add: queue_of.simps)

lemma queues_wf_not_mem:
  "queues_wf L s \<Longrightarrow> w_state (workers s w) \<noteq> st \<Longrightarrow> w \<notin> set (queue_of L s st)"
  by (cases "parked_state st") (simp_all add: queues_wf_mem queue_of_unparked)

text \<open>A worker is linked in at most one queue.\<close>

lemma queues_wf_disjoint:
  "queues_wf L s \<Longrightarrow> st \<noteq> st' \<Longrightarrow> set (queue_of L s st) \<inter> set (queue_of L s st') = {}"
  using queues_wf_not_mem by (metis Int_emptyI)

section \<open>Moving one worker to another state\<close>

text \<open>
  Every operation on the queues is such a move: worker \<open>w\<close> leaves the queue of its old state
  and enters the queue of its new state at either end, and the load is adjusted.
\<close>

lemma queues_wf_move:
  assumes wf: "queues_wf L s" and w: "w < workers_size s"
    and a: "w_state (workers s w) = a" and ab: "a \<noteq> b"
    and size: "workers_size s' = workers_size s"
    and st: "\<And>v. v < workers_size s \<Longrightarrow>
      w_state (workers s' v) = (if v = w then b else w_state (workers s v))"
    and others: "\<And>st. st \<noteq> a \<Longrightarrow> st \<noteq> b \<Longrightarrow> queue_of L s' st = queue_of L s st"
    and from_a: "queue_of L s' a = remove1 w (queue_of L s a)"
    and to_b: "parked_state b \<Longrightarrow> queue_of L s' b = queue_of L s b @ [w] \<or>
      queue_of L s' b = w # queue_of L s b"
  shows "queues_wf L s'"
  unfolding queues_wf_def
proof (intro allI conjI impI)
  fix x
  have nb: "w \<notin> set (queue_of L s b)" using wf a ab by (simp add: queues_wf_not_mem)
  note np = queue_of_unparked [of b L s']
  show "distinct (queue_of L s' x)"
    using wf nb others [of x] from_a to_b np
    by (cases "x = a"; cases "x = b"; cases "parked_state b") auto
  assume x: "parked_state x"
  show "set (queue_of L s' x) = {v. v < workers_size s' \<and> w_state (workers s' v) = x}"
  proof (cases "x = a")
    case True
    then show ?thesis using wf w x ab size st from_a
      by (auto simp: queues_wf_mem)
  next
    case False
    show ?thesis
    proof (cases "x = b")
      case True
      with to_b x have "set (queue_of L s' x) = insert w (set (queue_of L s b))" by auto
      then show ?thesis using True False wf w x size st
        by (auto simp: queues_wf_mem)
    next
      case nb': False
      with False others have "queue_of L s' x = queue_of L s x" by simp
      then show ?thesis using False nb' wf w x size st a
        by (auto simp: queues_wf_mem)
    qed
  qed
qed

lemma load_ok_move:
  assumes "load_ok s" and "w < workers_size s" and "workers_size s' = workers_size s"
    and "\<And>v. v < workers_size s \<Longrightarrow>
      w_state (workers s' v) = (if v = w then b else w_state (workers s v))"
    and "m_state_load s' = m_state_load s + (Loads b - Loads (w_state (workers s w)))"
  shows "load_ok s'"
proof -
  let ?g = "\<lambda>v. w_state (workers s v)"
  have "(\<Sum>v<workers_size s. Loads (w_state (workers s' v)))
      = (\<Sum>v<workers_size s. Loads ((?g(w := b)) v))"
    using assms(4) by (intro sum.cong) auto
  also have "\<dots> = (\<Sum>v<workers_size s. Loads (?g v)) + (Loads b - Loads (?g w))"
    using assms(2) by (rule sum_fun_upd_lessThan)
  finally show ?thesis using assms(1,3,5) by (simp add: load_ok_def)
qed

lemma workers_linked_upd:
  "workers_linked s \<Longrightarrow> worker_linked x \<Longrightarrow> workers s' = (workers s)(w := x) \<Longrightarrow>
    workers_size s' = workers_size s \<Longrightarrow> workers_linked s'"
  by (auto simp: workers_linked_def)

lemma sched_inv_move:
  assumes inv: "sched_inv L s" and w: "w < workers_size s"
    and a: "w_state (workers s w) = a" and ab: "a \<noteq> b"
    and ws: "workers s' = (workers s)(w := x)" and x: "w_state x = b" "worker_linked x"
    and size: "workers_size s' = workers_size s" and tasks: "tasks_inv (sch_tasks s')"
    and ld: "m_state_load s' = m_state_load s + (Loads b - Loads a)"
    and others: "\<And>st. st \<noteq> a \<Longrightarrow> st \<noteq> b \<Longrightarrow> queue_of L s' st = queue_of L s st"
    and from_a: "queue_of L s' a = remove1 w (queue_of L s a)"
    and to_b: "parked_state b \<Longrightarrow> queue_of L s' b = queue_of L s b @ [w] \<or>
      queue_of L s' b = w # queue_of L s b"
  shows "sched_inv L s'"
  unfolding sched_inv_def
proof (intro conjI tasks)
  have st: "w_state (workers s' v) = (if v = w then b else w_state (workers s v))" for v
    using ws x by simp
  show "queues_wf L s'"
    by (rule queues_wf_move [OF sched_invD(1) [OF inv] w a ab size st others from_a to_b])
  show "load_ok s'"
    by (rule load_ok_move [OF sched_invD(2) [OF inv] w size st]) (simp add: ld a)
  show "workers_linked s'"
    by (rule workers_linked_upd [OF sched_invD(3) [OF inv] x(2) ws size])
qed

text \<open>Updates that touch neither queues, states nor tasks keep the invariant.\<close>

lemma sched_inv_cong:
  assumes "sched_inv L s" and "workers_size s' = workers_size s"
    and "\<And>st. queue_of L s' st = queue_of L s st"
    and "\<And>v. v < workers_size s \<Longrightarrow> w_state (workers s' v) = w_state (workers s v)"
    and "\<And>v. v < workers_size s \<Longrightarrow> worker_linked (workers s' v)"
    and "m_state_load s' = m_state_load s" and "tasks_inv (sch_tasks s')"
  shows "sched_inv L s'"
  using assms
  by (auto simp: sched_inv_def queues_wf_def load_ok_def workers_linked_def)

end
