(* ===== verification/Scheduler_Ops.thy ===== *)
theory Scheduler_Ops
  imports Scheduler_Inv
begin

text \<open>
  What the scheduling passes compute and that they keep the invariant, for any list library
  that satisfies the laws: frame rules, one lemma per move of a worker, the functional
  behaviour of each pass, and the conservation of tasks.
\<close>

section \<open>Frame rules\<close>

lemmas park_defs = park_runnable_def park_idle_def park_waiting_def park_pending_io_def
  park_yielded_def set_worker_state_def upd_worker_def manage_load_def set_state_def

text \<open>
  The two loops change the queue they visit, the runnable queue, the load and the workers'
  states and requests, and nothing else.
\<close>

definition pass_frame :: "'q scheduler \<Rightarrow> 'q scheduler \<Rightarrow> bool" where
  "pass_frame s s' \<longleftrightarrow> cpu_id s' = cpu_id s \<and> m_worker s' = m_worker s \<and>
     idle_queue s' = idle_queue s \<and> yielded_worker s' = yielded_worker s \<and>
     sch_tasks s' = sch_tasks s \<and> sch_state s' = sch_state s \<and>
     sch_running s' = sch_running s \<and> workers_started s' = workers_started s \<and>
     m_exit s' = m_exit s \<and> idle_start_time s' = idle_start_time s \<and>
     workers_size s' = workers_size s \<and>
     (\<forall>w. w_task (workers s' w) = w_task (workers s w) \<and>
       w_cond (workers s' w) = w_cond (workers s w) \<and>
       w_sleep_tp (workers s' w) = w_sleep_tp (workers s w) \<and>
       w_running (workers s' w) = w_running (workers s w))"

lemma pass_frame_refl [simp]: "pass_frame s s"
  by (simp add: pass_frame_def)

lemma pass_frame_trans: "pass_frame s s' \<Longrightarrow> pass_frame s' s'' \<Longrightarrow> pass_frame s s''"
  by (simp add: pass_frame_def)

lemma pass_frameD:
  assumes "pass_frame s s'"
  shows "cpu_id s' = cpu_id s" "m_worker s' = m_worker s" "idle_queue s' = idle_queue s"
    "yielded_worker s' = yielded_worker s" "sch_tasks s' = sch_tasks s"
    "sch_state s' = sch_state s" "sch_running s' = sch_running s"
    "workers_started s' = workers_started s" "m_exit s' = m_exit s"
    "idle_start_time s' = idle_start_time s" "workers_size s' = workers_size s"
    "w_task (workers s' w) = w_task (workers s w)"
    "w_cond (workers s' w) = w_cond (workers s w)"
    "w_sleep_tp (workers s' w) = w_sleep_tp (workers s w)"
  using assms by (simp_all add: pass_frame_def)

lemma io_completed_frame: "io_completed env w s = (b, s') \<Longrightarrow> pass_frame s s'"
  by (auto simp: io_completed_def pass_frame_def upd_worker_def Let_def
      split: option.splits if_splits)

lemma io_completed_queues:
  "io_completed env w s = (b, s') \<Longrightarrow> waiting_queue s' = waiting_queue s \<and>
    runnable_queue s' = runnable_queue s \<and> pending_io_queue s' = pending_io_queue s \<and>
    m_state_load s' = m_state_load s"
  by (auto simp: io_completed_def upd_worker_def Let_def split: option.splits)

lemma park_runnable_frame:
  "pass_frame s (park_runnable L w (s\<lparr>pending_io_queue := q\<rparr>))"
  "pass_frame s (park_runnable L w (s\<lparr>waiting_queue := q\<rparr>))"
  by (simp_all add: pass_frame_def park_defs)

lemma io_pass_frame: "pass_frame s (io_pass L env ws s)"
proof (induction ws arbitrary: s)
  case (Cons w ws)
  obtain b s1 where c: "io_completed env w s = (b, s1)" by (cases "io_completed env w s")
  note f = io_completed_frame [OF c]
  show ?case
  proof (cases b)
    case True
    then show ?thesis using c pass_frame_trans [OF pass_frame_trans [OF f park_runnable_frame(1)] Cons.IH]
      by simp
  next
    case False
    then show ?thesis using c pass_frame_trans [OF f Cons.IH] by simp
  qed
qed simp

lemma io_pass_waiting [simp]: "waiting_queue (io_pass L env ws s) = waiting_queue s"
proof (induction ws arbitrary: s)
  case (Cons w ws)
  obtain b s1 where c: "io_completed env w s = (b, s1)" by (cases "io_completed env w s")
  then show ?case using Cons.IH io_completed_queues [OF c]
    by (cases b) (simp_all add: park_defs)
qed simp

lemma waiting_pass_frame: "pass_frame s (waiting_pass L env ws s)"
proof (induction ws arbitrary: s)
  case (Cons w ws)
  then show ?case
    using pass_frame_trans [OF park_runnable_frame(2) Cons.IH] by simp
qed simp

lemma waiting_pass_pending [simp]:
  "pending_io_queue (waiting_pass L env ws s) = pending_io_queue s"
  by (induction ws arbitrary: s) (simp_all add: park_defs)

lemmas io_pass_simps [simp] = io_pass_frame [THEN pass_frameD(1)]
  io_pass_frame [THEN pass_frameD(2)] io_pass_frame [THEN pass_frameD(3)]
  io_pass_frame [THEN pass_frameD(4)] io_pass_frame [THEN pass_frameD(5)]
  io_pass_frame [THEN pass_frameD(6)] io_pass_frame [THEN pass_frameD(7)]
  io_pass_frame [THEN pass_frameD(8)] io_pass_frame [THEN pass_frameD(9)]
  io_pass_frame [THEN pass_frameD(10)] io_pass_frame [THEN pass_frameD(11)]
  io_pass_frame [THEN pass_frameD(12)] io_pass_frame [THEN pass_frameD(13)]
  io_pass_frame [THEN pass_frameD(14)]

lemmas waiting_pass_simps [simp] = waiting_pass_frame [THEN pass_frameD(1)]
  waiting_pass_frame [THEN pass_frameD(2)] waiting_pass_frame [THEN pass_frameD(3)]
  waiting_pass_frame [THEN pass_frameD(4)] waiting_pass_frame [THEN pass_frameD(5)]
  waiting_pass_frame [THEN pass_frameD(6)] waiting_pass_frame [THEN pass_frameD(7)]
  waiting_pass_frame [THEN pass_frameD(8)] waiting_pass_frame [THEN pass_frameD(9)]
  waiting_pass_frame [THEN pass_frameD(10)] waiting_pass_frame [THEN pass_frameD(11)]
  waiting_pass_frame [THEN pass_frameD(12)] waiting_pass_frame [THEN pass_frameD(13)]
  waiting_pass_frame [THEN pass_frameD(14)]

section \<open>Moves of one worker\<close>

text \<open>Whether the update of the request of \<open>w\<close> finds it finished, and the worker after it.\<close>

definition io_done :: "sched_env \<Rightarrow> 'q scheduler \<Rightarrow> nat \<Rightarrow> bool" where
  "io_done env s w \<longleftrightarrow> (case w_io (workers s w) of
       None \<Rightarrow> False | Some r \<Rightarrow> \<not> io_is_pending (env_io env w r))"

definition io_updated :: "sched_env \<Rightarrow> nat \<Rightarrow> worker \<Rightarrow> worker" where
  "io_updated env w x = (case w_io x of None \<Rightarrow> x | Some r \<Rightarrow> x\<lparr>w_io := Some (env_io env w r)\<rparr>)"

definition wait_done :: "sched_env \<Rightarrow> 'q scheduler \<Rightarrow> nat \<Rightarrow> bool" where
  "wait_done env s w \<longleftrightarrow> check_wait_info (env_clock env w) (workers s w)"

lemma io_completed_eq:
  "io_completed env w s = (io_done env s w, upd_worker w (io_updated env w) s)"
  by (simp add: io_completed_def io_done_def io_updated_def upd_worker_def Let_def
      split: option.splits)

lemma remove1_distinct_filter: "distinct xs \<Longrightarrow> remove1 x xs = filter (\<lambda>y. y \<noteq> x) xs"
  by (induction xs) (auto intro: filter_True [symmetric])

context stl_laws
begin

lemma io_step_pending:
  assumes inv: "sched_inv L s" and w: "w \<in> set (queue_of L s W_pending_io)"
    and s': "s' = upd_worker w (io_updated env w) s"
  shows "sched_inv L s'"
proof (rule sched_inv_cong [OF inv])
  have "w < workers_size s \<and> w_state (workers s w) = W_pending_io"
    using w inv by (simp add: sched_inv_def queues_wf_mem)
  then show "worker_linked (workers s' v)" if "v < workers_size s" for v
    using inv s' that by (auto simp: sched_inv_def workers_linked_def worker_linked_def
        upd_worker_def io_updated_def split: option.splits)
  show "queue_of L s' st = queue_of L s st" for st
    using s' by (cases st) (simp_all add: upd_worker_def queue_of.simps)
qed (use s' inv in \<open>auto simp: upd_worker_def io_updated_def sched_inv_def split: option.splits\<close>)

lemma io_step_done:
  assumes inv: "sched_inv L s" and w: "w \<in> set (queue_of L s W_pending_io)"
    and s1: "s1 = upd_worker w (io_updated env w) s"
    and s': "s' = park_runnable L w (s1\<lparr>pending_io_queue := il_erase L (pending_io_queue s1) w\<rparr>)"
  shows "sched_inv L s'" "queue_of L s' W_runnable = queue_of L s W_runnable @ [w]"
    "queue_of L s' W_pending_io = remove1 w (queue_of L s W_pending_io)"
    "workers s' = (workers s)(w := (io_updated env w (workers s w))\<lparr>w_state := W_runnable\<rparr>)"
proof -
  have wf: "queues_wf L s" and d: "distinct (queue_of L s W_pending_io)"
    using inv by (simp_all add: sched_inv_def)
  have st: "w < workers_size s" "w_state (workers s w) = W_pending_io"
    using w wf by (simp_all add: queues_wf_mem)
  have nr: "w \<notin> set (queue_of L s W_runnable)" using wf st by (simp add: queues_wf_not_mem)
  show run: "queue_of L s' W_runnable = queue_of L s W_runnable @ [w]"
    using nr by (simp add: s' s1 park_defs elems_push_back queue_of.simps)
  show pend: "queue_of L s' W_pending_io = remove1 w (queue_of L s W_pending_io)"
    using w d by (simp add: s' s1 park_defs elems_erase queue_of.simps)
  show ws: "workers s' = (workers s)(w := (io_updated env w (workers s w))\<lparr>w_state := W_runnable\<rparr>)"
    by (simp add: s' s1 park_defs)
  show "sched_inv L s'"
  proof (rule sched_inv_move [OF inv st _ ws, where b = W_runnable])
    show "worker_linked ((io_updated env w (workers s w))\<lparr>w_state := W_runnable\<rparr>)"
      using inv st by (auto simp: sched_inv_def workers_linked_def worker_linked_def
          io_updated_def split: option.splits)
    show "queue_of L s' x = queue_of L s x" if "x \<noteq> W_pending_io" "x \<noteq> W_runnable" for x
      using that by (cases x) (simp_all add: s' s1 park_defs queue_of.simps)
    show "m_state_load s' = m_state_load s + (Loads W_runnable - Loads W_pending_io)"
      using st by (simp add: s' s1 park_defs io_updated_def split: option.splits)
  qed (use run pend inv in \<open>simp_all add: s' s1 park_defs sched_inv_def\<close>)
qed

lemma waiting_step_done:
  assumes inv: "sched_inv L s" and w: "w \<in> set (queue_of L s W_waiting)"
    and s': "s' = park_runnable L w (s\<lparr>waiting_queue := il_erase L (waiting_queue s) w\<rparr>)"
  shows "sched_inv L s'" "queue_of L s' W_runnable = queue_of L s W_runnable @ [w]"
    "queue_of L s' W_waiting = remove1 w (queue_of L s W_waiting)"
    "workers s' = (workers s)(w := (workers s w)\<lparr>w_state := W_runnable\<rparr>)"
proof -
  have wf: "queues_wf L s" and d: "distinct (queue_of L s W_waiting)"
    using inv by (simp_all add: sched_inv_def)
  have st: "w < workers_size s" "w_state (workers s w) = W_waiting"
    using w wf by (simp_all add: queues_wf_mem)
  have nr: "w \<notin> set (queue_of L s W_runnable)" using wf st by (simp add: queues_wf_not_mem)
  show run: "queue_of L s' W_runnable = queue_of L s W_runnable @ [w]"
    using nr by (simp add: s' park_defs elems_push_back queue_of.simps)
  show wait: "queue_of L s' W_waiting = remove1 w (queue_of L s W_waiting)"
    using w d by (simp add: s' park_defs elems_erase queue_of.simps)
  show ws: "workers s' = (workers s)(w := (workers s w)\<lparr>w_state := W_runnable\<rparr>)"
    by (simp add: s' park_defs)
  show "sched_inv L s'"
  proof (rule sched_inv_move [OF inv st _ ws, where b = W_runnable])
    show "worker_linked ((workers s w)\<lparr>w_state := W_runnable\<rparr>)"
      using inv st by (auto simp: sched_inv_def workers_linked_def worker_linked_def)
    show "queue_of L s' x = queue_of L s x" if "x \<noteq> W_waiting" "x \<noteq> W_runnable" for x
      using that by (cases x) (simp_all add: s' park_defs queue_of.simps)
    show "m_state_load s' = m_state_load s + (Loads W_runnable - Loads W_waiting)"
      using st by (simp add: s' park_defs)
  qed (use run wait inv in \<open>simp_all add: s' park_defs sched_inv_def\<close>)
qed

section \<open>The passes\<close>

lemma io_done_rest:
  assumes "\<And>v. v \<noteq> w \<Longrightarrow> workers s' v = workers s v" and "w \<notin> set ws"
  shows "v \<in> set ws \<Longrightarrow> io_done env s' v = io_done env s v"
    "filter (io_done env s') ws = filter (io_done env s) ws"
proof -
  show *: "io_done env s' v = io_done env s v" if "v \<in> set ws" for v
    using assms that by (metis io_done_def)
  show "filter (io_done env s') ws = filter (io_done env s) ws"
    by (intro filter_cong) (auto simp: *)
qed

lemma io_pass_correct:
  assumes "sched_inv L s" and "distinct ws" and "set ws \<subseteq> set (queue_of L s W_pending_io)"
  shows "sched_inv L (io_pass L env ws s) \<and>
    queue_of L (io_pass L env ws s) W_runnable
      = queue_of L s W_runnable @ filter (io_done env s) ws \<and>
    queue_of L (io_pass L env ws s) W_pending_io
      = filter (\<lambda>w. \<not> (w \<in> set ws \<and> io_done env s w)) (queue_of L s W_pending_io) \<and>
    (\<forall>w. workers (io_pass L env ws s) w =
      (if w \<in> set ws then (io_updated env w (workers s w))
          \<lparr>w_state := if io_done env s w then W_runnable else W_pending_io\<rparr>
       else workers s w))"
  using assms
proof (induction ws arbitrary: s)
  case (Cons w ws)
  let ?P = "queue_of L s W_pending_io"
  from Cons.prems have w: "w \<in> set ?P" "w \<notin> set ws" "distinct ws" "set ws \<subseteq> set ?P" by auto
  have d: "distinct ?P" and st: "w_state (workers s w) = W_pending_io"
    using Cons.prems(1) w(1) by (simp_all add: sched_inv_def queues_wf_mem)
  define s1 where "s1 = upd_worker w (io_updated env w) s"
  show ?case
  proof (cases "io_done env s w")
    case True
    define s2 where
      "s2 = park_runnable L w (s1\<lparr>pending_io_queue := il_erase L (pending_io_queue s1) w\<rparr>)"
    note step = io_step_done [OF Cons.prems(1) w(1) s1_def s2_def]
    have same: "workers s2 v = workers s v" if "v \<noteq> w" for v using that by (simp add: step(4))
    note rest = io_done_rest [OF same w(2), where env = env]
    have e: "io_pass L env (w # ws) s = io_pass L env ws s2"
      using True by (simp add: io_completed_eq s2_def s1_def)
    have "set ws \<subseteq> set (queue_of L s2 W_pending_io)" using w d by (auto simp: step(3))
    note IH = Cons.IH [OF step(1) w(3) this]
    have p: "filter (\<lambda>v. \<not> (v \<in> set ws \<and> io_done env s2 v)) (remove1 w ?P)
        = filter (\<lambda>v. \<not> (v \<in> set (w # ws) \<and> io_done env s v)) ?P"
      unfolding remove1_distinct_filter [OF d] filter_filter
      using True by (intro filter_cong) (auto simp: rest(1))
    show ?thesis unfolding e
      using IH True p w(2) rest(1) by (auto simp: step(2,3,4) rest(2))
  next
    case False
    note inv1 = io_step_pending [OF Cons.prems(1) w(1) s1_def]
    have q: "queue_of L s1 x = queue_of L s x" for x
      by (cases x) (simp_all add: s1_def upd_worker_def queue_of.simps)
    have ws1: "workers s1 = (workers s)(w := io_updated env w (workers s w))"
      by (simp add: s1_def upd_worker_def)
    have same: "workers s1 v = workers s v" if "v \<noteq> w" for v using that by (simp add: ws1)
    note rest = io_done_rest [OF same w(2), where env = env]
    have e: "io_pass L env (w # ws) s = io_pass L env ws s1"
      using False by (simp add: io_completed_eq s1_def)
    have "set ws \<subseteq> set (queue_of L s1 W_pending_io)" using w q by simp
    note IH = Cons.IH [OF inv1 w(3) this]
    have p: "filter (\<lambda>v. \<not> (v \<in> set ws \<and> io_done env s1 v)) ?P
        = filter (\<lambda>v. \<not> (v \<in> set (w # ws) \<and> io_done env s v)) ?P"
      using False by (intro filter_cong) (auto simp: rest(1))
    have "(io_updated env w (workers s w))\<lparr>w_state := W_pending_io\<rparr> = io_updated env w (workers s w)"
      using st by (simp add: io_updated_def split: option.splits)
    then show ?thesis unfolding e
      using IH False p w(2) rest(1) by (auto simp: q rest(2) ws1)
  qed
qed simp

lemma waiting_pass_correct:
  assumes "sched_inv L s" and "distinct ws" and "set ws \<subseteq> set (queue_of L s W_waiting)"
  shows "sched_inv L (waiting_pass L env ws s) \<and>
    queue_of L (waiting_pass L env ws s) W_runnable
      = queue_of L s W_runnable @ filter (wait_done env s) ws \<and>
    queue_of L (waiting_pass L env ws s) W_waiting
      = filter (\<lambda>w. \<not> (w \<in> set ws \<and> wait_done env s w)) (queue_of L s W_waiting) \<and>
    (\<forall>w. workers (waiting_pass L env ws s) w =
      (if w \<in> set ws \<and> wait_done env s w then (workers s w)\<lparr>w_state := W_runnable\<rparr>
       else workers s w))"
  using assms
proof (induction ws arbitrary: s)
  case Nil
  then show ?case by simp
next
  case (Cons w ws)
  let ?P = "queue_of L s W_waiting"
  from Cons.prems have w: "w \<in> set ?P" "w \<notin> set ws" "distinct ws" "set ws \<subseteq> set ?P" by auto
  have d: "distinct ?P" using Cons.prems(1) by (simp add: sched_inv_def)
  show ?case
  proof (cases "wait_done env s w")
    case True
    define s2 where
      "s2 = park_runnable L w (s\<lparr>waiting_queue := il_erase L (waiting_queue s) w\<rparr>)"
    note step = waiting_step_done [OF Cons.prems(1) w(1) s2_def]
    have same: "wait_done env s2 v = wait_done env s v" if "v \<noteq> w" for v
      using that by (simp add: wait_done_def step(4))
    have sameW: "wait_done env s2 v = wait_done env s v" if "v \<in> set ws" for v
      using that w(2) same by metis
    have f: "filter (wait_done env s2) ws = filter (wait_done env s) ws"
      by (intro filter_cong) (auto simp: sameW)
    have e: "waiting_pass L env (w # ws) s = waiting_pass L env ws s2"
      using True by (simp add: wait_done_def s2_def)
    have "set ws \<subseteq> set (queue_of L s2 W_waiting)"
      using w d by (auto simp: step(3))
    note IH = Cons.IH [OF step(1) w(3) this]
    have p: "filter (\<lambda>v. \<not> (v \<in> set ws \<and> wait_done env s2 v)) (remove1 w ?P)
        = filter (\<lambda>v. \<not> (v \<in> set (w # ws) \<and> wait_done env s v)) ?P"
      unfolding remove1_distinct_filter [OF d] filter_filter
      using True by (intro filter_cong) (auto simp: sameW)
    show ?thesis unfolding e
      using IH True p w(2) by (auto simp: step(2,3,4) f same)
  next
    case False
    have e: "waiting_pass L env (w # ws) s = waiting_pass L env ws s"
      using False by (simp add: wait_done_def)
    note IH = Cons.IH [OF Cons.prems(1) w(3,4)]
    have p: "filter (\<lambda>v. \<not> (v \<in> set ws \<and> wait_done env s v)) ?P
        = filter (\<lambda>v. \<not> (v \<in> set (w # ws) \<and> wait_done env s v)) ?P"
      using False by (intro filter_cong) auto
    show ?thesis unfolding e
      using IH False p by auto
  qed
qed

lemma schedule_idle_worker_correct:
  assumes inv: "sched_inv L s" and idle: "queue_of L s W_idle = w # idle"
    and task: "case task of Some t \<Rightarrow> tk = t \<and> rest = m_tasks (sch_tasks s)
      | None \<Rightarrow> m_tasks (sch_tasks s) = tk # rest"
    and s': "s' = schedule_idle_worker L task s"
  shows "sched_inv L s'" "queue_of L s' W_runnable = queue_of L s W_runnable @ [w]"
    "queue_of L s' W_idle = idle"
    "workers s' = (workers s)(w := (workers s w)\<lparr>w_task := Some tk, w_state := W_runnable\<rparr>)"
    "m_tasks (sch_tasks s') = rest"
    "\<And>st. st \<noteq> W_idle \<Longrightarrow> st \<noteq> W_runnable \<Longrightarrow> queue_of L s' st = queue_of L s st"
    "workers_size s' = workers_size s"
proof -
  define s1 where "s1 = (case task of Some t \<Rightarrow> s | None \<Rightarrow> snd (next_task s))"
  have s1: "idle_queue s1 = idle_queue s" "runnable_queue s1 = runnable_queue s"
    "waiting_queue s1 = waiting_queue s" "pending_io_queue s1 = pending_io_queue s"
    "yielded_worker s1 = yielded_worker s" "workers s1 = workers s"
    "workers_size s1 = workers_size s" "m_state_load s1 = m_state_load s"
    by (auto simp: s1_def next_task_def split: option.splits prod.splits)
  have rest: "m_tasks (sch_tasks s1) = rest" "tasks_inv (sch_tasks s1)"
    using task inv tasks_inv_deque [of "sch_tasks s"]
    by (auto simp: s1_def next_task_def sched_inv_def Tasks_deque_def split: option.splits list.splits)
  have f: "il_front L (idle_queue s) = w"
    using idle front [of "idle_queue s"] by (simp add: queue_of.simps)
  have e: "s' = park_runnable L w (upd_worker w (\<lambda>x. x\<lparr>w_task := Some tk\<rparr>)
      (s1\<lparr>idle_queue := il_pop_front L (idle_queue s)\<rparr>))"
    using task unfolding s'
    by (auto simp: schedule_idle_worker_def s1_def Let_def next_task_def Tasks_deque_def f
        split: option.splits list.splits)
  have wf: "queues_wf L s" using inv by (simp add: sched_inv_def)
  have "w \<in> set (queue_of L s W_idle)" using idle by simp
  then have st: "w < workers_size s" "w_state (workers s w) = W_idle"
    using wf by (simp_all add: queues_wf_mem)
  have nr: "w \<notin> set (queue_of L s W_runnable)" using wf st by (simp add: queues_wf_not_mem)
  show run: "queue_of L s' W_runnable = queue_of L s W_runnable @ [w]"
    using nr by (simp add: e s1 park_defs elems_push_back queue_of.simps)
  show idl: "queue_of L s' W_idle = idle"
    using idle by (simp add: e s1 park_defs elems_pop_front queue_of.simps)
  show ws: "workers s' = (workers s)(w := (workers s w)\<lparr>w_task := Some tk, w_state := W_runnable\<rparr>)"
    by (simp add: e s1 park_defs)
  show "m_tasks (sch_tasks s') = rest" by (simp add: e rest park_defs)
  show size: "workers_size s' = workers_size s" by (simp add: e s1 park_defs)
  show oth: "queue_of L s' x = queue_of L s x" if "x \<noteq> W_idle" "x \<noteq> W_runnable" for x
    using that by (cases x) (simp_all add: e s1 park_defs queue_of.simps)
  show "sched_inv L s'"
  proof (rule sched_inv_move [OF inv st _ ws, where b = W_runnable])
    show "worker_linked ((workers s w)\<lparr>w_task := Some tk, w_state := W_runnable\<rparr>)"
      by (simp add: worker_linked_def)
    show "m_state_load s' = m_state_load s + (Loads W_runnable - Loads W_idle)"
      using st by (simp add: e s1 park_defs)
    show "queue_of L s' W_idle = remove1 w (queue_of L s W_idle)"
      using idl idle by simp
  qed (use run size oth rest in \<open>simp_all add: e park_defs\<close>)
qed

lemma has_simps:
  "has_idle_workers L s \<longleftrightarrow> queue_of L s W_idle \<noteq> []"
  "has_runnable_workers L s \<longleftrightarrow> queue_of L s W_runnable \<noteq> []"
  "has_waiting_workers L s \<longleftrightarrow> queue_of L s W_waiting \<noteq> []"
  "has_pending_io_workers L s \<longleftrightarrow> queue_of L s W_pending_io \<noteq> []"
  "has_yielded_workers s \<longleftrightarrow> queue_of L s W_yielded \<noteq> []"
  by (auto simp: has_idle_workers_def has_runnable_workers_def has_waiting_workers_def
      has_pending_io_workers_def has_yielded_workers_def is_empty queue_of.simps
      split: option.splits)

lemma schedule_yielded_correct:
  assumes inv: "sched_inv L s" and s': "s' = schedule_yielded_workers L s"
  shows "sched_inv L s'"
    "queue_of L s' W_runnable = queue_of L s W_runnable @ queue_of L s W_yielded"
    "queue_of L s' W_yielded = []"
    "\<And>st. st \<noteq> W_yielded \<Longrightarrow> st \<noteq> W_runnable \<Longrightarrow> queue_of L s' st = queue_of L s st"
    "\<And>v. w_task (workers s' v) = w_task (workers s v)"
proof -
  show "queue_of L s' x = queue_of L s x" if "x \<noteq> W_yielded" "x \<noteq> W_runnable" for x
    using that by (cases x) (simp_all add: s' schedule_yielded_workers_def park_defs
        queue_of.simps split: option.splits)
  note oth = this
  show "queue_of L s' W_yielded = []"
    by (simp add: s' schedule_yielded_workers_def queue_of.simps split: option.splits)
  note yie = this
  show "w_task (workers s' v) = w_task (workers s v)" for v
    by (simp add: s' schedule_yielded_workers_def park_defs split: option.splits)
  have wf: "queues_wf L s" using inv by (simp add: sched_inv_def)
  show run: "queue_of L s' W_runnable = queue_of L s W_runnable @ queue_of L s W_yielded"
  proof (cases "yielded_worker s")
    case None
    then show ?thesis by (simp add: s' schedule_yielded_workers_def queue_of.simps)
  next
    case (Some w)
    then have "w \<in> set (queue_of L s W_yielded)" by (simp add: queue_of.simps)
    then have "w \<notin> set (queue_of L s W_runnable)"
      using wf queues_wf_disjoint [OF wf, of W_yielded W_runnable] by auto
    then show ?thesis using Some
      by (simp add: s' schedule_yielded_workers_def park_defs elems_push_back queue_of.simps)
  qed
  show "sched_inv L s'"
  proof (cases "yielded_worker s")
    case None
    then show ?thesis using inv by (simp add: s' schedule_yielded_workers_def)
  next
    case (Some w)
    then have y: "queue_of L s W_yielded = [w]" by (simp add: queue_of.simps)
    then have "w \<in> set (queue_of L s W_yielded)" by simp
    then have st: "w < workers_size s" "w_state (workers s w) = W_yielded"
      using wf by (simp_all add: queues_wf_mem)
    have ws: "workers s' = (workers s)(w := (workers s w)\<lparr>w_state := W_runnable\<rparr>)"
      using Some by (simp add: s' schedule_yielded_workers_def park_defs)
    show ?thesis
    proof (rule sched_inv_move [OF inv st _ ws, where b = W_runnable])
      show "worker_linked ((workers s w)\<lparr>w_state := W_runnable\<rparr>)"
        using inv st by (auto simp: sched_inv_def workers_linked_def worker_linked_def)
      show "m_state_load s' = m_state_load s + (Loads W_runnable - Loads W_yielded)"
        using st Some by (simp add: s' schedule_yielded_workers_def park_defs)
    qed (use run yie oth y inv Some in
        \<open>simp_all add: s' schedule_yielded_workers_def park_defs sched_inv_def\<close>)
  qed
qed

end

end
