(* ===== verification/Scheduler_Pass.thy ===== *)
theory Scheduler_Pass
  imports Scheduler_Ops
begin

text \<open>
  The scheduling passes of one scheduler put together (\<open>schedule_local\<close>: \<open>schedule_workers\<close> up
  to stealing), the parking operations and the choice of the next worker, the conservation of
  tasks, and the bounds of the load.
\<close>

section \<open>The bag of tasks a scheduler is responsible for\<close>

definition task_mset :: "task_id option \<Rightarrow> task_id multiset" where
  "task_mset t = (case t of None \<Rightarrow> {#} | Some x \<Rightarrow> {#x#})"

lemma task_mset_simps [simp]: "task_mset None = {#}" "task_mset (Some t) = {#t#}"
  by (simp_all add: task_mset_def)

definition assigned_tasks :: "'q scheduler \<Rightarrow> task_id multiset" where
  "assigned_tasks s = (\<Sum>w<workers_size s. task_mset (w_task (workers s w)))"

text \<open>The queued tasks and those that workers hold.\<close>

definition task_bag :: "'q scheduler \<Rightarrow> task_id multiset" where
  "task_bag s = mset (m_tasks (sch_tasks s)) + assigned_tasks s"

lemma assigned_tasks_cong:
  "workers_size s' = workers_size s \<Longrightarrow>
    (\<And>w. w_task (workers s' w) = w_task (workers s w)) \<Longrightarrow> assigned_tasks s' = assigned_tasks s"
  by (simp add: assigned_tasks_def)

lemma assigned_tasks_assign:
  assumes "w < workers_size s" "w_task (workers s w) = None" "w_task x = Some t"
    and "workers s' = (workers s)(w := x)" "workers_size s' = workers_size s"
  shows "assigned_tasks s' = add_mset t (assigned_tasks s)"
proof -
  have "(\<Sum>i<workers_size s. task_mset (w_task (((workers s)(w := x)) i)))
      + task_mset (w_task (workers s w))
      = (\<Sum>i<workers_size s. task_mset (w_task (workers s i))) + task_mset (w_task x)"
    by (rule sum_fun_upd_mset [OF assms(1), where f = "\<lambda>v. task_mset (w_task v)"])
  with assms show ?thesis by (simp add: assigned_tasks_def)
qed

lemma pass_frame_task_bag: "pass_frame s s' \<Longrightarrow> task_bag s' = task_bag s"
  by (auto simp: task_bag_def pass_frame_def intro!: assigned_tasks_cong)

lemma task_bag_assign:
  assumes "w < workers_size s" "w_task (workers s w) = None" "w_task x = Some t"
    and "workers s' = (workers s)(w := x)" "workers_size s' = workers_size s"
    and "m_tasks (sch_tasks s) = t # m_tasks (sch_tasks s')"
  shows "task_bag s' = task_bag s"
  using assigned_tasks_assign [OF assms(1-5)] assms(6) by (simp add: task_bag_def)

text \<open>\<open>has_tasks\<close> reads the counter; a set answer is never wrong.\<close>

lemma has_tasks_imp: "tasks_inv (sch_tasks s) \<Longrightarrow> has_tasks s \<Longrightarrow> m_tasks (sch_tasks s) \<noteq> []"
  by (auto simp: has_tasks_def Tasks_empty_def Tasks_size_def tasks_inv_def)

lemma has_tasks_iff:
  "tasks_inv (sch_tasks s) \<Longrightarrow> length (m_tasks (sch_tasks s)) < 2 ^ 64 \<Longrightarrow>
    has_tasks s \<longleftrightarrow> m_tasks (sch_tasks s) \<noteq> []"
  by (simp add: has_tasks_def Tasks_empty_iff)

lemma has_tasks_cong: "sch_tasks s' = sch_tasks s \<Longrightarrow> has_tasks s' = has_tasks s"
  by (simp add: has_tasks_def)

text \<open>The state in which \<open>park_worker\<close> leaves the worker.\<close>

fun ctx_state :: "sync_context \<Rightarrow> worker_state" where
  "ctx_state Ctx_main = W_idle"
| "ctx_state Ctx_yield = W_yielded"
| "ctx_state Ctx_wait = W_waiting"
| "ctx_state Ctx_io = W_pending_io"

text \<open>What each kind of suspension brings along: a finished worker has released its task.\<close>

definition ctx_ok :: "sync_context \<Rightarrow> worker \<Rightarrow> bool" where
  "ctx_ok ctx x \<longleftrightarrow> (ctx = Ctx_main \<longleftrightarrow> w_task x = None) \<and> (ctx = Ctx_io \<longrightarrow> w_io x \<noteq> None)"

context stl_laws
begin

section \<open>The passes over whole queues\<close>

lemma schedule_io_correct:
  assumes inv: "sched_inv L s" and s': "s' = schedule_io_workers L env s"
  shows "sched_inv L s'" "pass_frame s s'"
    "queue_of L s' W_runnable
      = queue_of L s W_runnable @ filter (io_done env s) (queue_of L s W_pending_io)"
    "queue_of L s' W_pending_io = filter (\<lambda>w. \<not> io_done env s w) (queue_of L s W_pending_io)"
    "queue_of L s' W_waiting = queue_of L s W_waiting"
proof -
  let ?P = "queue_of L s W_pending_io"
  have e: "s' = io_pass L env ?P s" by (simp add: s' schedule_io_workers_def queue_of.simps)
  have "distinct ?P" using inv by (simp add: sched_inv_def)
  note c = io_pass_correct [OF inv this subset_refl, of env, folded e]
  show "sched_inv L s'" and "queue_of L s' W_runnable
      = queue_of L s W_runnable @ filter (io_done env s) ?P"
    using c by simp_all
  have "filter (\<lambda>w. \<not> (w \<in> set ?P \<and> io_done env s w)) ?P = filter (\<lambda>w. \<not> io_done env s w) ?P"
    by (rule filter_cong) auto
  then show "queue_of L s' W_pending_io = filter (\<lambda>w. \<not> io_done env s w) ?P"
    using c by simp
  show "pass_frame s s'" unfolding e by (rule io_pass_frame)
  show "queue_of L s' W_waiting = queue_of L s W_waiting" by (simp add: e queue_of.simps)
qed

lemma schedule_waiting_correct:
  assumes inv: "sched_inv L s" and s': "s' = schedule_waiting_workers L env s"
  shows "sched_inv L s'" "pass_frame s s'"
    "queue_of L s' W_runnable
      = queue_of L s W_runnable @ filter (wait_done env s) (queue_of L s W_waiting)"
    "queue_of L s' W_waiting = filter (\<lambda>w. \<not> wait_done env s w) (queue_of L s W_waiting)"
    "queue_of L s' W_pending_io = queue_of L s W_pending_io"
proof -
  let ?P = "queue_of L s W_waiting"
  have e: "s' = waiting_pass L env ?P s"
    by (simp add: s' schedule_waiting_workers_def queue_of.simps)
  have "distinct ?P" using inv by (simp add: sched_inv_def)
  note c = waiting_pass_correct [OF inv this subset_refl, of env, folded e]
  show "sched_inv L s'" and "queue_of L s' W_runnable
      = queue_of L s W_runnable @ filter (wait_done env s) ?P"
    using c by simp_all
  have "filter (\<lambda>w. \<not> (w \<in> set ?P \<and> wait_done env s w)) ?P
      = filter (\<lambda>w. \<not> wait_done env s w) ?P"
    by (rule filter_cong) auto
  then show "queue_of L s' W_waiting = filter (\<lambda>w. \<not> wait_done env s w) ?P"
    using c by simp
  show "pass_frame s s'" unfolding e by (rule waiting_pass_frame)
  show "queue_of L s' W_pending_io = queue_of L s W_pending_io"
    by (simp add: e queue_of.simps)
qed

lemma schedule_idle_correct:
  assumes inv: "sched_inv L s" and s': "s' = schedule_idle_workers L s"
    and new: "new = (if queue_of L s W_runnable = [] \<and> queue_of L s W_idle \<noteq> [] \<and> has_tasks s
      then [hd (queue_of L s W_idle)] else [])"
  shows "sched_inv L s' \<and> queue_of L s' W_runnable = queue_of L s W_runnable @ new \<and>
    queue_of L s' W_idle = drop (length new) (queue_of L s W_idle) \<and>
    m_tasks (sch_tasks s') = drop (length new) (m_tasks (sch_tasks s)) \<and>
    task_bag s' = task_bag s \<and> workers_size s' = workers_size s \<and>
    (\<forall>st. st \<noteq> W_idle \<longrightarrow> st \<noteq> W_runnable \<longrightarrow> queue_of L s' st = queue_of L s st)"
proof (cases "new = []")
  case True
  then have "s' = s" using s' new
    by (auto simp: schedule_idle_workers_def has_simps split: if_splits)
  then show ?thesis
    using True inv by simp
next
  case False
  then have cond: "queue_of L s W_runnable = []" "queue_of L s W_idle \<noteq> []" "has_tasks s"
    and n: "new = [hd (queue_of L s W_idle)]"
    using new by (auto split: if_splits)
  then obtain w idle where idle: "queue_of L s W_idle = w # idle"
    by (cases "queue_of L s W_idle") auto
  obtain tk rest where tasks: "m_tasks (sch_tasks s) = tk # rest"
    using has_tasks_imp [of s] inv cond(3)
    by (cases "m_tasks (sch_tasks s)") (auto simp: sched_inv_def)
  have e: "s' = schedule_idle_worker L None s"
    using s' cond by (simp add: schedule_idle_workers_def has_simps)
  have "case None of Some t \<Rightarrow> tk = t \<and> rest = m_tasks (sch_tasks s)
      | None \<Rightarrow> m_tasks (sch_tasks s) = tk # rest"
    by (simp add: tasks)
  note c = schedule_idle_worker_correct [OF inv idle this e]
  have "w \<in> set (queue_of L s W_idle)" using idle by simp
  then have st: "w < workers_size s" "w_state (workers s w) = W_idle"
    using inv by (simp_all add: queues_wf_mem sched_inv_def)
  then have "w_task (workers s w) = None"
    using inv by (auto simp: sched_inv_def workers_linked_def worker_linked_def)
  then have "task_bag s' = task_bag s"
    by (rule task_bag_assign [OF st(1) _ _ c(4,7), where t = tk]) (simp_all add: c(5) tasks)
  then show ?thesis
    using c n idle tasks by simp
qed

section \<open>All passes of one scheduler\<close>

lemma wait_done_frame: "pass_frame s s' \<Longrightarrow> wait_done env s' w = wait_done env s w"
  by (simp add: wait_done_def wait_info_defs pass_frame_def)

lemma pass_frame_queues:
  "pass_frame s s' \<Longrightarrow> queue_of L s' W_idle = queue_of L s W_idle"
  "pass_frame s s' \<Longrightarrow> queue_of L s' W_yielded = queue_of L s W_yielded"
  by (simp_all add: pass_frame_def queue_of.simps)

lemma schedule_local_correct:
  assumes inv: "sched_inv L s" and s': "s' = schedule_local L env s"
    and ready: "ready = queue_of L s W_runnable
      @ filter (io_done env s) (queue_of L s W_pending_io)
      @ filter (wait_done env s) (queue_of L s W_waiting)"
    and new: "new = (if ready = [] \<and> queue_of L s W_idle \<noteq> [] \<and> has_tasks s
      then [hd (queue_of L s W_idle)] else [])"
  shows "sched_inv L s'"
    "queue_of L s' W_runnable = ready @ new @ queue_of L s W_yielded"
    "queue_of L s' W_idle = drop (length new) (queue_of L s W_idle)"
    "m_tasks (sch_tasks s') = drop (length new) (m_tasks (sch_tasks s))"
    "queue_of L s' W_pending_io = filter (\<lambda>w. \<not> io_done env s w) (queue_of L s W_pending_io)"
    "queue_of L s' W_waiting = filter (\<lambda>w. \<not> wait_done env s w) (queue_of L s W_waiting)"
    "queue_of L s' W_yielded = []" "task_bag s' = task_bag s"
    "workers_size s' = workers_size s"
proof -
  define s1 where "s1 = schedule_io_workers L env s"
  define s2 where "s2 = schedule_waiting_workers L env s1"
  define s3 where "s3 = schedule_idle_workers L s2"
  note c1 = schedule_io_correct [OF inv s1_def]
  note c2 = schedule_waiting_correct [OF c1(1) s2_def]
  note f = pass_frame_trans [OF c1(2) c2(2)]
  note q2 = pass_frame_queues [OF f] pass_frameD [OF f]
  have w: "wait_done env s1 = wait_done env s" using wait_done_frame [OF c1(2)] by blast
  have r2: "queue_of L s2 W_runnable = ready" using c1 c2 w by (simp add: ready)
  have new2: "new = (if queue_of L s2 W_runnable = [] \<and> queue_of L s2 W_idle \<noteq> [] \<and> has_tasks s2
      then [hd (queue_of L s2 W_idle)] else [])"
    unfolding r2 q2(1) has_tasks_cong [OF q2(7)] by (rule new)
  note c3 = schedule_idle_correct [OF c2(1) s3_def new2]
  have s'3: "s' = schedule_yielded_workers L s3"
    by (simp add: s' schedule_local_def s3_def s2_def s1_def)
  have inv3: "sched_inv L s3" using c3 by simp
  note c4 = schedule_yielded_correct [OF inv3 s'3]
  have t: "sch_tasks s' = sch_tasks s3" and n: "workers_size s' = workers_size s3"
    by (simp_all add: s'3 schedule_yielded_workers_def park_defs split: option.splits)
  show "sched_inv L s'" by (rule c4(1))
  show "queue_of L s' W_runnable = ready @ new @ queue_of L s W_yielded"
    using c3 c4(2) r2 q2(2) by simp
  show "queue_of L s' W_idle = drop (length new) (queue_of L s W_idle)"
    using c3 c4(4) q2(1) by simp
  show "m_tasks (sch_tasks s') = drop (length new) (m_tasks (sch_tasks s))"
    using c3 q2(7) t by simp
  show "queue_of L s' W_pending_io = filter (\<lambda>w. \<not> io_done env s w) (queue_of L s W_pending_io)"
    using c1 c2 c3 c4(4) by simp
  show "queue_of L s' W_waiting = filter (\<lambda>w. \<not> wait_done env s w) (queue_of L s W_waiting)"
    using c1 c2 c3 c4(4) w by simp
  show "queue_of L s' W_yielded = []" by (rule c4(3))
  have "assigned_tasks s' = assigned_tasks s3" by (rule assigned_tasks_cong [OF n c4(5)])
  then have "task_bag s' = task_bag s3" by (simp add: task_bag_def t)
  then show "task_bag s' = task_bag s"
    using c3 pass_frame_task_bag [OF f] by simp
  show "workers_size s' = workers_size s" using c3 q2(13) n by simp
qed

section \<open>Parking the current worker, choosing the next\<close>

lemma park_worker_correct:
  assumes inv: "sched_inv L s" and ex: "executing w s" and y: "yielded_worker s = None"
    and ok: "ctx_ok ctx (workers s w)" and s': "s' = park_worker L ctx w s"
  shows "sched_inv L s'" "no_running s'"
    "queue_of L s' (ctx_state ctx) =
      (if ctx = Ctx_main \<and> sch_state s \<noteq> S_initializing
       then w # queue_of L s (ctx_state ctx) else queue_of L s (ctx_state ctx) @ [w])"
    "\<And>st. st \<noteq> ctx_state ctx \<Longrightarrow> queue_of L s' st = queue_of L s st"
    "workers s' = (workers s)(w := (workers s w)\<lparr>w_state := ctx_state ctx\<rparr>)"
    "workers_size s' = workers_size s" "sch_tasks s' = sch_tasks s"
    "m_worker s' = m_worker s" "sch_state s' = sch_state s" "m_exit s' = m_exit s"
proof -
  let ?b = "ctx_state ctx"
  have st: "w < workers_size s" "w_state (workers s w) = W_running"
    using ex by (simp_all add: executing_def)
  have wf: "queues_wf L s" using inv by (simp add: sched_inv_def)
  have ni: "w \<notin> set (queue_of L s ?b)"
    using wf st by (cases ctx) (simp_all add: queues_wf_not_mem)
  show to: "queue_of L s' ?b = (if ctx = Ctx_main \<and> sch_state s \<noteq> S_initializing
       then w # queue_of L s ?b else queue_of L s ?b @ [w])"
    using ni y by (cases ctx) (auto simp: s' park_worker_def park_defs elems_push_back
        elems_push_front queue_of.simps)
  show oth: "queue_of L s' x = queue_of L s x" if "x \<noteq> ?b" for x
    using that by (cases x; cases ctx) (simp_all add: s' park_worker_def park_defs queue_of.simps)
  show ws: "workers s' = (workers s)(w := (workers s w)\<lparr>w_state := ?b\<rparr>)"
    by (cases ctx) (simp_all add: s' park_worker_def park_defs)
  show size: "workers_size s' = workers_size s" and t: "sch_tasks s' = sch_tasks s"
    and "m_worker s' = m_worker s" "sch_state s' = sch_state s" "m_exit s' = m_exit s"
    by (cases ctx; simp add: s' park_worker_def park_defs)+
  show "no_running s'"
    using ex size by (cases ctx) (auto simp: no_running_def executing_def ws)
  show "sched_inv L s'"
  proof (rule sched_inv_move [OF inv st _ ws, where b = ?b])
    show "W_running \<noteq> ?b" by (cases ctx) simp_all
    show "worker_linked ((workers s w)\<lparr>w_state := ?b\<rparr>)"
      using ok by (cases ctx) (auto simp: worker_linked_def ctx_ok_def)
    show "m_state_load s' = m_state_load s + (Loads ?b - Loads W_running)"
      using st by (cases ctx) (simp_all add: s' park_worker_def park_defs)
    show "queue_of L s' W_running = remove1 w (queue_of L s W_running)"
      by (simp add: queue_of.simps)
  qed (use to oth size t inv in \<open>auto simp: sched_inv_def\<close>)
qed

lemma prepare_exec_correct:
  assumes inv: "sched_inv L s" and nr: "no_running s"
    and run: "queue_of L s W_runnable = w # rest" and s': "s' = prepare_exec L s"
  shows "sched_inv L s'" "executing w s'" "queue_of L s' W_runnable = rest"
    "\<And>st. st \<noteq> W_runnable \<Longrightarrow> queue_of L s' st = queue_of L s st"
    "w_task (workers s' w) \<noteq> None" "idle_start_time s' = tp_max L"
    "workers s' = (workers s)(w := (workers s w)\<lparr>w_state := W_running\<rparr>)"
    "workers_size s' = workers_size s" "sch_tasks s' = sch_tasks s"
    "sch_state s' = sch_state s" "m_exit s' = m_exit s"
proof -
  have wf: "queues_wf L s" using inv by (simp add: sched_inv_def)
  have "w \<in> set (queue_of L s W_runnable)" using run by simp
  then have st: "w < workers_size s" "w_state (workers s w) = W_runnable"
    using wf by (simp_all add: queues_wf_mem)
  have f: "il_front L (runnable_queue s) = w"
    using run front [of "runnable_queue s"] by (simp add: queue_of.simps)
  note d = prepare_exec_def prepare_next_worker_def invalidate_idle_timer_def
  show ws: "workers s' = (workers s)(w := (workers s w)\<lparr>w_state := W_running\<rparr>)"
    by (simp add: s' d park_defs Let_def f)
  show size: "workers_size s' = workers_size s" and t: "sch_tasks s' = sch_tasks s"
    and "sch_state s' = sch_state s" "m_exit s' = m_exit s" "idle_start_time s' = tp_max L"
    by (simp_all add: s' d park_defs Let_def f)
  show q: "queue_of L s' W_runnable = rest"
    using run by (simp add: s' d park_defs Let_def f elems_pop_front queue_of.simps)
  show oth: "queue_of L s' x = queue_of L s x" if "x \<noteq> W_runnable" for x
    using that by (cases x) (simp_all add: s' d park_defs Let_def f queue_of.simps)
  show "w_task (workers s' w) \<noteq> None"
    using inv st by (auto simp: sched_inv_def workers_linked_def worker_linked_def ws)
  have "m_worker s' = Some w" by (simp add: s' d park_defs Let_def f)
  then show "executing w s'" using nr st by (auto simp: executing_def no_running_def ws size)
  show "sched_inv L s'"
  proof (rule sched_inv_move [OF inv st _ ws, where b = W_running])
    show "m_state_load s' = m_state_load s + (Loads W_running - Loads W_runnable)"
      using st by (simp add: s' d park_defs Let_def f)
    show "queue_of L s' W_runnable = remove1 w (queue_of L s W_runnable)"
      by (simp add: q run)
  qed (use oth size t inv in \<open>auto simp: worker_linked_def sched_inv_def\<close>)
qed

end

section \<open>Bounds of the load\<close>

lemma sum_Loads_bound: "(\<Sum>w<n. unat (Loads (f w))) \<le> 10 * n"
proof (induction n)
  case (Suc n)
  then show ?case using Loads_le_10 [of "f n"] by simp
qed simp

lemma unat_sum_u32:
  fixes f :: "nat \<Rightarrow> u32"
  assumes "(\<Sum>w<n. unat (f w)) < 2 ^ 32"
  shows "unat (\<Sum>w<n. f w) = (\<Sum>w<n. unat (f w))"
  using assms
proof (induction n)
  case (Suc n)
  then show ?case by (simp add: unat_add_lem [THEN iffD1])
qed simp

lemma sint_of_nat_u32: "n < 2 ^ 31 \<Longrightarrow> sint (of_nat n :: u32) = int n"
  by (simp add: signed_of_nat signed_take_bit_int_eq_self)

lemma load_sum:
  assumes inv: "sched_inv L s" and n: "workers_size s \<le> 256"
    and t: "length (m_tasks (sch_tasks s)) < 214748108"
  shows "sint (state_load s) = (\<Sum>w<workers_size s. int (unat (Loads (w_state (workers s w)))))"
    "0 \<le> sint (state_load s)" "sint (state_load s) \<le> 2560"
    "sint (load s) = sint (state_load s) + 10 * int (length (m_tasks (sch_tasks s)))"
proof -
  let ?f = "\<lambda>w. Loads (w_state (workers s w))"
  let ?l = "length (m_tasks (sch_tasks s))"
  define S where "S = (\<Sum>w<workers_size s. unat (?f w))"
  have S: "S \<le> 2560" using sum_Loads_bound [of "\<lambda>w. w_state (workers s w)" "workers_size s"] n
    by (simp add: S_def)
  have "state_load s = (\<Sum>w<workers_size s. ?f w)"
    using inv by (simp add: sched_inv_def load_ok_def state_load_def)
  then have "unat (state_load s) = S"
    unfolding S_def using S by (subst unat_sum_u32 [symmetric]) (simp_all add: S_def)
  then have st: "state_load s = of_nat S" using S by (simp add: word_unat_eq_iff unat_of_nat take_bit_nat_eq_self)
  have sl: "sint (state_load s) = int S" unfolding st using S by (intro sint_of_nat_u32) simp
  then show "sint (state_load s) = (\<Sum>w<workers_size s. int (unat (?f w)))"
    by (simp add: S_def)
  show "0 \<le> sint (state_load s)" "sint (state_load s) \<le> 2560" using S by (simp_all add: sl)
  have sz: "Tasks_size (sch_tasks s) = of_nat ?l"
    using inv by (simp add: sched_inv_def tasks_inv_def Tasks_size_def)
  have "tasks_load s = ucast (of_nat ?l * 10 :: u64)"
    by (simp add: tasks_load_def sz Load_task_def)
  also have "of_nat ?l * 10 = (of_nat (10 * ?l) :: u64)" by simp
  also have "ucast (of_nat (10 * ?l) :: u64) = (of_nat (10 * ?l) :: u32)"
    using t by (simp only: unsigned_of_nat) (simp add: take_bit_nat_eq_self)
  finally have "load s = of_nat (S + 10 * ?l)" by (simp add: load_def st)
  then have "sint (load s) = int (S + 10 * ?l)"
    using sint_of_nat_u32 [of "S + 10 * ?l"] S t by simp
  then show "sint (load s) = sint (state_load s) + 10 * int ?l" by (simp add: sl)
qed

end
