(* ===== verification/Schedulers.thy ===== *)
theory Schedulers
  imports Scheduler_Pass
begin

text \<open>
  The class \<open>Schedulers\<close> (\<open>scheduler.hpp\<close>, \<open>scheduler.cpp\<close>), the namespace \<open>sch\<close>, the parts of
  \<open>Scheduler\<close> that reach other schedulers (stealing, the main loop \<open>schedule\<close>), and the entry
  \<open>enque_task\<close> of \<open>async.hpp\<close>. Schedulers are addressed by their index in \<open>m_schedulers\<close>.
\<close>

section \<open>State\<close>

text \<open>
  \<open>cv_signalled\<close> is the state of the condition variable \<open>m_cv\<close>, on which only the main thread waits:
  whether it has been signalled since that thread last blocked. A signal before that has no effect.
\<close>

record 'q schedulers =
  scheds :: "'q scheduler list"
  idle_schedulers :: u32
  check_idle :: bool
  cv_signalled :: bool

definition upd_sched ::
  "nat \<Rightarrow> ('q scheduler \<Rightarrow> 'q scheduler) \<Rightarrow> 'q schedulers \<Rightarrow> 'q schedulers" where
  "upd_sched i f g = g\<lparr>scheds := (scheds g)[i := f (scheds g ! i)]\<rparr>"

section \<open>Choosing the CPUs\<close>

text \<open>
  The loop of the constructor: a scheduler for each available CPU, in ascending order, until
  the requested number is reached. The result lists the CPUs that get a scheduler.
\<close>

function select_cpus :: "u64 \<Rightarrow> nat \<Rightarrow> nat \<Rightarrow> nat \<Rightarrow> nat list" where
  "select_cpus m cnt cpu sch_created =
     (if cpu < 64 \<and> sch_created < cnt then
        (if bit m cpu
         then cpu # select_cpus m cnt (Suc cpu) (Suc sch_created)
         else select_cpus m cnt (Suc cpu) sch_created)
      else [])"
  by pat_completeness auto
termination
  by (relation "measure (\<lambda>(m, cnt, cpu, sch_created). 64 - cpu)") auto

declare select_cpus.simps [simp del]

definition Schedulers_ctor :: "'q stl \<Rightarrow> u64 \<Rightarrow> options \<Rightarrow> 'q schedulers" where
  "Schedulers_ctor L os_mask opt =
     (let avail = and os_mask CFG_allowed_cpus_mask
      in \<lparr>scheds = map (\<lambda>cpu. Scheduler_ctor L cpu (unat (workers_per_scheduler opt)))
            (select_cpus avail (unat (schedulers_count opt)) 0 0),
          idle_schedulers = 0, check_idle = False, cv_signalled = False\<rparr>)"

section \<open>Load balancing and counts\<close>

text \<open>\<open>std::ranges::min_element\<close>: the first scheduler of least load, compared as \<open>i32\<close>.\<close>

fun min_element_from :: "('a \<Rightarrow> i32) \<Rightarrow> nat \<Rightarrow> i32 \<Rightarrow> nat \<Rightarrow> 'a list \<Rightarrow> nat" where
  "min_element_from f best b i [] = best"
| "min_element_from f best b i (x # xs) =
     (if f x <s b then min_element_from f i (f x) (Suc i) xs
      else min_element_from f best b (Suc i) xs)"

text \<open>\<open>None\<close> is the dereference of \<open>end()\<close> when there is no scheduler.\<close>

definition min_load_scheduler :: "'q schedulers \<Rightarrow> nat option" where
  "min_load_scheduler g = (case scheds g of
       [] \<Rightarrow> None
     | s # ss \<Rightarrow> Some (min_element_from load 0 (load s) 1 ss))"

definition cpus_count :: "'q schedulers \<Rightarrow> u32" where
  "cpus_count g = of_nat (length (scheds g))"

definition workers_per_cpu_count :: "'q schedulers \<Rightarrow> u32 option" where
  "workers_per_cpu_count g = (case scheds g of
       [] \<Rightarrow> None | s # _ \<Rightarrow> Some (of_nat (workers_size s)))"

definition workers_count :: "'q schedulers \<Rightarrow> u32 option" where
  "workers_count g =
     map_option (\<lambda>w. of_nat (length (scheds g)) * w) (workers_per_cpu_count g)"

definition enque_task :: "task_id \<Rightarrow> 'q schedulers \<Rightarrow> 'q schedulers option" where
  "enque_task t g = map_option (\<lambda>i. upd_sched i (enqueue_task t) g) (min_load_scheduler g)"

text \<open>
  The namespace \<open>sch\<close>: the same through the global pointer, which is null (\<open>None\<close>) before \<open>init_ums\<close>
  has created the schedulers and after it has destroyed them. A null pointer is dereferenced then.
\<close>

definition sch_min_load_scheduler :: "'q schedulers option \<Rightarrow> nat option" where
  "sch_min_load_scheduler p = (case p of None \<Rightarrow> None | Some g \<Rightarrow> min_load_scheduler g)"

definition sch_schedulers_count :: "'q schedulers option \<Rightarrow> u32 option" where
  "sch_schedulers_count p = map_option cpus_count p"

definition sch_cpus_count :: "'q schedulers option \<Rightarrow> u32 option" where
  "sch_cpus_count p = map_option cpus_count p"

definition sch_workers_per_cpu_count :: "'q schedulers option \<Rightarrow> u32 option" where
  "sch_workers_per_cpu_count p = (case p of None \<Rightarrow> None | Some g \<Rightarrow> workers_per_cpu_count g)"

definition sch_workers_count :: "'q schedulers option \<Rightarrow> u32 option" where
  "sch_workers_count p = (case p of None \<Rightarrow> None | Some g \<Rightarrow> workers_count g)"

section \<open>Stealing\<close>

text \<open>
  The loop over the filtered view of the schedulers: the filter is evaluated lazily, as the
  loop reaches each scheduler.
\<close>

fun steal_from :: "'q stl \<Rightarrow> nat \<Rightarrow> nat list \<Rightarrow> 'q schedulers \<Rightarrow> 'q schedulers" where
  "steal_from L i [] g = g"
| "steal_from L i (j # js) g =
     (let me = scheds g ! i; other = scheds g ! j
      in if cpu_id me \<noteq> cpu_id other \<and> has_stealable_work other then
           (case next_task other of
              (Some t, other') \<Rightarrow>
                upd_sched i (schedule_idle_worker L (Some t)) (upd_sched j (\<lambda>_. other') g)
            | (None, other') \<Rightarrow> steal_from L i js (upd_sched j (\<lambda>_. other') g))
         else steal_from L i js g)"

definition steal_work :: "'q stl \<Rightarrow> nat \<Rightarrow> 'q schedulers \<Rightarrow> 'q schedulers" where
  "steal_work L i g =
     (if \<not> FS_work_stealing_allowed then g
      else if has_runnable_workers L (scheds g ! i) \<or> \<not> has_idle_workers L (scheds g ! i) then g
      else steal_from L i [0 ..< length (scheds g)] g)"

definition schedule_workers ::
  "'q stl \<Rightarrow> sched_env \<Rightarrow> nat \<Rightarrow> 'q schedulers \<Rightarrow> 'q schedulers" where
  "schedule_workers L env i g = steal_work L i (upd_sched i (schedule_local L env) g)"

section \<open>Idle accounting and exit\<close>

definition signal_idle :: "'q schedulers \<Rightarrow> 'q schedulers" where
  "signal_idle g =
     (let idle_count = idle_schedulers g + 1;
          g1 = g\<lparr>idle_schedulers := idle_count\<rparr>
      in if unat idle_count < length (scheds g) then g1 else g1\<lparr>check_idle := True, cv_signalled := True\<rparr>)"

definition signal_running :: "'q schedulers \<Rightarrow> 'q schedulers" where
  "signal_running g = g\<lparr>idle_schedulers := idle_schedulers g - 1\<rparr>"

definition sched_idle :: "'q scheduler \<Rightarrow> bool" where
  "sched_idle s \<longleftrightarrow> sch_state s = S_idle_sleep"

definition all_idle :: "'q schedulers \<Rightarrow> bool" where
  "all_idle g =
     (if unat (idle_schedulers g) < length (scheds g) then False
      else if list_ex has_tasks (scheds g) then False
      else list_all (\<lambda>s. sched_idle s \<and> \<not> has_tasks s) (scheds g))"

text \<open>The predicate of \<open>wait_exit\<close>: whether the main thread stops waiting.\<close>

definition wait_exit_pred :: "'q schedulers \<Rightarrow> bool \<times> 'q schedulers" where
  "wait_exit_pred g =
     (if \<not> check_idle g then (False, g)
      else (let g1 = g\<lparr>check_idle := False\<rparr> in (all_idle g1, g1)))"

text \<open>The destructor of each scheduler: the exit signal, then a notification.\<close>

definition exit_all :: "'q schedulers \<Rightarrow> 'q schedulers" where
  "exit_all g = g\<lparr>scheds := map (\<lambda>s. notify_sched (signal_exit s)) (scheds g)\<rparr>"

section \<open>The main loop\<close>

text \<open>
  One iteration of the loop in \<open>schedule\<close>, up to the blocking call it reaches: the scheduler
  has chosen a worker, or exits, or iterates, or blocks in one of the two waits of \<open>sleep\<close>.
  \<open>It_assert\<close> is the failure of the assertion in \<open>should_exit\<close>.
\<close>

datatype iter_result =
  It_run | It_exit | It_again | It_wait_until time_point | It_idle_sleep | It_assert

definition after_sleep :: "'q stl \<Rightarrow> 'q scheduler \<Rightarrow> iter_result \<times> 'q scheduler" where
  "after_sleep L s = (case should_exit L s of
       None \<Rightarrow> (It_assert, s)
     | Some True \<Rightarrow> (It_exit, exit_sched s)
     | Some False \<Rightarrow> (It_again, s))"

definition schedule_iter ::
  "'q stl \<Rightarrow> sched_env \<Rightarrow> time_point \<Rightarrow> time_point \<Rightarrow> time_point \<Rightarrow> nat \<Rightarrow>
   'q schedulers \<Rightarrow> iter_result \<times> 'q schedulers" where
  "schedule_iter L env t1 t2 t3 i g =
     (let g1 = schedule_workers L env i g; s1 = scheds g1 ! i
      in if has_runnable_workers L s1 then (It_run, upd_sched i (prepare_exec L) g1)
         else case sleep_enter L t1 t2 t3 s1 of
           (Sl_return, s2) \<Rightarrow> (let (r, s3) = after_sleep L s2 in (r, upd_sched i (\<lambda>_. s3) g1))
         | (Sl_wait_until tp, s2) \<Rightarrow> (It_wait_until tp, upd_sched i (\<lambda>_. s2) g1)
         | (Sl_idle_sleep, s2) \<Rightarrow> (It_idle_sleep, signal_idle (upd_sched i (\<lambda>_. s2) g1)))"

text \<open>What follows the end of each wait: the rest of \<open>sleep\<close>, then the test of \<open>should_exit\<close>.\<close>

definition wait_until_resume :: "'q stl \<Rightarrow> nat \<Rightarrow> 'q schedulers \<Rightarrow> iter_result \<times> 'q schedulers" where
  "wait_until_resume L i g =
     (let (r, s) = after_sleep L (wait_until_done (scheds g ! i)) in (r, upd_sched i (\<lambda>_. s) g))"

definition idle_sleep_resume :: "'q stl \<Rightarrow> nat \<Rightarrow> 'q schedulers \<Rightarrow> iter_result \<times> 'q schedulers" where
  "idle_sleep_resume L i g =
     (let g1 = signal_running g; (r, s) = after_sleep L (idle_sleep_done (scheds g1 ! i))
      in (r, upd_sched i (\<lambda>_. s) g1))"

section \<open>Lemmas\<close>

lemma upd_sched_simps [simp]:
  "length (scheds (upd_sched i f g)) = length (scheds g)"
  "i < length (scheds g) \<Longrightarrow> scheds (upd_sched i f g) ! i = f (scheds g ! i)"
  "j \<noteq> i \<Longrightarrow> scheds (upd_sched i f g) ! j = scheds g ! j"
  "idle_schedulers (upd_sched i f g) = idle_schedulers g"
  "check_idle (upd_sched i f g) = check_idle g"
  by (simp_all add: upd_sched_def)

lemma select_cpus_spec:
  "select_cpus m cnt cpu created
    = take (cnt - created) (filter (bit m) [cpu ..< 64])"
proof (induction m cnt cpu created rule: select_cpus.induct)
  case (1 m cnt cpu created)
  show ?case
  proof (cases "cpu < 64 \<and> created < cnt")
    case True
    then have "cnt - created = Suc (cnt - Suc created)" by arith
    then show ?thesis using True "1.IH"
      by (simp add: select_cpus.simps [of m cnt cpu created] upt_conv_Cons)
  next
    case False
    then show ?thesis by (auto simp: select_cpus.simps [of m cnt cpu created])
  qed
qed

lemma min_element_from_correct:
  assumes "min_element_from f best b i xs = k"
  shows "k = best \<and> (\<forall>x\<in>set xs. b \<le>s f x) \<or>
    i \<le> k \<and> k < i + length xs \<and> f (xs ! (k - i)) <s b \<and>
    (\<forall>x\<in>set xs. f (xs ! (k - i)) \<le>s f x) \<and>
    (\<forall>j<k - i. f (xs ! (k - i)) <s f (xs ! j))"
  using assms
proof (induction f best b i xs rule: min_element_from.induct)
  case (2 f best b i x xs)
  show ?case
  proof (cases "f x <s b")
    case True
    then have "min_element_from f i (f x) (Suc i) xs = k" using 2 by simp
    from "2.IH"(1) [OF True this] show ?thesis
    proof (elim disjE conjE)
      assume k: "k = i" and a: "\<forall>y\<in>set xs. f x \<le>s f y"
      then show ?thesis using True by (simp add: word_sle_eq)
    next
      assume k: "Suc i \<le> k" "k < Suc i + length xs" "f (xs ! (k - Suc i)) <s f x"
        "\<forall>y\<in>set xs. f (xs ! (k - Suc i)) \<le>s f y"
        "\<forall>j<k - Suc i. f (xs ! (k - Suc i)) <s f (xs ! j)"
      then have s: "k - i = Suc (k - Suc i)" by simp
      have "\<forall>j<k - i. f ((x # xs) ! (k - i)) <s f ((x # xs) ! j)"
        using k(3,5) unfolding s by (auto simp: nth_Cons' less_Suc_eq_0_disj)
      then show ?thesis using k True unfolding s
        by (auto simp: word_sle_eq word_sless_alt)
    qed
  next
    case False
    then have "min_element_from f best b (Suc i) xs = k" using 2 by simp
    from "2.IH"(2) [OF False this] show ?thesis
    proof (elim disjE conjE)
      assume "k = best" and "\<forall>y\<in>set xs. b \<le>s f y"
      then show ?thesis using False by (auto simp: word_sle_eq word_sless_alt)
    next
      assume k: "Suc i \<le> k" "k < Suc i + length xs" "f (xs ! (k - Suc i)) <s b"
        "\<forall>y\<in>set xs. f (xs ! (k - Suc i)) \<le>s f y"
        "\<forall>j<k - Suc i. f (xs ! (k - Suc i)) <s f (xs ! j)"
      then have s: "k - i = Suc (k - Suc i)" by simp
      have "\<forall>j<k - i. f ((x # xs) ! (k - i)) <s f ((x # xs) ! j)"
        using k(3,5) False unfolding s
        by (auto simp: nth_Cons' less_Suc_eq_0_disj word_sless_alt)
      then show ?thesis using k False unfolding s
        by (auto simp: word_sle_eq word_sless_alt)
    qed
  qed
qed simp

section \<open>The invariant of all schedulers\<close>

definition glob_inv :: "'q stl \<Rightarrow> 'q schedulers \<Rightarrow> bool" where
  "glob_inv L g \<longleftrightarrow> (\<forall>i<length (scheds g). sched_inv L (scheds g ! i)) \<and>
     distinct (map cpu_id (scheds g))"

definition glob_bag :: "'q schedulers \<Rightarrow> task_id multiset" where
  "glob_bag g = sum_list (map task_bag (scheds g))"

text \<open>Scheduler \<open>i\<close> would take work from scheduler \<open>j\<close>.\<close>

definition can_steal :: "'q schedulers \<Rightarrow> nat \<Rightarrow> nat \<Rightarrow> bool" where
  "can_steal g i j \<longleftrightarrow>
     cpu_id (scheds g ! i) \<noteq> cpu_id (scheds g ! j) \<and> has_stealable_work (scheds g ! j)"

lemma stealable_has_tasks:
  "tasks_inv (sch_tasks s) \<Longrightarrow> has_stealable_work s \<Longrightarrow> m_tasks (sch_tasks s) \<noteq> []"
  by (auto simp: has_stealable_work_def Let_def Tasks_size_def tasks_inv_def split: if_splits)

lemma glob_bag_upd:
  assumes "i < length (scheds g)" and "task_bag (f (scheds g ! i)) = task_bag (scheds g ! i)"
  shows "glob_bag (upd_sched i f g) = glob_bag g"
  using sum_list_update_mset [OF assms(1), of task_bag "f (scheds g ! i)"] assms(2)
  by (simp add: glob_bag_def upd_sched_def)

lemma map_cpu_id_upd:
  assumes "cpu_id (f (scheds g ! i)) = cpu_id (scheds g ! i)"
  shows "map cpu_id (scheds (upd_sched i f g)) = map cpu_id (scheds g)"
proof (cases "i < length (scheds g)")
  case True
  then have "(map cpu_id (scheds g))[i := cpu_id (scheds g ! i)] = map cpu_id (scheds g)"
    by (metis length_map list_update_id nth_map)
  then show ?thesis using assms by (simp add: upd_sched_def map_update)
qed (simp add: upd_sched_def list_update_beyond)

lemma glob_inv_upd:
  assumes "glob_inv L g" and "cpu_id (f (scheds g ! i)) = cpu_id (scheds g ! i)"
    and "i < length (scheds g) \<Longrightarrow> sched_inv L (f (scheds g ! i))"
  shows "glob_inv L (upd_sched i f g)"
  unfolding glob_inv_def
proof (intro conjI allI impI)
  show "distinct (map cpu_id (scheds (upd_sched i f g)))"
    using assms(1,2) by (simp only: map_cpu_id_upd glob_inv_def)
  show "sched_inv L (scheds (upd_sched i f g) ! j)" if "j < length (scheds (upd_sched i f g))" for j
    using that assms by (cases "j = i") (auto simp: glob_inv_def)
qed

lemma schedule_idle_worker_cpu [simp]: "cpu_id (schedule_idle_worker L t s) = cpu_id s"
  by (auto simp: schedule_idle_worker_def next_task_def park_defs Let_def
      split: option.splits prod.splits)

lemma sched_inv_next_task:
  assumes "sched_inv L s" and "next_task s = (t, s')"
  shows "sched_inv L s'" and "cpu_id s' = cpu_id s"
    and "\<And>st. queue_of L s' st = queue_of L s st" and "workers s' = workers s"
    and "workers_size s' = workers_size s" and "m_state_load s' = m_state_load s"
proof -
  have s': "s' = s\<lparr>sch_tasks := snd (Tasks_deque (sch_tasks s))\<rparr>"
    using assms(2) by (auto simp: next_task_def split: prod.splits)
  show q: "queue_of L s' st = queue_of L s st" for st
    by (cases st) (simp_all add: s' queue_of.simps)
  show "cpu_id s' = cpu_id s" "workers s' = workers s" "workers_size s' = workers_size s"
    "m_state_load s' = m_state_load s"
    by (simp_all add: s')
  show "sched_inv L s'"
    by (rule sched_inv_cong [OF assms(1)])
      (use assms(1) q in \<open>auto simp: s' sched_inv_def workers_linked_def intro: tasks_inv_deque\<close>)
qed

context stl_laws
begin

lemma steal_from_none:
  "(\<And>j. j \<in> set js \<Longrightarrow> \<not> can_steal g i j) \<Longrightarrow> steal_from L i js g = g"
  by (induction js) (auto simp: can_steal_def Let_def)

lemma steal_from_some:
  assumes inv: "glob_inv L g" and js: "\<forall>j\<in>set js. j < length (scheds g)"
    and ex: "\<exists>j\<in>set js. can_steal g i j"
  shows "\<exists>j t rest other. j \<in> set js \<and> can_steal g i j \<and>
    m_tasks (sch_tasks (scheds g ! j)) = t # rest \<and>
    next_task (scheds g ! j) = (Some t, other) \<and>
    steal_from L i js g
      = upd_sched i (schedule_idle_worker L (Some t)) (upd_sched j (\<lambda>_. other) g)"
  using js ex
proof (induction js)
  case (Cons j js)
  show ?case
  proof (cases "can_steal g i j")
    case True
    have "tasks_inv (sch_tasks (scheds g ! j))"
      using inv Cons.prems(1) by (auto simp: glob_inv_def sched_inv_def)
    with True have "m_tasks (sch_tasks (scheds g ! j)) \<noteq> []"
      by (auto simp: can_steal_def dest: stealable_has_tasks)
    then obtain t rest where t: "m_tasks (sch_tasks (scheds g ! j)) = t # rest"
      by (cases "m_tasks (sch_tasks (scheds g ! j))") auto
    then obtain other where o: "next_task (scheds g ! j) = (Some t, other)"
      by (simp add: next_task_def Tasks_deque_def)
    have "steal_from L i (j # js) g
      = upd_sched i (schedule_idle_worker L (Some t)) (upd_sched j (\<lambda>_. other) g)"
      using True o by (simp add: can_steal_def Let_def)
    then show ?thesis using True t o by auto
  next
    case False
    then have "steal_from L i (j # js) g = steal_from L i js g"
      by (auto simp: can_steal_def Let_def)
    then show ?thesis using Cons False by auto
  qed
qed simp

end

end
