(* ===== verification/Schedulers_Inv.thy ===== *)
theory Schedulers_Inv
  imports Schedulers
begin

text \<open>
  The global invariant and the bag of all tasks through stealing and through one iteration of
  the main loop; what is known when an iteration finds no worker to run.
\<close>

lemma task_bag_next_task:
  assumes "next_task s = (Some t, s')"
  shows "task_bag s = add_mset t (task_bag s')"
proof -
  have "sch_tasks s' = snd (Tasks_deque (sch_tasks s))" "workers s' = workers s"
    "workers_size s' = workers_size s" "fst (Tasks_deque (sch_tasks s)) = Some t"
    using assms by (auto simp: next_task_def split: prod.splits)
  then show ?thesis
    by (auto simp: task_bag_def assigned_tasks_def Tasks_deque_def split: list.splits)
qed

context stl_laws
begin

text \<open>A task that comes from outside the queue is assigned to the front idle worker.\<close>

lemma assign_given_bag:
  assumes si: "sched_inv L s" and idle: "queue_of L s W_idle = w # idle"
  shows "sch_tasks (schedule_idle_worker L (Some t) s) = sch_tasks s"
    "task_bag (schedule_idle_worker L (Some t) s) = add_mset t (task_bag s)"
proof -
  show tq: "sch_tasks (schedule_idle_worker L (Some t) s) = sch_tasks s"
    by (simp add: schedule_idle_worker_def park_defs Let_def)
  have "case Some t of Some t' \<Rightarrow> t = t' \<and> m_tasks (sch_tasks s) = m_tasks (sch_tasks s)
    | None \<Rightarrow> m_tasks (sch_tasks s) = t # m_tasks (sch_tasks s)"
    by simp
  note c = schedule_idle_worker_correct [OF si idle this refl]
  have "w \<in> set (queue_of L s W_idle)" using idle by simp
  then have st: "w < workers_size s" "w_state (workers s w) = W_idle"
    using si by (simp_all add: sched_inv_def queues_wf_mem)
  then have nt0: "w_task (workers s w) = None"
    using si by (auto simp: sched_inv_def workers_linked_def worker_linked_def)
  have "assigned_tasks (schedule_idle_worker L (Some t) s) = add_mset t (assigned_tasks s)"
    by (rule assigned_tasks_assign [OF st(1) nt0 _ c(4,7)]) simp
  then show "task_bag (schedule_idle_worker L (Some t) s) = add_mset t (task_bag s)"
    by (simp add: task_bag_def tq)
qed

lemma steal_step_correct:
  assumes inv: "glob_inv L g" and i: "i < length (scheds g)" and j: "j < length (scheds g)"
    and ij: "cpu_id (scheds g ! i) \<noteq> cpu_id (scheds g ! j)"
    and idle: "queue_of L (scheds g ! i) W_idle = w # idle"
    and o: "next_task (scheds g ! j) = (Some t, other)"
    and g': "g' = upd_sched i (schedule_idle_worker L (Some t)) (upd_sched j (\<lambda>_. other) g)"
  shows "glob_inv L g'" "glob_bag g' = glob_bag g"
    "queue_of L (scheds g' ! i) W_runnable = queue_of L (scheds g ! i) W_runnable @ [w]"
    "queue_of L (scheds g' ! i) W_idle = idle"
    "\<And>st. st \<noteq> W_idle \<Longrightarrow> st \<noteq> W_runnable \<Longrightarrow>
      queue_of L (scheds g' ! i) st = queue_of L (scheds g ! i) st"
    "sch_tasks (scheds g' ! i) = sch_tasks (scheds g ! i)"
    "w_task (workers (scheds g' ! i) w) = Some t"
    "scheds g' ! j = other"
    "\<And>k. k \<noteq> i \<Longrightarrow> k \<noteq> j \<Longrightarrow> scheds g' ! k = scheds g ! k"
    "length (scheds g') = length (scheds g)"
proof -
  define g1 where "g1 = upd_sched j (\<lambda>_. other) g"
  have ne: "i \<noteq> j" using ij by auto
  have si: "sched_inv L (scheds g ! i)" and sj: "sched_inv L (scheds g ! j)"
    using inv i j by (auto simp: glob_inv_def)
  note nt = sched_inv_next_task [OF sj o]
  have g1i: "scheds g1 ! i = scheds g ! i" using ne by (simp add: g1_def)
  have g'e: "g' = upd_sched i (schedule_idle_worker L (Some t)) g1" by (simp add: g' g1_def)
  have "case Some t of Some t' \<Rightarrow> t = t' \<and>
      m_tasks (sch_tasks (scheds g ! i)) = m_tasks (sch_tasks (scheds g ! i))
    | None \<Rightarrow> m_tasks (sch_tasks (scheds g ! i)) = t # m_tasks (sch_tasks (scheds g ! i))"
    by simp
  note c = schedule_idle_worker_correct [OF si idle this refl]
  have g'i: "scheds g' ! i = schedule_idle_worker L (Some t) (scheds g ! i)"
    using i g1i by (simp add: g'e g1_def)
  have inv1: "glob_inv L g1"
    unfolding g1_def by (rule glob_inv_upd [OF inv]) (use nt in simp_all)
  show "glob_inv L g'"
    unfolding g'e by (rule glob_inv_upd [OF inv1]) (simp_all add: g1i c(1))
  note tq = assign_given_bag(1) [OF si idle, of t]
  have bi: "task_bag (scheds g' ! i) = add_mset t (task_bag (scheds g ! i))"
    by (simp add: g'i assign_given_bag(2) [OF si idle])
  have "glob_bag g1 + task_bag (scheds g ! j) = glob_bag g + task_bag other"
    using sum_list_update_mset [OF j, of task_bag other] by (simp add: glob_bag_def g1_def upd_sched_def)
  then have e1: "add_mset t (glob_bag g1) = glob_bag g"
    by (simp add: task_bag_next_task [OF o])
  have "glob_bag g' + task_bag (scheds g1 ! i) = glob_bag g1 + task_bag (scheds g' ! i)"
    using sum_list_update_mset [of i "scheds g1" task_bag "scheds g' ! i"] i
    by (simp add: glob_bag_def g'e upd_sched_def g1_def)
  then have "glob_bag g' = add_mset t (glob_bag g1)" by (simp add: g1i bi)
  with e1 show "glob_bag g' = glob_bag g" by simp
  show "queue_of L (scheds g' ! i) W_runnable = queue_of L (scheds g ! i) W_runnable @ [w]"
    "queue_of L (scheds g' ! i) W_idle = idle" "w_task (workers (scheds g' ! i) w) = Some t"
    using c by (simp_all add: g'i)
  show "queue_of L (scheds g' ! i) x = queue_of L (scheds g ! i) x"
    if "x \<noteq> W_idle" "x \<noteq> W_runnable" for x
    using c(6) that by (simp add: g'i)
  show "sch_tasks (scheds g' ! i) = sch_tasks (scheds g ! i)" by (simp add: g'i tq)
  show "scheds g' ! j = other" using ne j by (simp add: g'e g1_def)
  show "scheds g' ! k = scheds g ! k" if "k \<noteq> i" "k \<noteq> j" for k
    using that by (simp add: g'e g1_def)
  show "length (scheds g') = length (scheds g)" by (simp add: g'e g1_def)
qed

text \<open>Stealing changes nothing, or moves one task to the front idle worker of \<open>i\<close>.\<close>

lemma steal_work_cases:
  assumes inv: "glob_inv L g" and i: "i < length (scheds g)"
  obtains (unchanged) "steal_work L i g = g"
      "queue_of L (scheds g ! i) W_runnable \<noteq> [] \<or> queue_of L (scheds g ! i) W_idle = [] \<or>
       (\<forall>j<length (scheds g). \<not> can_steal g i j)"
  | (stolen) j w idle t other where "j < length (scheds g)" "can_steal g i j"
      "queue_of L (scheds g ! i) W_runnable = []"
      "queue_of L (scheds g ! i) W_idle = w # idle"
      "next_task (scheds g ! j) = (Some t, other)"
      "steal_work L i g
        = upd_sched i (schedule_idle_worker L (Some t)) (upd_sched j (\<lambda>_. other) g)"
proof (cases "queue_of L (scheds g ! i) W_runnable \<noteq> [] \<or> queue_of L (scheds g ! i) W_idle = []")
  case True
  then have "steal_work L i g = g" by (auto simp: steal_work_def has_simps)
  then show ?thesis using unchanged True by blast
next
  case False
  then have e: "steal_work L i g = steal_from L i [0 ..< length (scheds g)] g"
    by (simp add: steal_work_def has_simps FS_work_stealing_allowed_def)
  obtain w idle where idle: "queue_of L (scheds g ! i) W_idle = w # idle"
    using False by (cases "queue_of L (scheds g ! i) W_idle") auto
  show ?thesis
  proof (cases "\<exists>j<length (scheds g). can_steal g i j")
    case True
    then have "\<exists>j\<in>set [0 ..< length (scheds g)]. can_steal g i j" by auto
    from steal_from_some [OF inv _ this] obtain j t rest other
      where "j < length (scheds g)" "can_steal g i j"
        "next_task (scheds g ! j) = (Some t, other)"
        "steal_from L i [0 ..< length (scheds g)] g
          = upd_sched i (schedule_idle_worker L (Some t)) (upd_sched j (\<lambda>_. other) g)"
      by auto
    then show ?thesis using stolen idle False e by auto
  next
    case no: False
    then have "steal_work L i g = g" unfolding e by (intro steal_from_none) auto
    then show ?thesis using unchanged no by blast
  qed
qed

lemma schedule_local_cpu [simp]: "cpu_id (schedule_local L env s) = cpu_id s"
proof -
  have "cpu_id (schedule_yielded_workers L s') = cpu_id s'" for s'
    by (simp add: schedule_yielded_workers_def park_defs split: option.splits)
  moreover have "cpu_id (schedule_idle_workers L s') = cpu_id s'" for s'
    by (simp add: schedule_idle_workers_def)
  ultimately show ?thesis
    by (simp add: schedule_local_def schedule_io_workers_def schedule_waiting_workers_def)
qed

lemma schedule_workers_inv:
  assumes inv: "glob_inv L g" and i: "i < length (scheds g)"
  shows "glob_inv L (schedule_workers L env i g)"
    "glob_bag (schedule_workers L env i g) = glob_bag g"
    "length (scheds (schedule_workers L env i g)) = length (scheds g)"
proof -
  define g1 where "g1 = upd_sched i (schedule_local L env) g"
  have si: "sched_inv L (scheds g ! i)" using inv i by (simp add: glob_inv_def)
  note c = schedule_local_correct [OF si refl refl refl, of env]
  have inv1: "glob_inv L g1"
    unfolding g1_def by (rule glob_inv_upd [OF inv]) (simp_all add: c(1))
  have bag1: "glob_bag g1 = glob_bag g"
    unfolding g1_def by (rule glob_bag_upd [OF i]) (simp add: c(8))
  have i1: "i < length (scheds g1)" using i by (simp add: g1_def)
  have "glob_inv L (steal_work L i g1) \<and> glob_bag (steal_work L i g1) = glob_bag g1 \<and>
      length (scheds (steal_work L i g1)) = length (scheds g1)"
  proof (cases rule: steal_work_cases [OF inv1 i1])
    case 1
    then show ?thesis using inv1 by simp
  next
    case (2 j w idle t other)
    have "cpu_id (scheds g1 ! i) \<noteq> cpu_id (scheds g1 ! j)"
      using 2(2) by (simp add: can_steal_def)
    note s = steal_step_correct [OF inv1 i1 2(1) this 2(4) 2(5) 2(6)]
    show ?thesis using s(1,2,10) by simp
  qed
  then show "glob_inv L (schedule_workers L env i g)"
    "glob_bag (schedule_workers L env i g) = glob_bag g"
    "length (scheds (schedule_workers L env i g)) = length (scheds g)"
    using bag1 by (simp_all add: schedule_workers_def g1_def)
qed

text \<open>
  Work conservation: when all passes leave the runnable queue empty, nothing could have run.
\<close>

lemma schedule_workers_nothing:
  assumes inv: "glob_inv L g" and i: "i < length (scheds g)"
    and g': "g' = schedule_workers L env i g"
    and none: "\<not> has_runnable_workers L (scheds g' ! i)"
  shows "queue_of L (scheds g ! i) W_runnable = []"
    "queue_of L (scheds g ! i) W_yielded = []"
    "\<forall>w\<in>set (queue_of L (scheds g ! i) W_pending_io). \<not> io_done env (scheds g ! i) w"
    "\<forall>w\<in>set (queue_of L (scheds g ! i) W_waiting). \<not> wait_done env (scheds g ! i) w"
    "queue_of L (scheds g ! i) W_idle = [] \<or>
     (\<not> has_tasks (scheds g ! i) \<and> (\<forall>j<length (scheds g). \<not> can_steal g i j))"
    "g' = upd_sched i (schedule_local L env) g"
    "\<And>st. queue_of L (scheds g' ! i) st = queue_of L (scheds g ! i) st"
proof -
  define g1 where "g1 = upd_sched i (schedule_local L env) g"
  have si: "sched_inv L (scheds g ! i)" using inv i by (simp add: glob_inv_def)
  note c = schedule_local_correct [OF si refl refl refl, of env]
  have inv1: "glob_inv L g1"
    unfolding g1_def by (rule glob_inv_upd [OF inv]) (simp_all add: c(1))
  have i1: "i < length (scheds g1)" using i by (simp add: g1_def)
  have r: "queue_of L (scheds g' ! i) W_runnable = []" using none by (simp add: has_simps)
  have g'1: "g' = steal_work L i g1" by (simp add: g' schedule_workers_def g1_def)
  have eq: "g' = g1" and st: "queue_of L (scheds g1 ! i) W_idle = [] \<or>
      (\<forall>j<length (scheds g1). \<not> can_steal g1 i j)"
  proof (atomize (full), cases rule: steal_work_cases [OF inv1 i1])
    case 1
    then show "g' = g1 \<and> (queue_of L (scheds g1 ! i) W_idle = [] \<or>
      (\<forall>j<length (scheds g1). \<not> can_steal g1 i j))" using r g'1 by auto
  next
    case (2 j w idle t other)
    have "cpu_id (scheds g1 ! i) \<noteq> cpu_id (scheds g1 ! j)"
      using 2(2) by (simp add: can_steal_def)
    note s = steal_step_correct [OF inv1 i1 2(1) this 2(4) 2(5) 2(6)]
    show "g' = g1 \<and> (queue_of L (scheds g1 ! i) W_idle = [] \<or>
      (\<forall>j<length (scheds g1). \<not> can_steal g1 i j))" using s(3) r g'1 by simp
  qed
  then show "g' = upd_sched i (schedule_local L env) g" by (simp add: g1_def)
  have g1i: "scheds g1 ! i = schedule_local L env (scheds g ! i)" using i by (simp add: g1_def)
  note r1 = r [unfolded eq g1i c(2)]
  from r1 show e: "queue_of L (scheds g ! i) W_runnable = []"
    and y: "queue_of L (scheds g ! i) W_yielded = []"
    by simp_all
  from r1 show p: "\<forall>w\<in>set (queue_of L (scheds g ! i) W_pending_io). \<not> io_done env (scheds g ! i) w"
    and w: "\<forall>w\<in>set (queue_of L (scheds g ! i) W_waiting). \<not> wait_done env (scheds g ! i) w"
    by (auto simp: filter_empty_conv)
  have n: "queue_of L (scheds g ! i) W_idle = [] \<or> \<not> has_tasks (scheds g ! i)"
    using r1 by (auto split: if_splits)
  show q: "queue_of L (scheds g' ! i) st = queue_of L (scheds g ! i) st" for st
    using c(2,3,5,6,7) r1 e y n p w
    by (cases st) (auto simp: eq g1i queue_of_unparked filter_id_conv split: if_splits)
  have "can_steal g1 i j = can_steal g i j" if "j < length (scheds g)" for j
    using that i by (cases "j = i") (auto simp: can_steal_def g1_def)
  then show "queue_of L (scheds g ! i) W_idle = [] \<or>
     (\<not> has_tasks (scheds g ! i) \<and> (\<forall>j<length (scheds g). \<not> can_steal g i j))"
    using st n q [of W_idle] by (auto simp: eq g1_def)
qed

end

end
