(* ===== verification/Sleep.thy ===== *)
theory Sleep
  imports Schedulers_Inv
begin

text \<open>
  What \<open>sleep\<close> guarantees when it is reached, that is when the passes left no runnable worker:
  what is known of the scheduler when it blocks in either wait, and the assertion of
  \<open>should_exit\<close>.
\<close>

text \<open>The state in which \<open>sleep\<close> is called.\<close>

definition nothing_runnable :: "'q stl \<Rightarrow> 'q scheduler \<Rightarrow> bool" where
  "nothing_runnable L s \<longleftrightarrow> queue_of L s W_runnable = [] \<and> queue_of L s W_yielded = []"

definition all_workers_idle :: "'q scheduler \<Rightarrow> bool" where
  "all_workers_idle s \<longleftrightarrow> (\<forall>w<workers_size s. w_state (workers s w) = W_idle)"

lemma waiters_info_foldl:
  "wi_cond (foldl (\<lambda>r w. \<lparr>wi_cond = (wi_cond r \<or> check_cond (f w)),
      wi_earliest_wait = min (wi_earliest_wait r) (w_sleep_tp (f w))\<rparr>) r ws)
    \<longleftrightarrow> wi_cond r \<or> (\<exists>w\<in>set ws. w_cond (f w))"
  "tp \<le> wi_earliest_wait (foldl (\<lambda>r w. \<lparr>wi_cond = (wi_cond r \<or> check_cond (f w)),
      wi_earliest_wait = min (wi_earliest_wait r) (w_sleep_tp (f w))\<rparr>) r ws)
    \<longleftrightarrow> tp \<le> wi_earliest_wait r \<and> (\<forall>w\<in>set ws. tp \<le> w_sleep_tp (f w))"
  by (induction ws arbitrary: r) (auto simp: check_cond_def)

lemma waiters_info_cond:
  "wi_cond (waiters_info L s) \<longleftrightarrow> (\<exists>w\<in>set (queue_of L s W_waiting). w_cond (workers s w))"
  unfolding waiters_info_def waiters_info_foldl(1) by (simp add: queue_of.simps)

lemma waiters_info_earliest:
  "tp \<le> wi_earliest_wait (waiters_info L s) \<longleftrightarrow> tp \<le> tp_max L \<and>
    (\<forall>w\<in>set (queue_of L s W_waiting). tp \<le> w_sleep_tp (workers s w))"
  unfolding waiters_info_def waiters_info_foldl(2) by (simp add: queue_of.simps)

lemma waiters_info_le:
  "w \<in> set (queue_of L s W_waiting) \<Longrightarrow>
    wi_earliest_wait (waiters_info L s) \<le> w_sleep_tp (workers s w)"
  using waiters_info_earliest [of "wi_earliest_wait (waiters_info L s)" L s] by simp

text \<open>The idle timer is the only field that \<open>should_idle_spin\<close> writes.\<close>

lemma should_idle_spin_cases:
  assumes "should_idle_spin L t1 t2 s = (b, s')"
  obtains tp where "s' = s\<lparr>idle_start_time := tp\<rparr>"
proof
  show "s' = s\<lparr>idle_start_time := idle_start_time s'\<rparr>"
    using assms by (auto simp: should_idle_spin_def Let_def split: if_splits)
qed

text \<open>The state after \<open>sleep_enter\<close> for each of its three results.\<close>

fun sleep_result_state :: "sleep_result \<Rightarrow> 'q scheduler \<Rightarrow> time_point \<Rightarrow> 'q scheduler" where
  "sleep_result_state Sl_return s tp = s\<lparr>idle_start_time := tp\<rparr>"
| "sleep_result_state (Sl_wait_until _) s tp =
     s\<lparr>idle_start_time := tp, sch_state := S_idle_wait, sch_running := False\<rparr>"
| "sleep_result_state Sl_idle_sleep s tp =
     s\<lparr>idle_start_time := tp, sch_state := S_idle_sleep, sch_running := False\<rparr>"

lemma sleep_enter_state:
  assumes "sleep_enter L t1 t2 t3 s = (r, s')"
  shows "s' = sleep_result_state r s (idle_start_time s')"
proof (cases "has_pending_io_workers L s")
  case True
  then show ?thesis using assms by (simp add: sleep_enter_def)
next
  case False
  obtain b s1 where sp: "should_idle_spin L t1 t2 s = (b, s1)"
    by (cases "should_idle_spin L t1 t2 s")
  then obtain tp where s1: "s1 = s\<lparr>idle_start_time := tp\<rparr>" by (rule should_idle_spin_cases)
  note u = assms [unfolded sleep_enter_def sp Let_def prod.case]
  have "r = Sl_return \<and> s' = s1 \<or>
    (\<exists>e. r = Sl_wait_until e) \<and> s' = s1\<lparr>sch_state := S_idle_wait, sch_running := False\<rparr> \<or>
    r = Sl_idle_sleep \<and> s' = s1\<lparr>sch_state := S_idle_sleep, sch_running := False\<rparr>"
    using u False by (auto split: if_split_asm)
  then show ?thesis by (elim disjE conjE exE) (simp_all add: s1)
qed

text \<open>The tests of \<open>sleep\<close>, read off for the two results that block.\<close>

lemma sleep_enter_facts:
  assumes "sleep_enter L t1 t2 t3 s = (r, s')" and "r \<noteq> Sl_return"
  shows "\<not> has_pending_io_workers L s" "\<not> (has_tasks s \<and> has_idle_workers L s)"
    "\<not> (m_exit s \<and> \<not> has_waiting_workers L s \<and> \<not> has_tasks s)"
    "r = Sl_idle_sleep \<longleftrightarrow> \<not> has_waiting_workers L s"
    "r = Sl_wait_until e \<Longrightarrow>
      \<not> wi_cond (waiters_info L s) \<and> t3 < e \<and>
      e = wi_earliest_wait (waiters_info L s) - CFG_idle_sleep_threshold"
proof -
  obtain b s1 where sp: "should_idle_spin L t1 t2 s = (b, s1)"
    by (cases "should_idle_spin L t1 t2 s")
  then obtain tp where s1: "s1 = s\<lparr>idle_start_time := tp\<rparr>" by (rule should_idle_spin_cases)
  have f: "has_tasks s1 = has_tasks s" "has_idle_workers L s1 = has_idle_workers L s"
    "has_waiting_workers L s1 = has_waiting_workers L s" "m_exit s1 = m_exit s"
    "waiters_info L s1 = waiters_info L s"
    by (simp_all add: s1 has_tasks_def has_idle_workers_def has_waiting_workers_def waiters_info_def)
  note u = assms [unfolded sleep_enter_def sp Let_def prod.case f]
  show "\<not> has_pending_io_workers L s" using u assms(2) by (auto split: if_split_asm)
  show "\<not> (has_tasks s \<and> has_idle_workers L s)" using u assms(2) by (auto split: if_split_asm)
  show "\<not> (m_exit s \<and> \<not> has_waiting_workers L s \<and> \<not> has_tasks s)"
    using u assms(2) by (auto split: if_split_asm)
  show "r = Sl_idle_sleep \<longleftrightarrow> \<not> has_waiting_workers L s" using u assms(2) by (auto split: if_split_asm)
  show "r = Sl_wait_until e \<Longrightarrow> \<not> wi_cond (waiters_info L s) \<and> t3 < e \<and>
      e = wi_earliest_wait (waiters_info L s) - CFG_idle_sleep_threshold"
    using u assms(2) by (auto split: if_split_asm)
qed

context stl_laws
begin

lemma nothing_parked_idle:
  assumes inv: "sched_inv L s" and nr: "no_running s" and n: "nothing_runnable L s"
    and "queue_of L s W_waiting = []" and "queue_of L s W_pending_io = []"
  shows "all_workers_idle s"
  unfolding all_workers_idle_def
proof (intro allI impI)
  fix w assume w: "w < workers_size s"
  have p: "parked_state (w_state (workers s w))" using nr w by (simp add: no_running_def)
  then have "w \<in> set (queue_of L s (w_state (workers s w)))"
    using inv w by (simp add: sched_inv_def queues_wf_mem)
  then show "w_state (workers s w) = W_idle"
    using assms p by (cases "w_state (workers s w)") (auto simp: nothing_runnable_def)
qed

lemma idle_sleep_quiescent:
  assumes inv: "sched_inv L s" and nr: "no_running s" and n: "nothing_runnable L s"
    and sz: "0 < workers_size s" and e: "sleep_enter L t1 t2 t3 s = (Sl_idle_sleep, s')"
  shows "all_workers_idle s'" "\<not> has_tasks s'" "\<not> m_exit s'" "sch_state s' = S_idle_sleep"
    "\<not> sch_running s'"
proof -
  note f = sleep_enter_facts [OF e, simplified]
  have s': "s' = s\<lparr>idle_start_time := idle_start_time s', sch_state := S_idle_sleep,
      sch_running := False\<rparr>"
    using sleep_enter_state [OF e] by simp
  have a: "all_workers_idle s"
    using nothing_parked_idle [OF inv nr n] f by (simp add: has_simps)
  then show "all_workers_idle s'" by (subst s') (simp add: all_workers_idle_def)
  have "0 \<in> set (queue_of L s W_idle)"
    using a sz inv by (simp add: sched_inv_def queues_wf_mem all_workers_idle_def)
  then have "has_idle_workers L s" by (auto simp: has_simps)
  then have t: "\<not> has_tasks s" using f(2) by simp
  then show "\<not> has_tasks s'" by (subst s') (simp add: has_tasks_def)
  show "\<not> m_exit s'" using f(3,4) t by (subst s') simp
  show "sch_state s' = S_idle_sleep" by (subst s') simp
  show "\<not> sch_running s'" by (subst s') simp
qed

end

section \<open>One iteration of the main loop\<close>

text \<open>Scheduler \<open>i\<close> is inside \<open>schedule\<close>: all its workers are parked.\<close>

definition scheduling :: "'q stl \<Rightarrow> 'q schedulers \<Rightarrow> nat \<Rightarrow> bool" where
  "scheduling L g i \<longleftrightarrow> glob_inv L g \<and> i < length (scheds g) \<and> no_running (scheds g ! i)"

lemma no_running_queues:
  assumes "queues_wf L s"
  shows "no_running s \<longleftrightarrow> (\<forall>w<workers_size s. \<exists>st. w \<in> set (queue_of L s st))"
proof -
  have "parked_state (w_state (workers s w)) \<longleftrightarrow> (\<exists>st. w \<in> set (queue_of L s st))"
    if "w < workers_size s" for w
    using that assms queue_of_unparked [of _ L s]
    by (metis empty_iff list.set(1) queues_wf_mem)
  then show ?thesis by (auto simp: no_running_def)
qed

context stl_laws
begin

lemma schedule_local_no_running:
  assumes inv: "sched_inv L s" and nr: "no_running s"
  shows "no_running (schedule_local L env s)"
proof -
  let ?s' = "schedule_local L env s"
  note c = schedule_local_correct [OF inv refl refl refl, of env]
  have wf: "queues_wf L s" and wf': "queues_wf L ?s'" using inv c(1) by (simp_all add: sched_inv_def)
  have "\<exists>st. w \<in> set (queue_of L ?s' st)" if w: "w \<in> set (queue_of L s st)" for w st
  proof (cases st)
    case W_idle
    show ?thesis
    proof (cases "w \<in> set (queue_of L ?s' W_idle)")
      case False
      then have "w \<in> set (queue_of L ?s' W_runnable)"
        using w unfolding W_idle c(2,3)
        by (cases "queue_of L s W_idle") (auto split: if_splits)
      then show ?thesis by blast
    qed blast
  next
    case W_runnable
    then have "w \<in> set (queue_of L ?s' W_runnable)" using w unfolding c(2) by simp
    then show ?thesis by blast
  next
    case W_yielded
    then have "w \<in> set (queue_of L ?s' W_runnable)" using w unfolding c(2) by simp
    then show ?thesis by blast
  next
    case W_waiting
    then have "w \<in> set (queue_of L ?s' W_runnable) \<or> w \<in> set (queue_of L ?s' W_waiting)"
      using w unfolding c(2,6) by auto
    then show ?thesis by blast
  next
    case W_pending_io
    then have "w \<in> set (queue_of L ?s' W_runnable) \<or> w \<in> set (queue_of L ?s' W_pending_io)"
      using w unfolding c(2,5) by auto
    then show ?thesis by blast
  qed (use w in \<open>auto simp: queue_of_unparked\<close>)
  then show ?thesis using nr unfolding no_running_queues [OF wf] no_running_queues [OF wf'] c(9)
    by blast
qed

lemma schedule_workers_scheduling:
  assumes sc: "scheduling L g i"
  shows "scheduling L (schedule_workers L env i g) i"
proof -
  define g1 where "g1 = upd_sched i (schedule_local L env) g"
  have inv: "glob_inv L g" and i: "i < length (scheds g)" and nr: "no_running (scheds g ! i)"
    using sc by (auto simp: scheduling_def)
  have si: "sched_inv L (scheds g ! i)" using inv i by (simp add: glob_inv_def)
  note c = schedule_local_correct [OF si refl refl refl, of env]
  have inv1: "glob_inv L g1"
    unfolding g1_def by (rule glob_inv_upd [OF inv]) (simp_all add: c(1))
  have i1: "i < length (scheds g1)" using i by (simp add: g1_def)
  have nr1: "no_running (scheds g1 ! i)"
    using schedule_local_no_running [OF si nr] i by (simp add: g1_def)
  have "no_running (scheds (steal_work L i g1) ! i)"
  proof (cases rule: steal_work_cases [OF inv1 i1])
    case 1
    then show ?thesis using nr1 by simp
  next
    case (2 j w idle t other)
    have ij: "cpu_id (scheds g1 ! i) \<noteq> cpu_id (scheds g1 ! j)"
      using 2(2) by (simp add: can_steal_def)
    then have ne: "i \<noteq> j" by auto
    have "scheds (steal_work L i g1) ! i = schedule_idle_worker L (Some t) (scheds g1 ! i)"
      using 2(6) ne i1 by simp
    moreover have "sched_inv L (scheds g1 ! i)" using inv1 i1 by (simp add: glob_inv_def)
    moreover have "case Some t of Some t' \<Rightarrow> t = t' \<and>
        m_tasks (sch_tasks (scheds g1 ! i)) = m_tasks (sch_tasks (scheds g1 ! i))
      | None \<Rightarrow> m_tasks (sch_tasks (scheds g1 ! i)) = t # m_tasks (sch_tasks (scheds g1 ! i))"
      by simp
    ultimately show ?thesis
      using schedule_idle_worker_correct(4,7) [OF _ 2(4) _ refl] nr1
      by (auto simp: no_running_def)
  qed
  then show ?thesis
    using schedule_workers_inv [OF inv i, of env] i
    by (simp add: scheduling_def schedule_workers_def g1_def)
qed

lemma prepare_exec_frame [simp]:
  "cpu_id (prepare_exec L s) = cpu_id s" "yielded_worker (prepare_exec L s) = yielded_worker s"
  by (simp_all add: prepare_exec_def prepare_next_worker_def invalidate_idle_timer_def park_defs Let_def)

lemma park_worker_cpu [simp]: "cpu_id (park_worker L ctx w s) = cpu_id s"
  by (cases ctx) (simp_all add: park_worker_def park_defs)

lemma schedule_workers_yielded:
  assumes sc: "scheduling L g i"
  shows "queue_of L (scheds (schedule_workers L env i g) ! i) W_yielded = []"
proof -
  define g1 where "g1 = upd_sched i (schedule_local L env) g"
  have inv: "glob_inv L g" and i: "i < length (scheds g)" using sc by (auto simp: scheduling_def)
  have si: "sched_inv L (scheds g ! i)" using inv i by (simp add: glob_inv_def)
  note c = schedule_local_correct [OF si refl refl refl, of env]
  have inv1: "glob_inv L g1"
    unfolding g1_def by (rule glob_inv_upd [OF inv]) (simp_all add: c(1))
  have i1: "i < length (scheds g1)" using i by (simp add: g1_def)
  have y: "queue_of L (scheds g1 ! i) W_yielded = []" using i c(7) by (simp add: g1_def)
  show ?thesis
  proof (cases rule: steal_work_cases [OF inv1 i1])
    case 1
    then show ?thesis using y by (simp add: schedule_workers_def g1_def)
  next
    case (2 j w idle t other)
    have "cpu_id (scheds g1 ! i) \<noteq> cpu_id (scheds g1 ! j)"
      using 2(2) by (simp add: can_steal_def)
    note s = steal_step_correct(5) [OF inv1 i1 2(1) this 2(4) 2(5) 2(6), of W_yielded]
    show ?thesis using s y by (simp add: schedule_workers_def g1_def)
  qed
qed

lemma yielded_None: "queue_of L s W_yielded = [] \<longleftrightarrow> yielded_worker s = None"
  by (simp add: queue_of.simps split: option.splits)

lemma schedule_iter_run:
  assumes sc: "scheduling L g i" and run: "schedule_iter L env t1 t2 t3 i g = (It_run, g')"
  shows "glob_inv L g' \<and> glob_bag g' = glob_bag g \<and> length (scheds g') = length (scheds g) \<and>
    yielded_worker (scheds g' ! i) = None \<and>
    (\<exists>w'. executing w' (scheds g' ! i) \<and> w_task (workers (scheds g' ! i) w') \<noteq> None)"
proof -
  define g1 where "g1 = schedule_workers L env i g"
  have inv: "glob_inv L g" and i: "i < length (scheds g)" using sc by (auto simp: scheduling_def)
  note sw = schedule_workers_inv [OF inv i, of env, folded g1_def]
  have sc1: "scheduling L g1 i" unfolding g1_def by (rule schedule_workers_scheduling [OF sc])
  then have si: "sched_inv L (scheds g1 ! i)" and nr: "no_running (scheds g1 ! i)"
    and i1: "i < length (scheds g1)"
    by (auto simp: scheduling_def glob_inv_def)
  have r: "has_runnable_workers L (scheds g1 ! i)" and g': "g' = upd_sched i (prepare_exec L) g1"
    using run by (auto simp: schedule_iter_def Let_def g1_def after_sleep_def
        split: if_splits prod.splits sleep_result.splits option.splits bool.splits)
  obtain w rest where w: "queue_of L (scheds g1 ! i) W_runnable = w # rest"
    using r by (cases "queue_of L (scheds g1 ! i) W_runnable") (auto simp: has_simps)
  note p = prepare_exec_correct [OF si nr w refl]
  have "glob_inv L g'" unfolding g'
    by (rule glob_inv_upd [OF sw(1)]) (use p(1) in simp_all)
  moreover have "task_bag (prepare_exec L (scheds g1 ! i)) = task_bag (scheds g1 ! i)"
    using p(7,8,9) by (auto simp: task_bag_def intro!: assigned_tasks_cong)
  then have "glob_bag g' = glob_bag g1"
    unfolding g' by (intro glob_bag_upd i1) simp
  moreover have "yielded_worker (scheds g1 ! i) = None"
    using schedule_workers_yielded [OF sc, of env] by (simp add: g1_def yielded_None)
  ultimately show ?thesis using sw p(2,5) i1 by (auto simp: g')
qed

lemma park_glob:
  assumes inv: "glob_inv L g" and i: "i < length (scheds g)"
    and ex: "executing w (scheds g ! i)" "yielded_worker (scheds g ! i) = None"
    and ok: "ctx_ok ctx (workers (scheds g ! i) w)"
  shows "scheduling L (upd_sched i (park_worker L ctx w) g) i"
    "glob_bag (upd_sched i (park_worker L ctx w) g) = glob_bag g"
proof -
  have si: "sched_inv L (scheds g ! i)" using inv i by (simp add: glob_inv_def)
  note p = park_worker_correct [OF si ex ok refl]
  have "glob_inv L (upd_sched i (park_worker L ctx w) g)"
    by (rule glob_inv_upd [OF inv]) (use p(1) in simp_all)
  then show "scheduling L (upd_sched i (park_worker L ctx w) g) i"
    using p(2) i by (simp add: scheduling_def)
  have "task_bag (park_worker L ctx w (scheds g ! i)) = task_bag (scheds g ! i)"
    using p(5,6,7) by (auto simp: task_bag_def intro!: assigned_tasks_cong)
  then show "glob_bag (upd_sched i (park_worker L ctx w) g) = glob_bag g"
    by (intro glob_bag_upd i) simp
qed

end

end
