(* ===== verification/Worker_Api.thy ===== *)
theory Worker_Api
  imports Sleep
begin

text \<open>
  The operations of \<open>worker.cpp\<close> that a task calls on the worker that executes it: yielding,
  waiting and sleeping, reading and writing files, and the part of \<open>Worker::main_loop\<close> that
  follows the execution of a task. Each ends, or does not end, in the first half of
  \<open>Scheduler::sync\<close>, which parks the worker; the second half, which chooses the next worker, is
  in the theory Runtime. The flag of the result says whether the worker has been parked.
\<close>

section \<open>Operations\<close>

definition Worker_yield :: "'q stl \<Rightarrow> nat \<Rightarrow> 'q scheduler \<Rightarrow> bool \<times> 'q scheduler" where
  "Worker_yield L w s = (True, park_worker L Ctx_yield w s)"

text \<open>\<open>t\<close> is the reading of the clock in \<open>check_wait_info\<close>.\<close>

definition wait_cond_or_sleep ::
  "'q stl \<Rightarrow> time_point \<Rightarrow> nat \<Rightarrow> 'q scheduler \<Rightarrow> bool \<times> 'q scheduler" where
  "wait_cond_or_sleep L t w s =
     (if \<not> check_wait_info t (workers s w) then (True, park_worker L Ctx_wait w s)
      else (False, s))"

definition sleep_until_internal ::
  "'q stl \<Rightarrow> time_point \<Rightarrow> time_point \<Rightarrow> nat \<Rightarrow> 'q scheduler \<Rightarrow> bool \<times> 'q scheduler" where
  "sleep_until_internal L tp t w s =
     wait_cond_or_sleep L t w (upd_worker w (set_wait_info False tp) s)"

text \<open>\<open>sleep_for\<close> adds the reading of the clock, here the first argument.\<close>

definition sleep_for ::
  "'q stl \<Rightarrow> time_point \<Rightarrow> time_point \<Rightarrow> time_point \<Rightarrow> nat \<Rightarrow> 'q scheduler \<Rightarrow>
   bool \<times> 'q scheduler" where
  "sleep_for L t0 d t w s = sleep_until_internal L (t0 + d) t w s"

text \<open>
  What \<open>read_file\<close> and \<open>write_file\<close> have in common once the request exists: it is stored, and the
  worker is parked if it is pending.
\<close>

definition start_io ::
  "'q stl \<Rightarrow> io_request \<Rightarrow> nat \<Rightarrow> 'q scheduler \<Rightarrow> bool \<times> 'q scheduler" where
  "start_io L r w s =
     (let s1 = upd_worker w (\<lambda>x. x\<lparr>w_io := Some r\<rparr>) s
      in if io_state r = Io_pending then (True, park_worker L Ctx_io w s1) else (False, s1))"

text \<open>\<open>None\<close> is a failed assertion in the submission of the request, as in \<open>IO_Request\<close>.\<close>

definition Worker_read_file ::
  "'q stl \<Rightarrow> (io_request \<Rightarrow> io_request option) \<Rightarrow> (io_request \<Rightarrow> io_request option) \<Rightarrow>
   u64 \<Rightarrow> u64 \<Rightarrow> u64 \<Rightarrow> u64 \<Rightarrow> u64 \<Rightarrow> nat \<Rightarrow> 'q scheduler \<Rightarrow> (bool \<times> 'q scheduler) option" where
  "Worker_read_file L rd wr h fh buf sz off w s =
     map_option (\<lambda>r. start_io L r w s) (IO_Request rd wr h fh buf sz off Io_read)"

definition Worker_write_file ::
  "'q stl \<Rightarrow> (io_request \<Rightarrow> io_request option) \<Rightarrow> (io_request \<Rightarrow> io_request option) \<Rightarrow>
   u64 \<Rightarrow> u64 \<Rightarrow> u64 \<Rightarrow> u64 \<Rightarrow> u64 \<Rightarrow> nat \<Rightarrow> 'q scheduler \<Rightarrow> (bool \<times> 'q scheduler) option" where
  "Worker_write_file L rd wr h fh buf sz off w s =
     map_option (\<lambda>r. start_io L r w s) (IO_Request rd wr h fh buf sz off Io_write)"

text \<open>
  The rest of an iteration of \<open>main_loop\<close> once the task is done and its waiters are notified: the
  task is released and the worker calls \<open>sync<main>\<close> again.
\<close>

definition finish_task :: "'q stl \<Rightarrow> nat \<Rightarrow> 'q scheduler \<Rightarrow> bool \<times> 'q scheduler" where
  "finish_task L w s = (True, park_worker L Ctx_main w (upd_worker w (\<lambda>x. x\<lparr>w_task := None\<rparr>) s))"

text \<open>The destructor, up to the join with the thread.\<close>

definition Worker_dtor :: "worker \<Rightarrow> worker" where
  "Worker_dtor x = Worker_notify (set_state W_exiting x)"

section \<open>The namespace \<open>worker\<close>\<close>

text \<open>
  The same through the thread-local pointer, which is null (\<open>None\<close>) outside a worker; there the call
  dereferences it, and \<open>None\<close> is that undefined behaviour.
\<close>

definition worker_get :: "nat option \<Rightarrow> nat option" where
  "worker_get this_worker = this_worker"

definition worker_get_id :: "nat option \<Rightarrow> u64 option" where
  "worker_get_id this_worker = map_option of_nat this_worker"

definition worker_yield ::
  "'q stl \<Rightarrow> nat option \<Rightarrow> 'q scheduler \<Rightarrow> (bool \<times> 'q scheduler) option" where
  "worker_yield L this_worker s = map_option (\<lambda>w. Worker_yield L w s) this_worker"

definition worker_sleep_until ::
  "'q stl \<Rightarrow> time_point \<Rightarrow> time_point \<Rightarrow> nat option \<Rightarrow> 'q scheduler \<Rightarrow> (bool \<times> 'q scheduler) option"
where
  "worker_sleep_until L tp t this_worker s =
     map_option (\<lambda>w. sleep_until_internal L tp t w s) (worker_get this_worker)"

definition worker_sleep_for ::
  "'q stl \<Rightarrow> time_point \<Rightarrow> int \<Rightarrow> time_point \<Rightarrow> nat option \<Rightarrow> 'q scheduler \<Rightarrow>
   (bool \<times> 'q scheduler) option"
where
  "worker_sleep_for L t0 d t this_worker s =
     map_option (\<lambda>w. sleep_for L t0 d t w s) (worker_get this_worker)"

definition cos_read_file ::
  "'q stl \<Rightarrow> (io_request \<Rightarrow> io_request option) \<Rightarrow> (io_request \<Rightarrow> io_request option) \<Rightarrow>
   u64 \<Rightarrow> u64 \<Rightarrow> u64 \<Rightarrow> u64 \<Rightarrow> u64 \<Rightarrow> nat option \<Rightarrow> 'q scheduler \<Rightarrow> (bool \<times> 'q scheduler) option"
where
  "cos_read_file L rd wr h fh buf sz off this_worker s = (case worker_get this_worker of
     None \<Rightarrow> None | Some w \<Rightarrow> Worker_read_file L rd wr h fh buf sz off w s)"

definition cos_write_file ::
  "'q stl \<Rightarrow> (io_request \<Rightarrow> io_request option) \<Rightarrow> (io_request \<Rightarrow> io_request option) \<Rightarrow>
   u64 \<Rightarrow> u64 \<Rightarrow> u64 \<Rightarrow> u64 \<Rightarrow> u64 \<Rightarrow> nat option \<Rightarrow> 'q scheduler \<Rightarrow> (bool \<times> 'q scheduler) option"
where
  "cos_write_file L rd wr h fh buf sz off this_worker s = (case worker_get this_worker of
     None \<Rightarrow> None | Some w \<Rightarrow> Worker_write_file L rd wr h fh buf sz off w s)"

text \<open>A sleep until a time that has come does not park the worker; a later one does.\<close>

lemma worker_sleep_parks:
  "map_option fst (worker_sleep_until L tp t (Some w) s) = Some (t < tp)"
  by (auto simp: worker_sleep_until_def worker_get_def sleep_until_internal_def wait_cond_or_sleep_def
      upd_worker_def check_wait_info_def check_cond_def check_sleep_def set_wait_info_def
      clear_cond_def set_cond_def set_sleep_def)

section \<open>What they keep\<close>

text \<open>
  An update of the executing worker that leaves its state alone: its queues, its load and the
  other workers are not affected.
\<close>

lemma upd_worker_executing:
  assumes ex: "executing w s" and st: "\<And>x. w_state (f x) = w_state x"
  shows "executing w (upd_worker w f s)" "\<And>q. queue_of L (upd_worker w f s) q = queue_of L s q"
    "sched_inv L s \<Longrightarrow> sched_inv L (upd_worker w f s)"
proof -
  let ?s = "upd_worker w f s"
  show "executing w ?s" using ex by (auto simp: executing_def upd_worker_def st)
  show q: "queue_of L ?s q = queue_of L s q" for q
    by (cases q) (simp_all add: upd_worker_def queue_of.simps)
  have "w_state (f (workers s w)) = W_running" using ex by (simp add: st executing_def)
  then have "worker_linked (f (workers s w))" by (simp add: worker_linked_def)
  then show "sched_inv L ?s" if "sched_inv L s"
    by (intro sched_inv_cong [OF that])
      (use that q st in \<open>auto simp: upd_worker_def sched_inv_def workers_linked_def\<close>)
qed

end
