(* ===== verification/Runtime.thy ===== *)
theory Runtime
  imports Worker_Api
begin

text \<open>
  The whole program: all schedulers at once, each in some phase of \<open>Scheduler::schedule\<close> or
  executing a task, and the main thread in \<open>init_ums\<close>. The steps are the reads and writes of what
  schedulers share (task queues, loads, conditions of waiting workers, the counters and flags of
  \<open>Schedulers\<close>), so tasks can be stolen or submitted, and waiters be notified, between any two of
  them. What a step does is computed by the definitions of the theories Scheduler, Schedulers and
  Worker_Api; this theory only says which of them a thread executes next.

  A critical section under \<open>m_mtx\<close> is one step: the end of \<open>sleep\<close> from taking the lock to blocking,
  the return from a wait, \<open>notify\<close>, and the final check of \<open>all_idle\<close>, which holds all the locks.
  A pass over one queue of workers is one step too; those queues belong to the scheduler itself.
\<close>

section \<open>State\<close>

text \<open>
  Where the thread is that holds the baton of a scheduler. \<open>Ph_exec\<close>: its current worker executes a
  task. \<open>Ph_notify j\<close>: the same, in the middle of a call that has still to notify scheduler \<open>j\<close>.
  Then the loop of \<open>schedule\<close>, in order; the lists are the schedulers that \<open>steal_work\<close> has still to
  look at. The flag of the two waits says whether the condition variable has been signalled since
  the thread blocked. \<open>Ph_assert\<close>: the assertion in \<open>should_exit\<close> has failed.
\<close>

datatype phase =
    Ph_exec | Ph_notify nat
  | Ph_io | Ph_waiting | Ph_new | Ph_take | Ph_yielded
  | Ph_steal "nat list" | Ph_grab nat "nat list"
  | Ph_choose | Ph_sleep | Ph_wait time_point bool | Ph_idle bool | Ph_check
  | Ph_exited | Ph_assert

text \<open>
  The main thread in \<open>init_ums\<close>: the two halves of submitting the first task, \<open>wait_exit\<close>, and the
  destruction of one scheduler after the other with its workers. In \<open>wait_exit\<close> it evaluates the
  predicate of the wait (\<open>Mp_wait\<close>), whose call of \<open>all_idle\<close> has three stages and is made with the
  mutex of \<open>Schedulers\<close> unlocked. When \<open>all_idle\<close> has returned false (\<open>Mp_relock\<close>), the mutex is
  locked again and the thread blocks (\<open>Mp_blocked\<close>), as it does when the predicate is false at once.
\<close>

datatype main_phase =
    Mp_async task_id | Mp_notify nat
  | Mp_wait | Mp_count | Mp_scan "nat list" | Mp_locked | Mp_relock | Mp_blocked
  | Mp_signal nat | Mp_wake nat | Mp_join nat "nat list" | Mp_joining nat nat "nat list" | Mp_done

text \<open>The last two fields are ghosts: the tasks submitted and the tasks finished so far.\<close>

record 'q runtime =
  rt_g :: "'q schedulers"
  rt_ph :: "nat \<Rightarrow> phase"
  rt_main :: main_phase
  rt_sub :: "task_id multiset"
  rt_fin :: "task_id multiset"

section \<open>One scheduler in \<open>schedule\<close>\<close>

text \<open>The end of \<open>sync\<close>: the next worker is chosen and the baton handed to it.\<close>

definition run_next :: "'q stl \<Rightarrow> 'q scheduler \<Rightarrow> 'q scheduler" where
  "run_next L s = (case m_worker s of
       None \<Rightarrow> prepare_exec L s
     | Some w \<Rightarrow> sync_finish w (prepare_exec L s))"

text \<open>
  \<open>None\<close>: the thread is blocked, or not in \<open>schedule\<close>. \<open>env\<close> and the three clock readings are those
  of the calls that the step makes.
\<close>

fun sched_step ::
  "'q stl \<Rightarrow> sched_env \<Rightarrow> time_point \<Rightarrow> time_point \<Rightarrow> time_point \<Rightarrow> nat \<Rightarrow> phase \<Rightarrow> 'q schedulers \<Rightarrow>
   (phase \<times> 'q schedulers) option"
where
  "sched_step L env t1 t2 t3 i Ph_io g = Some (Ph_waiting, upd_sched i (schedule_io_workers L env) g)"
| "sched_step L env t1 t2 t3 i Ph_waiting g =
     Some (Ph_new, upd_sched i (schedule_waiting_workers L env) g)"
| "sched_step L env t1 t2 t3 i Ph_new g =
     (let s = scheds g ! i
      in Some (if \<not> has_runnable_workers L s \<and> has_idle_workers L s \<and> has_tasks s
               then Ph_take else Ph_yielded, g))"
| "sched_step L env t1 t2 t3 i Ph_take g =
     Some (Ph_yielded, upd_sched i (schedule_idle_worker L None) g)"
| "sched_step L env t1 t2 t3 i Ph_yielded g =
     (let s = schedule_yielded_workers L (scheds g ! i)
      in Some (if \<not> FS_work_stealing_allowed \<or> has_runnable_workers L s \<or> \<not> has_idle_workers L s
               then Ph_choose else Ph_steal [0 ..< length (scheds g)], upd_sched i (\<lambda>_. s) g))"
| "sched_step L env t1 t2 t3 i (Ph_steal []) g = Some (Ph_choose, g)"
| "sched_step L env t1 t2 t3 i (Ph_steal (j # js)) g =
     Some (if cpu_id (scheds g ! i) \<noteq> cpu_id (scheds g ! j) \<and> has_stealable_work (scheds g ! j)
           then Ph_grab j js else Ph_steal js, g)"
| "sched_step L env t1 t2 t3 i (Ph_grab j js) g =
     (case next_task (scheds g ! j) of
        (Some t, s') \<Rightarrow>
          Some (Ph_choose, upd_sched i (schedule_idle_worker L (Some t)) (upd_sched j (\<lambda>_. s') g))
      | (None, s') \<Rightarrow> Some (Ph_steal js, upd_sched j (\<lambda>_. s') g))"
| "sched_step L env t1 t2 t3 i Ph_choose g =
     Some (if has_runnable_workers L (scheds g ! i) then (Ph_exec, upd_sched i (run_next L) g)
           else (Ph_sleep, g))"
| "sched_step L env t1 t2 t3 i Ph_sleep g =
     Some (case sleep_enter L t1 t2 t3 (scheds g ! i) of
        (Sl_return, s) \<Rightarrow> (Ph_check, upd_sched i (\<lambda>_. s) g)
      | (Sl_wait_until tp, s) \<Rightarrow> (Ph_wait tp False, upd_sched i (\<lambda>_. s) g)
      | (Sl_idle_sleep, s) \<Rightarrow> (Ph_idle False, signal_idle (upd_sched i (\<lambda>_. s) g)))"
| "sched_step L env t1 t2 t3 i (Ph_wait tp woken) g =
     (if woken \<and> sch_running (scheds g ! i) \<or> t3 \<ge> tp
      then Some (Ph_check, upd_sched i wait_until_done g)
      else if woken then Some (Ph_wait tp False, g) else None)"
| "sched_step L env t1 t2 t3 i (Ph_idle woken) g =
     (if \<not> woken then None
      else if idle_sleep_ready (scheds g ! i)
        then Some (Ph_check, upd_sched i idle_sleep_done (signal_running g))
        else Some (Ph_idle False, g))"
| "sched_step L env t1 t2 t3 i Ph_check g =
     Some (case should_exit L (scheds g ! i) of
        None \<Rightarrow> (Ph_assert, g)
      | Some True \<Rightarrow> (Ph_exited, upd_sched i exit_sched g)
      | Some False \<Rightarrow> (Ph_io, g))"
| "sched_step L env t1 t2 t3 i Ph_exec g = None"
| "sched_step L env t1 t2 t3 i (Ph_notify j) g = None"
| "sched_step L env t1 t2 t3 i Ph_exited g = None"
| "sched_step L env t1 t2 t3 i Ph_assert g = None"

section \<open>The task that a worker executes\<close>

text \<open>
  What a task may do: yield; set or clear its wait info and wait (as the condition variable does);
  sleep; start an I/O request; submit a task, to the scheduler of least load (the loads are read one
  after the other while they change, so it may be any scheduler); set the condition of a worker; end.
\<close>

datatype user_op =
    U_yield | U_wait_info bool time_point | U_clear_wait | U_wait time_point
  | U_sleep time_point time_point | U_io io_request
  | U_async task_id nat | U_notify_waiter nat nat | U_done

text \<open>The first half of \<open>enqueue_task\<close>; the second is \<open>notify\<close>. The deque never holds 2^64 tasks.\<close>

definition push_task :: "task_id \<Rightarrow> 'q scheduler \<Rightarrow> 'q scheduler" where
  "push_task t s = s\<lparr>sch_tasks := Tasks_enque t (sch_tasks s)\<rparr>"

definition can_push :: "'q schedulers \<Rightarrow> nat \<Rightarrow> bool" where
  "can_push g j \<longleftrightarrow>
     j < length (scheds g) \<and> Suc (length (m_tasks (sch_tasks (scheds g ! j)))) < 2 ^ 64"

definition resume :: "nat \<Rightarrow> 'q schedulers \<Rightarrow> bool \<times> 'q scheduler \<Rightarrow> (phase \<times> 'q schedulers) option" where
  "resume i g r = Some (if fst r then Ph_io else Ph_exec, upd_sched i (\<lambda>_. snd r) g)"

fun user_step ::
  "'q stl \<Rightarrow> nat \<Rightarrow> nat \<Rightarrow> user_op \<Rightarrow> 'q schedulers \<Rightarrow> (phase \<times> 'q schedulers) option"
where
  "user_step L i w U_yield g = resume i g (Worker_yield L w (scheds g ! i))"
| "user_step L i w (U_wait_info b tp) g =
     resume i g (False, upd_worker w (set_wait_info b tp) (scheds g ! i))"
| "user_step L i w U_clear_wait g =
     resume i g (False, upd_worker w (clear_wait_info L) (scheds g ! i))"
| "user_step L i w (U_wait t) g = resume i g (wait_cond_or_sleep L t w (scheds g ! i))"
| "user_step L i w (U_sleep tp t) g = resume i g (sleep_until_internal L tp t w (scheds g ! i))"
| "user_step L i w (U_io r) g = resume i g (start_io L r w (scheds g ! i))"
| "user_step L i w (U_async t j) g =
     (if can_push g j then Some (Ph_notify j, upd_sched j (push_task t) g) else None)"
| "user_step L i w (U_notify_waiter j v) g =
     (if j < length (scheds g) \<and> v < workers_size (scheds g ! j)
      then Some (Ph_notify j, upd_sched j (upd_worker v set_cond) g) else None)"
| "user_step L i w U_done g = resume i g (finish_task L w (scheds g ! i))"

section \<open>The main thread\<close>

text \<open>\<open>notify\<close> signals the condition variable on which the scheduler may be blocked.\<close>

fun wake :: "phase \<Rightarrow> phase" where
  "wake (Ph_wait tp woken) = Ph_wait tp True"
| "wake (Ph_idle woken) = Ph_idle True"
| "wake p = p"

definition deliver :: "nat \<Rightarrow> 'q runtime \<Rightarrow> 'q runtime" where
  "deliver j c = c\<lparr>rt_g := upd_sched j notify_sched (rt_g c),
     rt_ph := (rt_ph c)(j := wake (rt_ph c j))\<rparr>"

text \<open>
  The predicate of \<open>wait_exit\<close> clears \<open>m_check_idle\<close> and evaluates \<open>all_idle\<close> in three stages: the
  counter, the queues one by one, and the states under all locks. A blocked thread evaluates it again
  only when the condition variable has been signalled since it blocked. \<open>j\<close> is the scheduler that
  the first task goes to.
\<close>

definition main_block :: "'q runtime \<Rightarrow> 'q runtime" where
  "main_block c = c\<lparr>rt_g := (rt_g c)\<lparr>cv_signalled := False\<rparr>, rt_main := Mp_blocked\<rparr>"

fun main_step :: "nat \<Rightarrow> main_phase \<Rightarrow> 'q runtime \<Rightarrow> 'q runtime option" where
  "main_step j (Mp_async t) c =
     (if can_push (rt_g c) j then
        Some (c\<lparr>rt_g := upd_sched j (push_task t) (rt_g c), rt_main := Mp_notify j,
          rt_sub := add_mset t (rt_sub c)\<rparr>)
      else None)"
| "main_step j (Mp_notify k) c = Some ((deliver k c)\<lparr>rt_main := Mp_wait\<rparr>)"
| "main_step j Mp_wait c =
     (if check_idle (rt_g c)
      then Some (c\<lparr>rt_g := (rt_g c)\<lparr>check_idle := False\<rparr>, rt_main := Mp_count\<rparr>)
      else Some (main_block c))"
| "main_step j Mp_count c =
     Some (c\<lparr>rt_main := if unat (idle_schedulers (rt_g c)) < length (scheds (rt_g c)) then Mp_relock
       else Mp_scan [0 ..< length (scheds (rt_g c))]\<rparr>)"
| "main_step j (Mp_scan []) c = Some (c\<lparr>rt_main := Mp_locked\<rparr>)"
| "main_step j (Mp_scan (k # ks)) c =
     Some (c\<lparr>rt_main := if has_tasks (scheds (rt_g c) ! k) then Mp_relock else Mp_scan ks\<rparr>)"
| "main_step j Mp_locked c =
     Some (c\<lparr>rt_main := if list_all (\<lambda>s. sched_idle s \<and> \<not> has_tasks s) (scheds (rt_g c))
       then Mp_signal 0 else Mp_relock\<rparr>)"
| "main_step j Mp_relock c = Some (main_block c)"
| "main_step j Mp_blocked c =
     (if cv_signalled (rt_g c)
      then Some (c\<lparr>rt_g := (rt_g c)\<lparr>cv_signalled := False\<rparr>, rt_main := Mp_wait\<rparr>) else None)"
| "main_step j (Mp_signal k) c =
     (if k < length (scheds (rt_g c))
      then Some (c\<lparr>rt_g := upd_sched k signal_exit (rt_g c), rt_main := Mp_wake k\<rparr>)
      else Some (c\<lparr>rt_main := Mp_done\<rparr>))"
| "main_step j (Mp_wake k) c =
     Some ((deliver k c)\<lparr>rt_main := Mp_join k [0 ..< workers_size (scheds (rt_g c) ! k)]\<rparr>)"
| "main_step j (Mp_join k []) c = Some (c\<lparr>rt_main := Mp_signal (Suc k)\<rparr>)"
| "main_step j (Mp_join k (w # ws)) c =
     Some (c\<lparr>rt_g := upd_sched k (upd_worker w Worker_dtor) (rt_g c), rt_main := Mp_joining k w ws\<rparr>)"
| "main_step j (Mp_joining k w ws) c =
     (if m_worker (scheds (rt_g c) ! k) = Some w \<and> rt_ph c k \<noteq> Ph_exited then None
      else Some (c\<lparr>rt_main := Mp_join k ws\<rparr>))"
| "main_step j Mp_done c = None"

section \<open>Steps of the program\<close>

datatype action =
    A_sched nat sched_env time_point time_point time_point
  | A_user nat user_op
  | A_notify nat
  | A_spurious nat
  | A_spurious_main
  | A_main nat

definition set_phase :: "nat \<Rightarrow> phase \<times> 'q schedulers \<Rightarrow> 'q runtime \<Rightarrow> 'q runtime" where
  "set_phase i r c = c\<lparr>rt_g := snd r, rt_ph := (rt_ph c)(i := fst r)\<rparr>"

definition current_worker :: "'q runtime \<Rightarrow> nat \<Rightarrow> nat option" where
  "current_worker c i = (if rt_ph c i = Ph_exec then m_worker (scheds (rt_g c) ! i) else None)"

text \<open>A worker that ends a task, or submits one, is counted.\<close>

definition count_op :: "user_op \<Rightarrow> worker \<Rightarrow> 'q runtime \<Rightarrow> 'q runtime" where
  "count_op op x c = (case op of
       U_async t j \<Rightarrow> c\<lparr>rt_sub := add_mset t (rt_sub c)\<rparr>
     | U_done \<Rightarrow> c\<lparr>rt_fin := rt_fin c + task_mset (w_task x)\<rparr>
     | _ \<Rightarrow> c)"

fun rt_act :: "'q stl \<Rightarrow> action \<Rightarrow> 'q runtime \<Rightarrow> 'q runtime option" where
  "rt_act L (A_sched i env t1 t2 t3) c =
     (if i < length (scheds (rt_g c))
      then map_option (\<lambda>r. set_phase i r c) (sched_step L env t1 t2 t3 i (rt_ph c i) (rt_g c))
      else None)"
| "rt_act L (A_user i op) c =
     (if i < length (scheds (rt_g c)) then case current_worker c i of
        None \<Rightarrow> None
      | Some w \<Rightarrow> map_option (\<lambda>r. count_op op (workers (scheds (rt_g c) ! i) w) (set_phase i r c))
          (user_step L i w op (rt_g c))
      else None)"
| "rt_act L (A_notify i) c =
     (if i < length (scheds (rt_g c)) then case rt_ph c i of
        Ph_notify j \<Rightarrow> Some (deliver j (c\<lparr>rt_ph := (rt_ph c)(i := Ph_exec)\<rparr>))
      | _ \<Rightarrow> None
      else None)"
| "rt_act L (A_spurious i) c =
     (if i < length (scheds (rt_g c)) then case rt_ph c i of
        Ph_wait tp False \<Rightarrow> Some (c\<lparr>rt_ph := (rt_ph c)(i := Ph_wait tp True)\<rparr>)
      | Ph_idle False \<Rightarrow> Some (c\<lparr>rt_ph := (rt_ph c)(i := Ph_idle True)\<rparr>)
      | _ \<Rightarrow> None
      else None)"
| "rt_act L A_spurious_main c =
     (if rt_main c = Mp_blocked \<and> \<not> cv_signalled (rt_g c)
      then Some (c\<lparr>rt_g := (rt_g c)\<lparr>cv_signalled := True\<rparr>\<rparr>) else None)"
| "rt_act L (A_main j) c = main_step j (rt_main c) c"

inductive rt_step :: "'q stl \<Rightarrow> 'q runtime \<Rightarrow> 'q runtime \<Rightarrow> bool" for L where
  act: "rt_act L a c = Some c' \<Longrightarrow> rt_step L c c'"

fun rt_run :: "'q stl \<Rightarrow> action list \<Rightarrow> 'q runtime \<Rightarrow> 'q runtime option" where
  "rt_run L [] c = Some c"
| "rt_run L (a # as) c = (case rt_act L a c of None \<Rightarrow> None | Some c' \<Rightarrow> rt_run L as c')"

lemma rt_run_sound: "rt_run L as c = Some c' \<Longrightarrow> (rt_step L)\<^sup>*\<^sup>* c c'"
  by (induction L as c rule: rt_run.induct)
    (auto split: option.splits intro: converse_rtranclp_into_rtranclp rt_step.act)

text \<open>The two halves of \<open>enqueue_task\<close>.\<close>

lemma enqueue_task_halves: "enqueue_task t s = notify_sched (push_task t s)"
  by (simp add: enqueue_task_def push_task_def)

end
