(* ===== verification/Runtime_Inv.thy ===== *)
theory Runtime_Inv
  imports Runtime
begin

text \<open>
  The invariant of the running program, and that each step of a scheduler in \<open>schedule\<close> keeps the
  part of it that concerns the schedulers: what is true of a scheduler in each phase, who holds
  the baton, and that no step loses a task. The effects on other schedulers are those of stealing.
\<close>

section \<open>One scheduler in each phase\<close>

text \<open>
  The baton: the flag \<open>m_running\<close> of exactly one worker is set, and it is the current worker. All
  other threads of the scheduler are blocked on their condition variables.
\<close>

definition baton :: "'q scheduler \<Rightarrow> bool" where
  "baton s \<longleftrightarrow> (\<exists>w<workers_size s. m_worker s = Some w \<and>
     (\<forall>v<workers_size s. w_running (workers s v) \<longleftrightarrow> v = w))"

definition runs_task :: "'q scheduler \<Rightarrow> bool" where
  "runs_task s \<longleftrightarrow> (\<exists>w. executing w s \<and> w_task (workers s w) \<noteq> None) \<and>
     yielded_worker s = None \<and> sch_state s = S_running"

definition in_schedule :: "'q scheduler \<Rightarrow> bool" where
  "in_schedule s \<longleftrightarrow> no_running s \<and> sch_state s = S_running"

definition may_assign :: "'q stl \<Rightarrow> 'q scheduler \<Rightarrow> bool" where
  "may_assign L s \<longleftrightarrow> queue_of L s W_runnable = [] \<and> queue_of L s W_idle \<noteq> []"

text \<open>\<open>n\<close> is the number of schedulers, \<open>i\<close> the index of this one.\<close>

fun phase_ok :: "'q stl \<Rightarrow> nat \<Rightarrow> nat \<Rightarrow> 'q scheduler \<Rightarrow> phase \<Rightarrow> bool" where
  "phase_ok L n i s Ph_exec = runs_task s"
| "phase_ok L n i s (Ph_notify j) = (runs_task s \<and> j < n)"
| "phase_ok L n i s Ph_take = (in_schedule s \<and> may_assign L s)"
| "phase_ok L n i s (Ph_steal js) =
     (in_schedule s \<and> queue_of L s W_yielded = [] \<and> may_assign L s \<and> set js \<subseteq> {..<n})"
| "phase_ok L n i s (Ph_grab j js) =
     (in_schedule s \<and> queue_of L s W_yielded = [] \<and> may_assign L s \<and> set js \<subseteq> {..<n} \<and> j < n \<and> j \<noteq> i)"
| "phase_ok L n i s Ph_choose = (in_schedule s \<and> queue_of L s W_yielded = [])"
| "phase_ok L n i s Ph_sleep = (in_schedule s \<and> nothing_runnable L s)"
| "phase_ok L n i s (Ph_wait tp b) =
     (no_running s \<and> nothing_runnable L s \<and> sch_state s = S_idle_wait)"
| "phase_ok L n i s (Ph_idle b) = (all_workers_idle s \<and> sch_state s = S_idle_sleep)"
| "phase_ok L n i s Ph_check = (in_schedule s \<and> nothing_runnable L s)"
| "phase_ok L n i s Ph_exited = False"
| "phase_ok L n i s Ph_assert = False"
| "phase_ok L n i s _ = in_schedule s"

fun asleep :: "phase \<Rightarrow> bool" where
  "asleep (Ph_idle b) = True"
| "asleep _ = False"

section \<open>What another scheduler may do to this one\<close>

text \<open>It may take a task from the queue, add one, set conditions of workers and notify.\<close>

definition touched :: "'q scheduler \<Rightarrow> 'q scheduler \<Rightarrow> bool" where
  "touched s s' \<longleftrightarrow> cpu_id s' = cpu_id s \<and> m_worker s' = m_worker s \<and>
     runnable_queue s' = runnable_queue s \<and> idle_queue s' = idle_queue s \<and>
     waiting_queue s' = waiting_queue s \<and> pending_io_queue s' = pending_io_queue s \<and>
     yielded_worker s' = yielded_worker s \<and> sch_state s' = sch_state s \<and>
     m_state_load s' = m_state_load s \<and> m_exit s' = m_exit s \<and>
     workers_size s' = workers_size s \<and>
     (\<forall>v. w_state (workers s' v) = w_state (workers s v) \<and>
        w_task (workers s' v) = w_task (workers s v) \<and>
        w_running (workers s' v) = w_running (workers s v) \<and>
        w_io (workers s' v) = w_io (workers s v)) \<and>
     (tasks_inv (sch_tasks s) \<longrightarrow> tasks_inv (sch_tasks s'))"

lemma touched_queue: "touched s s' \<Longrightarrow> queue_of L s' st = queue_of L s st"
  by (cases st) (simp_all add: touched_def queue_of.simps)

lemma touched_same:
  assumes "touched s s'"
  shows "m_worker s' = m_worker s" "workers_size s' = workers_size s" "cpu_id s' = cpu_id s"
    "yielded_worker s' = yielded_worker s" "sch_state s' = sch_state s" "m_exit s' = m_exit s"
    "m_state_load s' = m_state_load s"
    "w_state (workers s' v) = w_state (workers s v)" "w_task (workers s' v) = w_task (workers s v)"
    "w_running (workers s' v) = w_running (workers s v)" "w_io (workers s' v) = w_io (workers s v)"
  using assms by (simp_all add: touched_def)

lemma touched_inv:
  assumes t: "touched s s'" and inv: "sched_inv L s" shows "sched_inv L s'"
proof (rule sched_inv_cong [OF inv])
  note same = touched_same [OF t]
  show "worker_linked (workers s' v)" if "v < workers_size s" for v
    using sched_invD(3) [OF inv] that by (simp add: workers_linked_def worker_linked_def same)
  show "tasks_inv (sch_tasks s')" using t sched_invD(4) [OF inv] by (simp add: touched_def)
qed (simp_all add: touched_same [OF t] touched_queue [OF t])

lemma touched_phase:
  assumes "touched s s'" and "phase_ok L n i s p" shows "phase_ok L n i s' p"
proof -
  note same = touched_same [OF assms(1)] touched_queue [OF assms(1)]
  show ?thesis using assms(2)
    by (cases p) (simp_all add: runs_task_def executing_def in_schedule_def no_running_def
        may_assign_def nothing_runnable_def all_workers_idle_def same)
qed

lemma touched_baton: "touched s s' \<Longrightarrow> baton s \<Longrightarrow> baton s'"
  by (simp add: baton_def touched_same)

lemma touched_refl: "touched s s"
  by (simp add: touched_def)

lemma touched_next_task: "next_task s = (t, s') \<Longrightarrow> touched s s'"
  by (auto simp: touched_def next_task_def dest: tasks_inv_deque split: prod.splits)

lemma touched_push: "touched s (push_task t s)"
  by (simp add: touched_def push_task_def tasks_inv_enque)

lemma touched_notify: "touched s (notify_sched s)"
  by (simp add: touched_def notify_sched_def)

lemma touched_cond: "touched s (upd_worker v set_cond s)"
  by (simp add: touched_def upd_worker_def set_cond_def)

section \<open>A step of \<open>schedule\<close>\<close>

text \<open>What the passes leave alone: the identity of the scheduler, its state, and the baton.\<close>

definition thread_frame :: "'q scheduler \<Rightarrow> 'q scheduler \<Rightarrow> bool" where
  "thread_frame s s' \<longleftrightarrow> cpu_id s' = cpu_id s \<and> m_worker s' = m_worker s \<and>
     workers_size s' = workers_size s \<and> sch_state s' = sch_state s \<and> m_exit s' = m_exit s \<and>
     (\<forall>v. w_running (workers s' v) = w_running (workers s v))"

lemma thread_frameD:
  assumes "thread_frame s s'"
  shows "cpu_id s' = cpu_id s" "workers_size s' = workers_size s" "sch_state s' = sch_state s"
    "m_exit s' = m_exit s" "baton s' = baton s"
  using assms by (simp_all add: thread_frame_def baton_def)

lemma pass_thread_frame: "pass_frame s s' \<Longrightarrow> thread_frame s s'"
  by (simp add: pass_frame_def thread_frame_def)

lemma idle_worker_thread_frame: "thread_frame s (schedule_idle_worker L t s)"
  by (auto simp: thread_frame_def schedule_idle_worker_def next_task_def park_defs Let_def
      split: option.splits prod.splits)

lemma yielded_thread_frame: "thread_frame s (schedule_yielded_workers L s)"
  by (auto simp: thread_frame_def schedule_yielded_workers_def park_defs split: option.splits)

text \<open>
  The result of a step: every scheduler is still well formed, this one is in its next phase and one
  of its workers has the baton, the tasks \<open>D\<close> have been finished and no other is lost, and the other
  schedulers have at most lost a task to this one.
\<close>

definition sched_moves ::
  "'q stl \<Rightarrow> task_id multiset \<Rightarrow> nat \<Rightarrow> 'q schedulers \<Rightarrow> phase \<Rightarrow> 'q schedulers \<Rightarrow> bool" where
  "sched_moves L D i g p g' \<longleftrightarrow> length (scheds g') = length (scheds g) \<and> glob_inv L g' \<and>
     glob_bag g = glob_bag g' + D \<and> baton (scheds g' ! i) \<and>
     phase_ok L (length (scheds g)) i (scheds g' ! i) p \<and>
     m_exit (scheds g' ! i) = m_exit (scheds g ! i) \<and>
     (\<forall>k<length (scheds g). length (m_tasks (sch_tasks (scheds g' ! k)))
        \<le> length (m_tasks (sch_tasks (scheds g ! k)))) \<and>
     (\<forall>k<length (scheds g). k \<noteq> i \<longrightarrow> touched (scheds g ! k) (scheds g' ! k) \<and>
        sch_running (scheds g' ! k) = sch_running (scheds g ! k) \<and>
        (\<forall>v. w_cond (workers (scheds g' ! k) v) = w_cond (workers (scheds g ! k) v)))"

lemma sched_moves_own:
  assumes inv: "glob_inv L g" and i: "i < length (scheds g)"
    and g': "scheds g' = (scheds g)[i := s']" and s': "sched_inv L s'"
    and "cpu_id s' = cpu_id (scheds g ! i)" and bag: "task_bag (scheds g ! i) = task_bag s' + D"
    and "baton s'" and "phase_ok L (length (scheds g)) i s' p"
    and "m_exit s' = m_exit (scheds g ! i)"
    and "length (m_tasks (sch_tasks s')) \<le> length (m_tasks (sch_tasks (scheds g ! i)))"
  shows "sched_moves L D i g p g'"
proof -
  have e: "glob_inv L g' = glob_inv L (upd_sched i (\<lambda>_. s') g)"
    "glob_bag g' = glob_bag (upd_sched i (\<lambda>_. s') g)"
    by (simp_all add: glob_inv_def glob_bag_def upd_sched_def g')
  have "glob_inv L (upd_sched i (\<lambda>_. s') g)"
    by (rule glob_inv_upd [OF inv]) (use assms in simp_all)
  moreover have "glob_bag g = glob_bag (upd_sched i (\<lambda>_. s') g) + D"
    using sum_list_update_mset [OF i, of task_bag s'] bag by (simp add: glob_bag_def upd_sched_def)
  ultimately show ?thesis using assms e
    by (simp add: sched_moves_def touched_refl nth_list_update)
qed

text \<open>Where the step touches only the scheduler itself and keeps the frame.\<close>

lemma sched_moves_frame:
  assumes "glob_inv L g" and "i < length (scheds g)" and "baton (scheds g ! i)"
    and "scheds g' = (scheds g)[i := s']" and "sched_inv L s'" and "thread_frame (scheds g ! i) s'"
    and "task_bag s' = task_bag (scheds g ! i)" and "phase_ok L (length (scheds g)) i s' p"
    and "length (m_tasks (sch_tasks s')) \<le> length (m_tasks (sch_tasks (scheds g ! i)))"
  shows "sched_moves L {#} i g p g'"
  by (rule sched_moves_own) (use assms thread_frameD [OF assms(6)] in simp_all)

lemma sched_moves_none:
  assumes "glob_inv L g" and "i < length (scheds g)" and "baton (scheds g ! i)"
    and "phase_ok L (length (scheds g)) i (scheds g ! i) p"
  shows "sched_moves L {#} i g p g"
  by (rule sched_moves_own [where s' = "scheds g ! i"]) (use assms in \<open>auto simp: glob_inv_def\<close>)

context stl_laws
begin

lemma in_schedule_io:
  assumes inv: "sched_inv L s" and s: "in_schedule s"
  shows "in_schedule (schedule_io_workers L env s)"
proof -
  have e: "schedule_io_workers L env s = io_pass L env (queue_of L s W_pending_io) s"
    by (simp add: schedule_io_workers_def queue_of.simps)
  have "distinct (queue_of L s W_pending_io)" using inv by (simp add: sched_inv_def)
  note c = io_pass_correct [OF inv this subset_refl, of env, folded e]
  show ?thesis using s c schedule_io_correct(2) [OF inv refl, of env]
    by (auto simp: in_schedule_def no_running_def pass_frame_def)
qed

lemma in_schedule_waiting:
  assumes inv: "sched_inv L s" and s: "in_schedule s"
  shows "in_schedule (schedule_waiting_workers L env s)"
proof -
  have e: "schedule_waiting_workers L env s = waiting_pass L env (queue_of L s W_waiting) s"
    by (simp add: schedule_waiting_workers_def queue_of.simps)
  have "distinct (queue_of L s W_waiting)" using inv by (simp add: sched_inv_def)
  note c = waiting_pass_correct [OF inv this subset_refl, of env, folded e]
  show ?thesis using s c schedule_waiting_correct(2) [OF inv refl, of env]
    by (auto simp: in_schedule_def no_running_def pass_frame_def)
qed

lemma in_schedule_yielded: "in_schedule s \<Longrightarrow> in_schedule (schedule_yielded_workers L s)"
  by (auto simp: in_schedule_def no_running_def schedule_yielded_workers_def park_defs
      split: option.splits)

lemma in_schedule_idle_worker: "in_schedule s \<Longrightarrow> in_schedule (schedule_idle_worker L t s)"
  by (auto simp: in_schedule_def no_running_def schedule_idle_worker_def next_task_def park_defs
      Let_def split: option.splits prod.splits)

end

end
