(* ===== verification/Runtime_Steps.thy ===== *)
theory Runtime_Steps
  imports Runtime_Inv
begin

text \<open>
  Each step of a scheduler in \<open>schedule\<close> is one of the moves that the theory Runtime_Inv allows: one
  lemma per phase.
\<close>

context stl_laws
begin

lemma moves_io:
  assumes inv: "glob_inv L g" and i: "i < length (scheds g)" and b: "baton (scheds g ! i)"
    and p: "in_schedule (scheds g ! i)"
  shows "sched_moves L {#} i g Ph_waiting (upd_sched i (schedule_io_workers L env) g)"
proof -
  have si: "sched_inv L (scheds g ! i)" using inv i by (simp add: glob_inv_def)
  note c = schedule_io_correct [OF si refl, of env]
  show ?thesis
    by (rule sched_moves_frame [OF inv i b, where s' = "schedule_io_workers L env (scheds g ! i)"])
      (use c in_schedule_io [OF si p] pass_frame_task_bag [OF c(2)] pass_thread_frame [OF c(2)]
        pass_frameD(5) [OF c(2)] in \<open>simp_all add: upd_sched_def\<close>)
qed

lemma moves_waiting:
  assumes inv: "glob_inv L g" and i: "i < length (scheds g)" and b: "baton (scheds g ! i)"
    and p: "in_schedule (scheds g ! i)"
  shows "sched_moves L {#} i g Ph_new (upd_sched i (schedule_waiting_workers L env) g)"
proof -
  have si: "sched_inv L (scheds g ! i)" using inv i by (simp add: glob_inv_def)
  note c = schedule_waiting_correct [OF si refl, of env]
  show ?thesis
    by (rule sched_moves_frame [OF inv i b,
          where s' = "schedule_waiting_workers L env (scheds g ! i)"])
      (use c in_schedule_waiting [OF si p] pass_frame_task_bag [OF c(2)]
        pass_thread_frame [OF c(2)] pass_frameD(5) [OF c(2)] in \<open>simp_all add: upd_sched_def\<close>)
qed

text \<open>The task that was seen may have been stolen in the meantime.\<close>

lemma moves_take:
  assumes inv: "glob_inv L g" and i: "i < length (scheds g)" and b: "baton (scheds g ! i)"
    and p: "in_schedule (scheds g ! i)" and m: "may_assign L (scheds g ! i)"
  shows "sched_moves L {#} i g Ph_yielded (upd_sched i (schedule_idle_worker L None) g)"
proof -
  let ?s = "scheds g ! i"
  have si: "sched_inv L ?s" using inv i by (simp add: glob_inv_def)
  show ?thesis
  proof (cases "m_tasks (sch_tasks ?s)")
    case Nil
    then have "schedule_idle_worker L None ?s = ?s"
      by (simp add: schedule_idle_worker_def next_task_def Tasks_deque_Nil)
    then have "upd_sched i (schedule_idle_worker L None) g = g" by (simp add: upd_sched_def)
    then show ?thesis using sched_moves_none [OF inv i b] p by simp
  next
    case (Cons t ts)
    obtain w idle where idle: "queue_of L ?s W_idle = w # idle"
      using m by (cases "queue_of L ?s W_idle") (auto simp: may_assign_def)
    have "case None of Some t' \<Rightarrow> t = t' \<and> ts = m_tasks (sch_tasks ?s)
      | None \<Rightarrow> m_tasks (sch_tasks ?s) = t # ts" using Cons by simp
    note c = schedule_idle_worker_correct [OF si idle this refl]
    have st: "w < workers_size ?s" "w_state (workers ?s w) = W_idle"
      using si idle queues_wf_mem [of L ?s W_idle w] by (simp_all add: sched_inv_def)
    then have "w_task (workers ?s w) = None"
      using si by (auto simp: sched_inv_def workers_linked_def worker_linked_def)
    then have "task_bag (schedule_idle_worker L None ?s) = task_bag ?s"
      by (intro task_bag_assign [OF st(1) _ _ c(4,7), where t = t]) (simp_all add: c(5) Cons)
    then show ?thesis
      by (intro sched_moves_frame [OF inv i b, where s' = "schedule_idle_worker L None ?s"])
        (use c in_schedule_idle_worker [OF p] idle_worker_thread_frame Cons
          in \<open>simp_all add: upd_sched_def\<close>)
  qed
qed

lemma moves_yielded:
  assumes inv: "glob_inv L g" and i: "i < length (scheds g)" and b: "baton (scheds g ! i)"
    and p: "in_schedule (scheds g ! i)" and s': "s' = schedule_yielded_workers L (scheds g ! i)"
    and q: "q = Ph_choose \<or>
      q = Ph_steal [0 ..< length (scheds g)] \<and> \<not> has_runnable_workers L s' \<and> has_idle_workers L s'"
  shows "sched_moves L {#} i g q (upd_sched i (\<lambda>_. s') g)"
proof -
  have si: "sched_inv L (scheds g ! i)" using inv i by (simp add: glob_inv_def)
  note c = schedule_yielded_correct [OF si s']
  have t: "sch_tasks s' = sch_tasks (scheds g ! i)"
    and n: "workers_size s' = workers_size (scheds g ! i)"
    by (auto simp: s' schedule_yielded_workers_def park_defs split: option.splits)
  then have "task_bag s' = task_bag (scheds g ! i)"
    using assigned_tasks_cong [OF n c(5)] by (simp add: task_bag_def)
  then show ?thesis
    by (intro sched_moves_frame [OF inv i b, where s' = s'])
      (use c in_schedule_yielded [OF p] yielded_thread_frame q t s'
        in \<open>auto simp: upd_sched_def may_assign_def has_simps\<close>)
qed

lemma moves_grab:
  assumes inv: "glob_inv L g" and i: "i < length (scheds g)" and b: "baton (scheds g ! i)"
    and ph: "phase_ok L (length (scheds g)) i (scheds g ! i) (Ph_grab j js)"
    and st: "sched_step L env t1 t2 t3 i (Ph_grab j js) g = Some (p, g')"
  shows "sched_moves L {#} i g p g'"
proof -
  let ?s = "scheds g ! i" and ?o = "scheds g ! j"
  have j: "j < length (scheds g)" "j \<noteq> i" and m: "may_assign L ?s" "in_schedule ?s"
    using ph by simp_all
  obtain t other where o: "next_task ?o = (t, other)" by (cases "next_task ?o")
  have si: "sched_inv L ?s" using inv i by (simp add: glob_inv_def)
  show ?thesis
  proof (cases t)
    case None
    then have "other = ?o"
      using o by (auto simp: next_task_def dest: Tasks_deque_NoneD split: prod.splits)
    then have "upd_sched j (\<lambda>_. other) g = g" by (simp add: upd_sched_def)
    then have "p = Ph_steal js" "g' = g" using st o None by simp_all
    then show ?thesis using sched_moves_none [OF inv i b] ph by simp
  next
    case (Some x)
    obtain w idle where idle: "queue_of L ?s W_idle = w # idle"
      using m by (cases "queue_of L ?s W_idle") (auto simp: may_assign_def)
    have pg: "p = Ph_choose"
      "g' = upd_sched i (schedule_idle_worker L (Some x)) (upd_sched j (\<lambda>_. other) g)"
      using st o Some by simp_all
    have cpu: "cpu_id ?s \<noteq> cpu_id ?o"
      using inv i j by (auto simp: glob_inv_def distinct_conv_nth)
    note c = steal_step_correct [OF inv i j(1) cpu idle o [unfolded Some] pg(2)]
    have e: "scheds g' ! i = schedule_idle_worker L (Some x) ?s"
      using i j by (simp add: pg upd_sched_def)
    note f = idle_worker_thread_frame [of ?s L "Some x", folded e]
    have "in_schedule (scheds g' ! i)" unfolding e by (rule in_schedule_idle_worker [OF m(2)])
    moreover have "baton (scheds g' ! i)" using thread_frameD(5) [OF f] b by simp
    moreover have "m_exit (scheds g' ! i) = m_exit ?s" by (rule thread_frameD(4) [OF f])
    moreover have len: "length (m_tasks (sch_tasks other)) \<le> length (m_tasks (sch_tasks ?o))"
      using o by (auto simp: next_task_def Tasks_deque_def split: list.splits)
    have "length (m_tasks (sch_tasks (scheds g' ! k))) \<le> length (m_tasks (sch_tasks (scheds g ! k)))"
      for k using c(6,8,9) len by (cases "k = i"; cases "k = j") simp_all
    moreover have "sch_running other = sch_running ?o" "workers other = workers ?o"
      using o by (auto simp: next_task_def split: prod.splits)
    then have "k \<noteq> i \<Longrightarrow> touched (scheds g ! k) (scheds g' ! k) \<and>
        sch_running (scheds g' ! k) = sch_running (scheds g ! k) \<and>
        (\<forall>v. w_cond (workers (scheds g' ! k) v) = w_cond (workers (scheds g ! k) v))" for k
      using c(8,9) touched_next_task [OF o] touched_refl by (cases "k = j") simp_all
    ultimately show ?thesis using c(1,2,5,10) ph pg by (simp add: sched_moves_def)
  qed
qed

text \<open>The baton goes from the worker that ran \<open>schedule\<close> to the one it has chosen.\<close>

lemma moves_run:
  assumes inv: "glob_inv L g" and i: "i < length (scheds g)" and b: "baton (scheds g ! i)"
    and p: "in_schedule (scheds g ! i)" and y: "queue_of L (scheds g ! i) W_yielded = []"
    and r: "has_runnable_workers L (scheds g ! i)"
  shows "sched_moves L {#} i g Ph_exec (upd_sched i (run_next L) g)"
proof -
  let ?s = "scheds g ! i"
  define s1 where "s1 = prepare_exec L ?s"
  have si: "sched_inv L ?s" using inv i by (simp add: glob_inv_def)
  have nr: "no_running ?s" using p by (simp add: in_schedule_def)
  obtain w rest where run: "queue_of L ?s W_runnable = w # rest"
    using r by (cases "queue_of L ?s W_runnable") (auto simp: has_simps)
  note c = prepare_exec_correct [OF si nr run s1_def]
  obtain v where v: "m_worker ?s = Some v" "v < workers_size ?s"
    and flags: "\<And>u. u < workers_size ?s \<Longrightarrow> w_running (workers ?s u) \<longleftrightarrow> u = v"
    using b by (auto simp: baton_def)
  define s' where "s' = run_next L ?s"
  have s': "s' = sync_finish v s1" by (simp add: s'_def run_next_def v s1_def)
  have w: "m_worker s1 = Some w" "w < workers_size s1" using c(2) by (auto simp: executing_def)
  have fr: "workers_size s' = workers_size s1" "sch_tasks s' = sch_tasks s1"
    "sch_state s' = sch_state s1" "m_exit s' = m_exit s1" "cpu_id s' = cpu_id s1"
    "m_worker s' = m_worker s1" "yielded_worker s' = yielded_worker s1"
    "m_state_load s' = m_state_load s1" "queue_of L s' st = queue_of L s1 st"
    "w_state (workers s' u) = w_state (workers s1 u)"
    "w_task (workers s' u) = w_task (workers s1 u)" "w_io (workers s' u) = w_io (workers s1 u)"
    for st u
    by (cases st; simp add: s' sync_finish_def context_switch_def w upd_worker_def Worker_wait_def
        Worker_notify_def queue_of.simps)+
  have inv': "sched_inv L s'"
  proof (rule sched_inv_cong [OF c(1)])
    show "worker_linked (workers s' u)" if "u < workers_size s1" for u
      using sched_invD(3) [OF c(1)] that by (simp add: workers_linked_def worker_linked_def fr)
  qed (use sched_invD(4) [OF c(1)] in \<open>simp_all add: fr\<close>)
  have flags': "w_running (workers s' u) \<longleftrightarrow> u = w" if u: "u < workers_size s'" for u
    using flags [of u] u c(7,8) v(2) w
    by (auto simp: s' sync_finish_def context_switch_def upd_worker_def Worker_wait_def
        Worker_notify_def)
  have "executing w s'" using c(2) by (simp add: executing_def fr)
  moreover have "w_task (workers s' w) \<noteq> None" using c(5) by (simp add: fr)
  moreover have "yielded_worker s' = None"
    using y by (simp add: fr s1_def prepare_exec_frame yielded_None)
  ultimately have "runs_task s'" using p c(10) by (auto simp: runs_task_def in_schedule_def fr)
  moreover have "baton s'" using flags' w by (auto simp: baton_def fr)
  moreover have "task_bag s' = task_bag ?s"
    using c(7,8,9) by (auto simp: task_bag_def fr intro!: assigned_tasks_cong)
  ultimately show ?thesis
    by (intro sched_moves_own [OF inv i, where s' = s'])
      (use inv' c in \<open>simp_all add: upd_sched_def s'_def [symmetric] fr s1_def prepare_exec_frame\<close>)
qed

lemma sched_inv_flags:
  assumes "sched_inv L s"
  shows "sched_inv L (s\<lparr>idle_start_time := tp, sch_state := st, sch_running := r\<rparr>)"
proof (rule sched_inv_cong [OF assms])
  show "queue_of L (s\<lparr>idle_start_time := tp, sch_state := st, sch_running := r\<rparr>) x = queue_of L s x"
    for x by (cases x) (simp_all add: queue_of.simps)
qed (use assms in \<open>simp_all add: sched_inv_def workers_linked_def\<close>)

text \<open>All three results of \<open>sleep\<close>.\<close>

lemma moves_sleep:
  assumes inv: "glob_inv L g" and i: "i < length (scheds g)" and b: "baton (scheds g ! i)"
    and p: "in_schedule (scheds g ! i)" and nr: "nothing_runnable L (scheds g ! i)"
    and e: "sleep_enter L t1 t2 t3 (scheds g ! i) = (r, s')"
    and q: "q = (case r of Sl_return \<Rightarrow> Ph_check | Sl_wait_until tp \<Rightarrow> Ph_wait tp False
      | Sl_idle_sleep \<Rightarrow> Ph_idle False)"
    and g': "scheds g' = (scheds g)[i := s']"
  shows "sched_moves L {#} i g q g'"
proof -
  let ?s = "scheds g ! i"
  have si: "sched_inv L ?s" using inv i by (simp add: glob_inv_def)
  define st where "st = (case r of Sl_return \<Rightarrow> sch_state ?s | Sl_wait_until tp \<Rightarrow> S_idle_wait
      | Sl_idle_sleep \<Rightarrow> S_idle_sleep)"
  define rn where "rn = (r = Sl_return \<and> sch_running ?s)"
  have "sleep_result_state r ?s tp = ?s\<lparr>idle_start_time := tp, sch_state := st, sch_running := rn\<rparr>"
    for tp by (cases r) (simp_all add: st_def rn_def)
  with sleep_enter_state [OF e] have s': "s' = ?s\<lparr>idle_start_time := idle_start_time s',
      sch_state := st, sch_running := rn\<rparr>"
    by metis
  note st = st_def
  have f: "cpu_id s' = cpu_id ?s" "m_worker s' = m_worker ?s" "workers_size s' = workers_size ?s"
    "workers s' = workers ?s" "sch_tasks s' = sch_tasks ?s" "m_exit s' = m_exit ?s"
    "sch_state s' = st" "runnable_queue s' = runnable_queue ?s"
    "yielded_worker s' = yielded_worker ?s"
    by (subst s'; simp)+
  have qs: "queue_of L s' W_runnable = queue_of L ?s W_runnable"
    "queue_of L s' W_yielded = queue_of L ?s W_yielded"
    by (simp_all add: queue_of.simps f)
  have bs: "baton s'" using b by (simp add: baton_def f)
  then have sz: "0 < workers_size ?s" by (auto simp: baton_def f)
  have ph: "phase_ok L (length (scheds g)) i s' q"
  proof (cases r)
    case Sl_return
    then show ?thesis using p nr q st by (simp add: in_schedule_def no_running_def f
        nothing_runnable_def qs)
  next
    case (Sl_wait_until tp)
    then show ?thesis using p nr q st by (simp add: in_schedule_def no_running_def f
        nothing_runnable_def qs)
  next
    case Sl_idle_sleep
    have "no_running ?s" using p by (simp add: in_schedule_def)
    from idle_sleep_quiescent [OF si this nr sz e [unfolded Sl_idle_sleep]] show ?thesis
      using q Sl_idle_sleep by simp
  qed
  show ?thesis
    by (rule sched_moves_own [OF inv i g'])
      (use sched_inv_flags [OF si, where tp = "idle_start_time s'" and st = st and r = rn, folded s'] bs ph
        in \<open>simp_all add: f task_bag_def assigned_tasks_def\<close>)
qed

text \<open>The end of either wait.\<close>

lemma wait_until_done_eq: "wait_until_done s
    = s\<lparr>idle_start_time := idle_start_time s, sch_state := S_running, sch_running := True\<rparr>"
  by (cases s) (simp add: wait_until_done_def)

lemma moves_awake:
  assumes inv: "glob_inv L g" and i: "i < length (scheds g)" and b: "baton (scheds g ! i)"
    and p: "no_running (scheds g ! i)" and nr: "nothing_runnable L (scheds g ! i)"
    and s': "s' = (scheds g ! i)\<lparr>idle_start_time := idle_start_time (scheds g ! i),
      sch_state := S_running, sch_running := r\<rparr>"
    and g': "scheds g' = (scheds g)[i := s']"
  shows "sched_moves L {#} i g Ph_check g'"
proof -
  have si: "sched_inv L (scheds g ! i)" using inv i by (simp add: glob_inv_def)
  show ?thesis
    by (rule sched_moves_own [OF inv i g'])
      (use sched_inv_flags [OF si, where tp = "idle_start_time (scheds g ! i)" and st = S_running
          and r = r, folded s'] b p nr
        in \<open>simp_all add: s' task_bag_def assigned_tasks_def baton_def in_schedule_def
          no_running_def nothing_runnable_def queue_of.simps\<close>)
qed

lemma all_idle_nothing:
  assumes inv: "sched_inv L s" and a: "all_workers_idle s"
  shows "no_running s" "nothing_runnable L s" "queue_of L s W_waiting = []"
    "queue_of L s W_pending_io = []"
proof -
  have wf: "queues_wf L s" using inv by (simp add: sched_inv_def)
  have "w \<notin> set (queue_of L s st)" if "st \<noteq> W_idle" for w st
    using that a queues_wf_mem [OF wf, of st w] queue_of_unparked [of st L s]
    by (cases "parked_state st") (auto simp: all_workers_idle_def)
  then have "queue_of L s st = []" if "st \<noteq> W_idle" for st
    using that by (metis list.set_intros(1) list.exhaust)
  then show "nothing_runnable L s" "queue_of L s W_waiting = []" "queue_of L s W_pending_io = []"
    by (simp_all add: nothing_runnable_def)
  show "no_running s" using a by (simp add: no_running_def all_workers_idle_def)
qed

lemma moves_wait:
  assumes inv: "glob_inv L g" and i: "i < length (scheds g)" and b: "baton (scheds g ! i)"
    and ph: "phase_ok L (length (scheds g)) i (scheds g ! i) (Ph_wait tp w)"
    and st: "sched_step L env t1 t2 t3 i (Ph_wait tp w) g = Some (p', g')"
  shows "sched_moves L {#} i g p' g'"
proof (cases "p' = Ph_check")
  case True
  show ?thesis unfolding True
    by (rule moves_awake [OF inv i b, where r = True])
      (use True st ph in \<open>auto simp: upd_sched_def wait_until_done_eq split: if_splits\<close>)
next
  case False
  then show ?thesis using st ph sched_moves_none [OF inv i b] by (auto split: if_splits)
qed

lemma moves_idle:
  assumes inv: "glob_inv L g" and i: "i < length (scheds g)" and b: "baton (scheds g ! i)"
    and ph: "phase_ok L (length (scheds g)) i (scheds g ! i) (Ph_idle w)"
    and st: "sched_step L env t1 t2 t3 i (Ph_idle w) g = Some (p', g')"
  shows "sched_moves L {#} i g p' g'"
proof (cases "p' = Ph_check")
  case True
  have si: "sched_inv L (scheds g ! i)" using inv i by (simp add: glob_inv_def)
  have a: "all_workers_idle (scheds g ! i)" using ph by simp
  have "scheds g' = (scheds g)[i := idle_sleep_done (scheds g ! i)]"
    using True st by (auto simp: upd_sched_def signal_running_def split: if_splits)
  then show ?thesis unfolding True
    by (intro moves_awake [OF inv i b, where r = "sch_running (scheds g ! i)"
          and s' = "idle_sleep_done (scheds g ! i)"] all_idle_nothing [OF si a])
      (simp_all add: idle_sleep_done_def)
next
  case False
  then show ?thesis using st ph sched_moves_none [OF inv i b] by (auto split: if_splits)
qed

lemma sched_step_moves:
  assumes inv: "glob_inv L g" and i: "i < length (scheds g)" and b: "baton (scheds g ! i)"
    and ph: "phase_ok L (length (scheds g)) i (scheds g ! i) p" and x: "\<not> m_exit (scheds g ! i)"
    and st: "sched_step L env t1 t2 t3 i p g = Some (p', g')"
  shows "sched_moves L {#} i g p' g'"
proof (cases p)
  case Ph_new
  then show ?thesis using st ph sched_moves_none [OF inv i b]
    by (auto simp: Let_def may_assign_def has_simps split: if_splits)
next
  case Ph_yielded
  note m = moves_yielded [OF inv i b _ refl]
  show ?thesis
  proof (cases "p' = Ph_choose")
    case True
    then show ?thesis using Ph_yielded st ph m by (auto simp: Let_def)
  next
    case False
    then show ?thesis using Ph_yielded st ph m by (auto simp: Let_def split: if_splits)
  qed
next
  case (Ph_steal js)
  show ?thesis
  proof (cases js)
    case Nil
    then show ?thesis using Ph_steal st ph sched_moves_none [OF inv i b] by simp
  next
    case (Cons j ks)
    then show ?thesis using Ph_steal st ph inv i b
      by (auto split: if_splits intro!: sched_moves_none)
  qed
next
  case Ph_choose
  then show ?thesis using st ph moves_run [OF inv i b] sched_moves_none [OF inv i b]
    by (auto simp: has_simps nothing_runnable_def split: if_splits)
next
  case Ph_sleep
  obtain r s' where e: "sleep_enter L t1 t2 t3 (scheds g ! i) = (r, s')" by fastforce
  show ?thesis
    by (rule moves_sleep [OF inv i b _ _ e])
      (use Ph_sleep st ph e in \<open>auto simp: upd_sched_def signal_idle_def Let_def
        split: sleep_result.splits\<close>)
next
  case (Ph_wait tp w)
  show ?thesis by (rule moves_wait [OF inv i b ph [unfolded Ph_wait] st [unfolded Ph_wait]])
next
  case (Ph_idle w)
  show ?thesis by (rule moves_idle [OF inv i b ph [unfolded Ph_idle] st [unfolded Ph_idle]])
next
  case Ph_check
  then have "p' = Ph_io" "g' = g" using st x by (simp_all add: should_exit_def)
  then show ?thesis using Ph_check ph sched_moves_none [OF inv i b] by simp
qed (use st ph moves_io [OF inv i b] moves_waiting [OF inv i b] moves_take [OF inv i b]
    moves_grab [OF inv i b] in auto)

end

end
