(* ===== verification/Runtime_User.thy ===== *)
theory Runtime_User
  imports Runtime_Steps
begin

text \<open>
  The steps of a task on the worker that executes it: those that concern only its own scheduler
  (yield, wait, sleep, I/O, the end of the task), and those that reach any scheduler (submitting a
  task, notifying a waiter). Both keep what the theory Runtime_Inv requires.
\<close>

lemma assigned_tasks_upd:
  assumes "w < workers_size s"
  shows "assigned_tasks (upd_worker w f s) + task_mset (w_task (workers s w))
    = assigned_tasks s + task_mset (w_task (f (workers s w)))"
  using sum_fun_upd_mset [OF assms, of "\<lambda>x. task_mset (w_task x)" "workers s" "f (workers s w)"]
  by (simp add: assigned_tasks_def upd_worker_def)

lemma task_bag_upd:
  assumes "w < workers_size s"
  shows "task_bag (upd_worker w f s) + task_mset (w_task (workers s w))
    = task_bag s + task_mset (w_task (f (workers s w)))"
  using assigned_tasks_upd [OF assms, of f] by (simp add: task_bag_def upd_worker_def ac_simps)

lemma park_upd_thread_frame:
  assumes "\<And>x. w_running (f x) = w_running x"
  shows "thread_frame s (park_worker L ctx w (upd_worker w f s))"
    "thread_frame s (upd_worker w f s)"
  by (cases ctx; simp add: thread_frame_def park_worker_def park_defs assms)
    (simp add: thread_frame_def upd_worker_def assms)

text \<open>The others touch one scheduler, which may be any.\<close>

lemma touch_moves:
  assumes inv: "glob_inv L g" and t: "touched (scheds g ! j) s'"
  shows "glob_inv L (upd_sched j (\<lambda>_. s') g)"
    "touched (scheds g ! k) (scheds (upd_sched j (\<lambda>_. s') g) ! k)"
proof -
  show "glob_inv L (upd_sched j (\<lambda>_. s') g)"
    by (rule glob_inv_upd [OF inv])
      (use inv touched_inv [OF t] touched_same(3) [OF t] in \<open>auto simp: glob_inv_def\<close>)
  show "touched (scheds g ! k) (scheds (upd_sched j (\<lambda>_. s') g) ! k)"
    using t touched_refl by (cases "k = j"; cases "j < length (scheds g)")
      (simp_all add: upd_sched_def list_update_beyond)
qed

lemma touched_bag:
  assumes "j < length (scheds g)" and "touched (scheds g ! j) s'"
    and "m_tasks (sch_tasks s') = m_tasks (sch_tasks (scheds g ! j)) @ ts"
  shows "glob_bag (upd_sched j (\<lambda>_. s') g) = glob_bag g + mset ts"
proof -
  have "task_bag s' = task_bag (scheds g ! j) + mset ts"
    using assms(2,3) by (simp add: task_bag_def assigned_tasks_def touched_def)
  then show ?thesis
    using sum_list_update_mset [OF assms(1), of task_bag s']
    by (simp add: glob_bag_def upd_sched_def)
qed

text \<open>All operations that concern the worker's own scheduler only; \<open>U_done\<close> finishes its task.\<close>

fun own_op :: "user_op \<Rightarrow> bool" where
  "own_op (U_async t j) = False"
| "own_op (U_notify_waiter j v) = False"
| "own_op op = True"

definition finished_by :: "user_op \<Rightarrow> worker \<Rightarrow> task_id multiset" where
  "finished_by op x = (if op = U_done then task_mset (w_task x) else {#})"

context stl_laws
begin

text \<open>The worker updates its own fields and goes on.\<close>

lemma moves_going:
  assumes inv: "glob_inv L g" and i: "i < length (scheds g)" and b: "baton (scheds g ! i)"
    and ph: "runs_task (scheds g ! i)" and w: "m_worker (scheds g ! i) = Some w"
    and f: "\<And>x. w_state (f x) = w_state x" "\<And>x. w_running (f x) = w_running x"
      "\<And>x. w_task (f x) = w_task x"
    and s': "s' = upd_worker w f (scheds g ! i)"
  shows "sched_moves L {#} i g Ph_exec (upd_sched i (\<lambda>_. s') g)"
proof -
  let ?s = "scheds g ! i"
  have si: "sched_inv L ?s" using inv i by (simp add: glob_inv_def)
  have ex: "executing w ?s" and t: "w_task (workers ?s w) \<noteq> None"
    using ph w by (auto simp: runs_task_def executing_def)
  note u = upd_worker_executing [OF ex f(1)]
  have "w < workers_size ?s" using ex by (simp add: executing_def)
  from task_bag_upd [OF this, of f] have bag: "task_bag s' = task_bag ?s" by (simp add: s' f(3))
  have fr: "thread_frame ?s s'" unfolding s' by (rule park_upd_thread_frame(2) [OF f(2)])
  have "runs_task s'"
    using u(1) t ph fr by (auto simp: s' runs_task_def thread_frame_def upd_worker_def f(3))
  then show ?thesis
    by (intro sched_moves_frame [OF inv i b, where s' = s'])
      (use u(3) [OF si] fr bag in \<open>simp_all add: upd_sched_def s'\<close>, simp add: upd_worker_def)
qed

text \<open>The worker updates its own fields and is parked.\<close>

lemma moves_parked:
  assumes inv: "glob_inv L g" and i: "i < length (scheds g)" and b: "baton (scheds g ! i)"
    and ph: "runs_task (scheds g ! i)" and w: "m_worker (scheds g ! i) = Some w"
    and f: "\<And>x. w_state (f x) = w_state x" "\<And>x. w_running (f x) = w_running x"
    and ok: "ctx_ok ctx (f (workers (scheds g ! i) w))"
    and D: "task_mset (w_task (workers (scheds g ! i) w))
      = task_mset (w_task (f (workers (scheds g ! i) w))) + D"
    and s': "s' = park_worker L ctx w (upd_worker w f (scheds g ! i))"
  shows "sched_moves L D i g Ph_io (upd_sched i (\<lambda>_. s') g)"
proof -
  let ?s = "scheds g ! i" and ?u = "upd_worker w f (scheds g ! i)"
  have si: "sched_inv L ?s" using inv i by (simp add: glob_inv_def)
  have ex: "executing w ?s" using ph w by (auto simp: runs_task_def executing_def)
  note u = upd_worker_executing [OF ex f(1)]
  have uw: "workers ?u w = f (workers ?s w)" and uy: "yielded_worker ?u = None"
    using ph by (simp_all add: upd_worker_def runs_task_def)
  have "ctx_ok ctx (workers ?u w)" using ok by (simp add: uw)
  note c = park_worker_correct [OF u(3) [OF si] u(1) uy this s']
  have fr: "thread_frame ?s s'" unfolding s' by (rule park_upd_thread_frame(1) [OF f(2)])
  have lt: "w < workers_size ?s" using ex by (simp add: executing_def)
  have "task_bag s' = task_bag ?u"
    using c(5,6,7) by (auto simp: task_bag_def intro!: assigned_tasks_cong)
  then have bag: "task_bag ?s = task_bag s' + D" using task_bag_upd [OF lt, of f] D by simp
  have "in_schedule s'" using c(2) ph fr by (simp add: in_schedule_def runs_task_def thread_frame_def)
  moreover have "sch_tasks s' = sch_tasks ?s" using c(7) by (simp add: upd_worker_def)
  ultimately show ?thesis
    by (intro sched_moves_own [OF inv i, where s' = s'])
      (use c(1) thread_frameD [OF fr] b bag in \<open>simp_all add: upd_sched_def\<close>)
qed

lemma user_step_moves:
  assumes inv: "glob_inv L g" and i: "i < length (scheds g)" and b: "baton (scheds g ! i)"
    and ph: "runs_task (scheds g ! i)" and w: "m_worker (scheds g ! i) = Some w"
    and op: "own_op op" and st: "user_step L i w op g = Some (p', g')"
  shows "sched_moves L (finished_by op (workers (scheds g ! i) w)) i g p' g'"
proof -
  let ?s = "scheds g ! i"
  have id: "upd_worker w (\<lambda>x. x) ?s = ?s" by (simp add: upd_worker_def)
  have t: "w_task (workers ?s w) \<noteq> None" using ph w by (auto simp: runs_task_def executing_def)
  note going = moves_going [OF inv i b ph w _ _ _ refl]
  note parked = moves_parked [OF inv i b ph w _ _ _ _ refl]
  have stay: "sched_moves L {#} i g Ph_exec (upd_sched i (\<lambda>_. ?s) g)"
    using going [of "\<lambda>x. x"] by (simp add: id)
  have keep: "sched_moves L {#} i g Ph_io
      (upd_sched i (\<lambda>_. park_worker L ctx w (upd_worker w f ?s)) g)"
    if "\<And>x. w_state (f x) = w_state x" "\<And>x. w_running (f x) = w_running x"
      "\<And>x. w_task (f x) = w_task x" "ctx \<noteq> Ctx_main" "ctx = Ctx_io \<longrightarrow> w_io (f (workers ?s w)) \<noteq> None"
    for ctx f using parked [of f ctx] that t by (auto simp: ctx_ok_def)
  show ?thesis
  proof (cases op)
    case U_yield
    then show ?thesis using st keep [of "\<lambda>x. x" Ctx_yield]
      by (auto simp: Worker_yield_def resume_def finished_by_def id)
  next
    case (U_wait_info c tp)
    then show ?thesis using st going [of "set_wait_info c tp"]
      by (auto simp: resume_def finished_by_def wait_info_defs)
  next
    case U_clear_wait
    then show ?thesis using st going [of "clear_wait_info L"]
      by (auto simp: resume_def finished_by_def wait_info_defs)
  next
    case (U_wait c)
    then show ?thesis using st stay keep [of "\<lambda>x. x" Ctx_wait]
      by (auto simp: wait_cond_or_sleep_def resume_def finished_by_def id split: if_splits)
  next
    case (U_sleep tp c)
    then show ?thesis
      using st going [of "set_wait_info False tp"] keep [of "set_wait_info False tp" Ctx_wait]
      by (auto simp: sleep_until_internal_def wait_cond_or_sleep_def resume_def finished_by_def
          wait_info_defs split: if_splits)
  next
    case (U_io r)
    then show ?thesis
      using st going [of "\<lambda>x. x\<lparr>w_io := Some r\<rparr>"] keep [of "\<lambda>x. x\<lparr>w_io := Some r\<rparr>" Ctx_io]
      by (auto simp: start_io_def resume_def finished_by_def Let_def split: if_splits)
  next
    case U_done
    then show ?thesis
      using st parked [of "\<lambda>x. x\<lparr>w_task := None\<rparr>" Ctx_main "task_mset (w_task (workers ?s w))"]
      by (auto simp: finish_task_def resume_def finished_by_def ctx_ok_def)
  qed (use op in simp_all)
qed

end

end
