(* ===== verification/Runtime_Open.thy ===== *)
theory Runtime_Open
  imports Runtime_User
begin

text \<open>
  The invariant of the program while it is open, that is until the main thread has found everything
  idle: the schedulers are well formed and in their phases, the counter of idle schedulers is exact,
  no task is lost, no notification is lost, and the main thread will notice that all work is done.
\<close>

section \<open>The invariant\<close>

definition asleep_count :: "nat \<Rightarrow> (nat \<Rightarrow> phase) \<Rightarrow> nat" where
  "asleep_count n ph = card {i. i < n \<and> asleep (ph i)}"

text \<open>There is nothing to do: every scheduler sleeps in \<open>idle_sleep\<close> and no task is queued.\<close>

definition quiescent :: "'q runtime \<Rightarrow> bool" where
  "quiescent c \<longleftrightarrow> (\<forall>i<length (scheds (rt_g c)).
     asleep (rt_ph c i) \<and> m_tasks (sch_tasks (scheds (rt_g c) ! i)) = [])"

text \<open>Some thread is about to notify scheduler \<open>i\<close>.\<close>

definition notifying :: "'q runtime \<Rightarrow> nat \<Rightarrow> bool" where
  "notifying c i \<longleftrightarrow> (\<exists>k<length (scheds (rt_g c)). rt_ph c k = Ph_notify i) \<or>
     rt_main c = Mp_notify i \<or> rt_main c = Mp_wake i"

definition cond_set :: "'q stl \<Rightarrow> 'q scheduler \<Rightarrow> bool" where
  "cond_set L s \<longleftrightarrow> (\<exists>w\<in>set (queue_of L s W_waiting). w_cond (workers s w))"

text \<open>Why a scheduler in a timed wait should go on: a condition is set, or a task can be started.\<close>

definition wait_reason :: "'q stl \<Rightarrow> 'q scheduler \<Rightarrow> bool" where
  "wait_reason L s \<longleftrightarrow> cond_set L s \<or> has_tasks s \<and> queue_of L s W_idle \<noteq> []"

text \<open>
  A scheduler that is blocked with a reason to go on has been signalled or is about to be. \<open>nt\<close>
  says that some thread is about to notify it.
\<close>

fun wake_ok :: "'q stl \<Rightarrow> bool \<Rightarrow> 'q scheduler \<Rightarrow> phase \<Rightarrow> bool" where
  "wake_ok L nt s (Ph_idle woken) = (woken \<or> \<not> has_tasks s \<or> nt)"
| "wake_ok L nt s (Ph_wait tp woken) =
     ((sch_running s \<longrightarrow> woken) \<and> (wait_reason L s \<longrightarrow> sch_running s \<or> nt))"
| "wake_ok L nt s _ = True"

fun main_ok :: "main_phase \<Rightarrow> 'q runtime \<Rightarrow> bool" where
  "main_ok (Mp_async t) c = check_idle (rt_g c)"
| "main_ok (Mp_notify j) c = (check_idle (rt_g c) \<and> j < length (scheds (rt_g c)))"
| "main_ok Mp_wait c = (quiescent c \<longrightarrow> check_idle (rt_g c))"
| "main_ok Mp_count c = True"
| "main_ok (Mp_scan ks) c = (set ks \<subseteq> {..<length (scheds (rt_g c))})"
| "main_ok Mp_locked c = True"
| "main_ok Mp_relock c = (quiescent c \<longrightarrow> check_idle (rt_g c))"
| "main_ok Mp_blocked c = (quiescent c \<longrightarrow> check_idle (rt_g c))"
| "main_ok _ c = False"

definition sched_ok :: "'q stl \<Rightarrow> nat \<Rightarrow> nat \<Rightarrow> 'q scheduler \<Rightarrow> phase \<Rightarrow> bool" where
  "sched_ok L n i s p \<longleftrightarrow> baton s \<and> phase_ok L n i s p \<and> \<not> m_exit s \<and>
     length (m_tasks (sch_tasks s)) < 2 ^ 64"

definition scheds_ok :: "'q stl \<Rightarrow> 'q runtime \<Rightarrow> bool" where
  "scheds_ok L c \<longleftrightarrow> 0 < length (scheds (rt_g c)) \<and> length (scheds (rt_g c)) < 2 ^ 32 \<and>
     glob_inv L (rt_g c) \<and>
     (\<forall>i<length (scheds (rt_g c)).
        sched_ok L (length (scheds (rt_g c))) i (scheds (rt_g c) ! i) (rt_ph c i))"

definition count_ok :: "'q runtime \<Rightarrow> bool" where
  "count_ok c \<longleftrightarrow> idle_schedulers (rt_g c) = of_nat (asleep_count (length (scheds (rt_g c))) (rt_ph c))"

definition bag_ok :: "'q runtime \<Rightarrow> bool" where
  "bag_ok c \<longleftrightarrow> rt_sub c = glob_bag (rt_g c) + rt_fin c"

definition wakes_ok :: "'q stl \<Rightarrow> 'q runtime \<Rightarrow> bool" where
  "wakes_ok L c \<longleftrightarrow> (\<forall>i<length (scheds (rt_g c)).
     wake_ok L (notifying c i) (scheds (rt_g c) ! i) (rt_ph c i))"

definition open_inv :: "'q stl \<Rightarrow> 'q runtime \<Rightarrow> bool" where
  "open_inv L c \<longleftrightarrow> scheds_ok L c \<and> count_ok c \<and> bag_ok c \<and> wakes_ok L c \<and> main_ok (rt_main c) c"

section \<open>The counter\<close>

lemma asleep_count_upd:
  assumes "i < n"
  shows "asleep_count n (ph(i := p)) + (if asleep (ph i) then 1 else 0)
    = asleep_count n ph + (if asleep p then 1 else 0)"
proof -
  define A where "A = {k. k < n \<and> asleep (ph k) \<and> k \<noteq> i}"
  have f: "finite A" "i \<notin> A" by (simp_all add: A_def)
  have "{k. k < n \<and> asleep ((ph(i := p)) k)} = (if asleep p then insert i A else A)"
    "{k. k < n \<and> asleep (ph k)} = (if asleep (ph i) then insert i A else A)"
    using assms by (auto simp: A_def)
  then show ?thesis using f by (simp add: asleep_count_def)
qed

lemma asleep_count_all: "asleep_count n ph = n \<longleftrightarrow> (\<forall>i<n. asleep (ph i))"
proof -
  have "asleep_count n ph = n \<longleftrightarrow> {i. i < n \<and> asleep (ph i)} = {..<n}"
    by (metis (no_types, lifting) asleep_count_def card_lessThan card_subset_eq finite_lessThan
        lessThan_iff mem_Collect_eq subsetI)
  then show ?thesis by auto
qed

lemma asleep_count_le: "asleep_count n ph \<le> n"
  using card_mono [of "{..<n}" "{i. i < n \<and> asleep (ph i)}"] by (auto simp: asleep_count_def)

lemma unat_count: "k \<le> n \<Longrightarrow> n < 2 ^ 32 \<Longrightarrow> unat (of_nat k :: u32) = k"
  by (simp add: unat_of_nat take_bit_nat_eq_self)

text \<open>\<open>signal_idle\<close> and \<open>signal_running\<close> are called exactly when \<open>idle_sleep\<close> is entered and left.\<close>

lemma sched_step_asleep:
  assumes "sched_step L env t1 t2 t3 i p g = Some (p', g')"
  obtains (enter) s where "p = Ph_sleep" "p' = Ph_idle False" "g' = signal_idle (upd_sched i (\<lambda>_. s) g)"
  | (leave) "p = Ph_idle True" "p' = Ph_check" "g' = upd_sched i idle_sleep_done (signal_running g)"
  | (again) "p = Ph_idle True" "p' = Ph_idle False" "g' = g" "\<not> idle_sleep_ready (scheds g ! i)"
  | (other) "\<not> asleep p" "\<not> asleep p'" "idle_schedulers g' = idle_schedulers g"
      "check_idle g' = check_idle g"
proof (cases p)
  case (Ph_idle b)
  then show ?thesis using assms leave again by (auto split: if_splits)
next
  case Ph_sleep
  then show ?thesis using assms enter other
    by (auto split: prod.splits sleep_result.splits)
next
  case Ph_check
  then show ?thesis using assms other by (auto split: option.splits bool.splits)
next
  case (Ph_steal js)
  then show ?thesis using assms other by (cases js) (auto split: if_splits)
next
  case (Ph_grab j js)
  then show ?thesis using assms other by (auto split: prod.splits option.splits)
qed (use assms other in \<open>auto simp: Let_def split: if_splits\<close>)

lemma sched_step_count:
  assumes "sched_step L env t1 t2 t3 i p g = Some (p', g')"
  shows "idle_schedulers g' + (if asleep p then 1 else 0)
    = idle_schedulers g + (if asleep p' then 1 else 0)"
  using assms
  by (cases rule: sched_step_asleep) (simp_all add: signal_idle_def signal_running_def Let_def)

lemma sched_step_check:
  assumes "sched_step L env t1 t2 t3 i p g = Some (p', g')" and "check_idle g"
  shows "check_idle g'"
  using assms
  by (cases rule: sched_step_asleep) (auto simp: signal_idle_def signal_running_def Let_def)

lemma sched_step_notify:
  assumes "sched_step L env t1 t2 t3 i p g = Some (p', g')"
  shows "p \<noteq> Ph_notify j" "p' \<noteq> Ph_notify j"
proof -
  show "p \<noteq> Ph_notify j" using assms by auto
  show "p' \<noteq> Ph_notify j"
  proof (cases p)
    case (Ph_steal js)
    then show ?thesis using assms by (cases js) (auto split: if_splits)
  qed (use assms in \<open>auto simp: Let_def
      split: if_splits prod.splits option.splits sleep_result.splits bool.splits\<close>)
qed

section \<open>Preservation\<close>

lemma scheds_okD:
  assumes "scheds_ok L c" and "i < length (scheds (rt_g c))"
  shows "glob_inv L (rt_g c)" "baton (scheds (rt_g c) ! i)"
    "phase_ok L (length (scheds (rt_g c))) i (scheds (rt_g c) ! i) (rt_ph c i)"
    "\<not> m_exit (scheds (rt_g c) ! i)"
    "length (m_tasks (sch_tasks (scheds (rt_g c) ! i))) < 2 ^ 64"
    "sched_inv L (scheds (rt_g c) ! i)"
  using assms by (auto simp: scheds_ok_def sched_ok_def glob_inv_def)

lemma scheds_ok_has_tasks:
  "scheds_ok L c \<Longrightarrow> i < length (scheds (rt_g c)) \<Longrightarrow>
    has_tasks (scheds (rt_g c) ! i) \<longleftrightarrow> m_tasks (sch_tasks (scheds (rt_g c) ! i)) \<noteq> []"
  using scheds_okD [of L c i] has_tasks_iff [of "scheds (rt_g c) ! i"]
  by (simp add: sched_inv_def)

text \<open>A step of scheduler \<open>i\<close> keeps the schedulers.\<close>

lemma scheds_ok_moves:
  assumes ok: "scheds_ok L c" and i: "i < length (scheds (rt_g c))"
    and m: "sched_moves L D i (rt_g c) p g'"
    and c': "rt_g c' = g'" "rt_ph c' = (rt_ph c)(i := p)"
  shows "scheds_ok L c'"
proof -
  let ?n = "length (scheds (rt_g c))"
  have n: "length (scheds g') = ?n" and inv: "glob_inv L g'" using m by (simp_all add: sched_moves_def)
  have "sched_ok L ?n k (scheds g' ! k) (rt_ph c' k)" if k: "k < ?n" for k
  proof (cases "k = i")
    case True
    then show ?thesis using m scheds_okD(4,5) [OF ok i] i c'(2)
      by (auto simp: sched_moves_def sched_ok_def intro: order_le_less_trans)
  next
    case False
    then have t: "touched (scheds (rt_g c) ! k) (scheds g' ! k)"
      and l: "length (m_tasks (sch_tasks (scheds g' ! k)))
        \<le> length (m_tasks (sch_tasks (scheds (rt_g c) ! k)))"
      using m k by (simp_all add: sched_moves_def)
    show ?thesis
      using touched_baton [OF t] touched_phase [OF t] touched_same(6) [OF t] l False
        scheds_okD(2-5) [OF ok k] c'(2) by (simp add: sched_ok_def)
  qed
  then show ?thesis using ok n inv c'(1) by (simp add: scheds_ok_def)
qed

text \<open>So does a step that touches scheduler \<open>j\<close> and moves phases harmlessly.\<close>

lemma scheds_ok_touch:
  assumes ok: "scheds_ok L c" and j: "j < length (scheds (rt_g c))"
    and t: "touched (scheds (rt_g c) ! j) s'"
    and l: "length (m_tasks (sch_tasks s')) < 2 ^ 64"
    and g': "rt_g c' = upd_sched j (\<lambda>_. s') (rt_g c)"
    and ph: "\<And>k s. k < length (scheds (rt_g c)) \<Longrightarrow>
      phase_ok L (length (scheds (rt_g c))) k s (rt_ph c k) \<Longrightarrow>
      phase_ok L (length (scheds (rt_g c))) k s (rt_ph c' k)"
  shows "scheds_ok L c'"
proof -
  have inv: "glob_inv L (rt_g c)" using ok by (simp add: scheds_ok_def)
  note m = touch_moves [OF inv t]
  have "sched_ok L (length (scheds (rt_g c))) k (scheds (rt_g c') ! k) (rt_ph c' k)"
    if k: "k < length (scheds (rt_g c))" for k
    using m(2) [of k, THEN touched_baton] m(2) [of k, THEN touched_phase]
      touched_same(6) [OF m(2) [of k]] scheds_okD(2-5) [OF ok k] ph [OF k] l j k
    by (cases "k = j") (simp_all add: sched_ok_def g')
  then show ?thesis using ok m(1) by (simp add: scheds_ok_def g')
qed

lemma count_ok_step:
  assumes "count_ok c" and i: "i < length (scheds (rt_g c))"
    and "length (scheds (rt_g c')) = length (scheds (rt_g c))"
    and ph: "rt_ph c' = (rt_ph c)(i := p')"
    and "idle_schedulers (rt_g c') + (if asleep (rt_ph c i) then 1 else 0)
      = idle_schedulers (rt_g c) + (if asleep p' then 1 else 0)"
  shows "count_ok c'"
proof -
  let ?n = "length (scheds (rt_g c))"
  have "asleep_count ?n (rt_ph c') + (if asleep (rt_ph c i) then 1 else 0)
      = asleep_count ?n (rt_ph c) + (if asleep p' then 1 else 0)"
    unfolding ph by (rule asleep_count_upd [OF i])
  from arg_cong [OF this, of "of_nat :: nat \<Rightarrow> u32"]
  have "(of_nat (asleep_count ?n (rt_ph c')) :: u32) + (if asleep (rt_ph c i) then 1 else 0)
      = of_nat (asleep_count ?n (rt_ph c)) + (if asleep p' then 1 else 0)"
    by (simp only: of_nat_add if_distrib [of of_nat] semiring_1_class.of_nat_0 of_nat_1)
  then show ?thesis using assms(1,3,5) unfolding count_ok_def by (metis add_right_cancel)
qed

text \<open>When nothing but one scheduler's phase changes, its next step finds everything as it was.\<close>

lemma count_all_asleep:
  assumes "count_ok c" and "scheds_ok L c"
  shows "unat (idle_schedulers (rt_g c)) = length (scheds (rt_g c)) \<longleftrightarrow>
    (\<forall>i<length (scheds (rt_g c)). asleep (rt_ph c i))"
    "unat (idle_schedulers (rt_g c)) \<le> length (scheds (rt_g c))"
  using assms unat_count [OF asleep_count_le, of "length (scheds (rt_g c))" "rt_ph c"]
    asleep_count_le [of "length (scheds (rt_g c))" "rt_ph c"]
  by (simp_all add: count_ok_def scheds_ok_def asleep_count_all)

section \<open>A step of \<open>schedule\<close>\<close>

context stl_laws
begin

lemma sleep_enter_wait_tasks:
  assumes e: "sleep_enter L t1 t2 t3 s = (Sl_wait_until tp, s')"
  shows "\<not> (has_tasks s \<and> queue_of L s W_idle \<noteq> [])"
proof -
  obtain b s1 where sp: "should_idle_spin L t1 t2 s = (b, s1)" by fastforce
  then have s1: "has_tasks s1 = has_tasks s" "has_idle_workers L s1 = has_idle_workers L s"
    by (auto simp: should_idle_spin_def has_tasks_def has_idle_workers_def Let_def split: if_splits)
  have "\<not> (has_tasks s1 \<and> has_idle_workers L s1)"
    using e sp by (auto simp: sleep_enter_def Let_def split: if_splits)
  then show ?thesis using s1 by (simp add: has_simps)
qed

lemma sched_step_wake:
  assumes inv: "sched_inv L (scheds g ! i)" and ph: "phase_ok L n i (scheds g ! i) p"
    and b: "baton (scheds g ! i)" and i: "i < length (scheds g)"
    and w: "wake_ok L nt (scheds g ! i) p"
    and st: "sched_step L env t1 t2 t3 i p g = Some (p', g')"
  shows "wake_ok L nt (scheds g' ! i) p'"
proof (cases p)
  case Ph_sleep
  let ?s = "scheds g ! i"
  obtain r s' where e: "sleep_enter L t1 t2 t3 ?s = (r, s')" by fastforce
  show ?thesis
  proof (cases r)
    case Sl_return
    then show ?thesis using Ph_sleep st e by simp
  next
    case (Sl_wait_until tp)
    have g': "p' = Ph_wait tp False" "g' = upd_sched i (\<lambda>_. s') g"
      using Ph_sleep st e Sl_wait_until by simp_all
    note f = sleep_enter_facts(5) [OF e, of tp]
    have s': "s' = ?s\<lparr>idle_start_time := idle_start_time s', sch_state := S_idle_wait,
        sch_running := False\<rparr>"
      using sleep_enter_state [OF e] Sl_wait_until by simp
    have "\<not> cond_set L ?s" using f Sl_wait_until by (simp add: cond_set_def waiters_info_cond)
    moreover have "\<not> (has_tasks ?s \<and> queue_of L ?s W_idle \<noteq> [])"
      using sleep_enter_wait_tasks [OF e [unfolded Sl_wait_until]] .
    ultimately have "\<not> wait_reason L s'"
      by (subst s') (simp add: wait_reason_def cond_set_def queue_of.simps has_tasks_def)
    moreover have "\<not> sch_running s'" by (subst s') simp
    ultimately show ?thesis using g' i by simp
  next
    case Sl_idle_sleep
    have g': "p' = Ph_idle False" "scheds g' ! i = s'"
      using Ph_sleep st e Sl_idle_sleep i by (auto simp: signal_idle_def Let_def)
    have "no_running ?s" "nothing_runnable L ?s" "0 < workers_size ?s"
      using ph Ph_sleep b by (auto simp: in_schedule_def baton_def)
    from idle_sleep_quiescent(2) [OF inv this e [unfolded Sl_idle_sleep]] show ?thesis
      using g' by simp
  qed
next
  case (Ph_steal js)
  then show ?thesis using st by (cases js) (auto split: if_splits)
qed (use st w in \<open>auto simp: Let_def idle_sleep_ready_def
    split: if_splits prod.splits option.splits sleep_result.splits bool.splits\<close>)

lemma wakes_ok_moves:
  assumes ok: "scheds_ok L c" and i: "i < length (scheds (rt_g c))" and w: "wakes_ok L c"
    and m: "sched_moves L D i (rt_g c) p' (rt_g c')"
    and ph: "rt_ph c' = (rt_ph c)(i := p')" and mp: "rt_main c' = rt_main c"
    and n: "\<And>j. rt_ph c i \<noteq> Ph_notify j"
    and own: "\<And>nt. wake_ok L nt (scheds (rt_g c) ! i) (rt_ph c i) \<Longrightarrow>
      wake_ok L nt (scheds (rt_g c') ! i) p'"
    and ok': "scheds_ok L c'"
  shows "wakes_ok L c'"
proof -
  have len: "length (scheds (rt_g c')) = length (scheds (rt_g c))"
    using m by (simp add: sched_moves_def)
  have nt: "notifying c k \<Longrightarrow> notifying c' k" for k
    using n unfolding notifying_def ph mp len by (metis fun_upd_other)
  have mono: "wake_ok L a s p \<Longrightarrow> (a \<Longrightarrow> b) \<Longrightarrow> wake_ok L b s p" for a b s p
    by (cases "(L, a, s, p)" rule: wake_ok.cases) auto
  have "wake_ok L (notifying c' k) (scheds (rt_g c') ! k) (rt_ph c' k)"
    if k: "k < length (scheds (rt_g c))" for k
  proof (cases "k = i")
    case True
    then show ?thesis using own mono [OF own nt] w i ph by (auto simp: wakes_ok_def)
  next
    case False
    have wk: "wake_ok L (notifying c k) (scheds (rt_g c) ! k) (rt_ph c k)"
      using w k by (simp add: wakes_ok_def)
    have t: "touched (scheds (rt_g c) ! k) (scheds (rt_g c') ! k)"
      "sch_running (scheds (rt_g c') ! k) = sch_running (scheds (rt_g c) ! k)"
      "\<And>v. w_cond (workers (scheds (rt_g c') ! k) v) = w_cond (workers (scheds (rt_g c) ! k) v)"
      "length (m_tasks (sch_tasks (scheds (rt_g c') ! k)))
        \<le> length (m_tasks (sch_tasks (scheds (rt_g c) ! k)))"
      using m False k by (simp_all add: sched_moves_def)
    have "has_tasks (scheds (rt_g c') ! k) \<Longrightarrow> has_tasks (scheds (rt_g c) ! k)"
      using scheds_ok_has_tasks [OF ok k] scheds_ok_has_tasks [OF ok', of k] k len t(4) by auto
    moreover have "cond_set L (scheds (rt_g c') ! k) = cond_set L (scheds (rt_g c) ! k)"
      by (simp add: cond_set_def touched_queue [OF t(1)] t(3))
    ultimately have "wake_ok L (notifying c k) (scheds (rt_g c') ! k) (rt_ph c k)"
      using wk t(2) touched_queue [OF t(1), of L W_idle]
      by (cases "rt_ph c k") (auto simp: wait_reason_def)
    then show ?thesis using mono nt False ph by (metis fun_upd_other)
  qed
  then show ?thesis by (simp add: wakes_ok_def len)
qed

end

end
