(* ===== verification/Runtime_Safe.thy ===== *)
theory Runtime_Safe
  imports Runtime_Open
begin

text \<open>
  Every step of the program keeps the invariant of the theory Runtime_Open until the main thread
  starts the shutdown.
\<close>

lemma wake_ok_mono: "wake_ok L a s p \<Longrightarrow> (a \<Longrightarrow> b) \<Longrightarrow> wake_ok L b s p"
  by (cases "(L, a, s, p)" rule: wake_ok.cases) auto

lemma open_invD:
  assumes "open_inv L c"
  shows "scheds_ok L c" "count_ok c" "bag_ok c" "wakes_ok L c" "main_ok (rt_main c) c"
  using assms by (simp_all add: open_inv_def)

text \<open>The part of the main thread's condition that a step of a scheduler must keep.\<close>

lemma main_ok_keep:
  assumes "main_ok (rt_main c) c" and "rt_main c' = rt_main c"
    and "length (scheds (rt_g c')) = length (scheds (rt_g c))"
    and "check_idle (rt_g c) \<Longrightarrow> check_idle (rt_g c')"
    and "quiescent c' \<Longrightarrow> quiescent c \<or> check_idle (rt_g c')"
  shows "main_ok (rt_main c') c'"
  using assms by (cases "rt_main c") auto

text \<open>The main thread is past \<open>wait_exit\<close>.\<close>

fun closing :: "main_phase \<Rightarrow> bool" where
  "closing (Mp_signal k) = True"
| "closing (Mp_wake k) = True"
| "closing (Mp_join k ws) = True"
| "closing (Mp_joining k w ws) = True"
| "closing Mp_done = True"
| "closing _ = False"

context stl_laws
begin

lemma open_sched:
  assumes o: "open_inv L c" and i: "i < length (scheds (rt_g c))"
    and st: "sched_step L env t1 t2 t3 i (rt_ph c i) (rt_g c) = Some r"
  shows "open_inv L (set_phase i r c)"
proof -
  let ?c' = "set_phase i r c"
  obtain p' g' where r: "r = (p', g')" by (cases r)
  note ok = open_invD [OF o]
  note d = scheds_okD [OF ok(1) i]
  note m = sched_step_moves [OF d(1) i d(2,3,4) st [unfolded r]]
  have c': "rt_g ?c' = g'" "rt_ph ?c' = (rt_ph c)(i := p')" "rt_main ?c' = rt_main c"
    "rt_sub ?c' = rt_sub c" "rt_fin ?c' = rt_fin c"
    by (simp_all add: set_phase_def r)
  have len: "length (scheds g') = length (scheds (rt_g c))" using m by (simp add: sched_moves_def)
  have ok1: "scheds_ok L ?c'" by (rule scheds_ok_moves [OF ok(1) i m c'(1,2)])
  have ok2: "count_ok ?c'"
    by (rule count_ok_step [OF ok(2) i])
      (use sched_step_count [OF st [unfolded r]] len in \<open>simp_all add: c'\<close>)
  have "wakes_ok L ?c'"
    by (rule wakes_ok_moves [OF ok(1) i ok(4) m [folded c'(1)] c'(2,3) _ _ ok1])
      (use sched_step_notify [OF st [unfolded r]] sched_step_wake [OF d(6,3,2) i _ st [unfolded r]]
        in \<open>simp_all add: c'\<close>)
  moreover have "bag_ok ?c'" using ok(3) m by (simp add: bag_ok_def c' sched_moves_def)
  moreover have "main_ok (rt_main ?c') ?c'"
  proof (rule main_ok_keep [OF ok(5) c'(3)])
    show "length (scheds (rt_g ?c')) = length (scheds (rt_g c))" by (simp add: c' len)
    show "check_idle (rt_g c) \<Longrightarrow> check_idle (rt_g ?c')"
      using sched_step_check [OF st [unfolded r]] by (simp add: c')
    assume q: "quiescent ?c'"
    then have a: "\<forall>k<length (scheds (rt_g ?c')). asleep (rt_ph ?c' k)" by (simp add: quiescent_def)
    then have p': "asleep p'" using i len by (auto simp: c')
    show "quiescent c \<or> check_idle (rt_g ?c')"
      using st [unfolded r]
    proof (cases rule: sched_step_asleep)
      case (enter s)
      have "unat (idle_schedulers g') = length (scheds g')"
        using count_all_asleep(1) [OF ok2 ok1] a by (simp add: c')
      then show ?thesis using enter by (auto simp: c' signal_idle_def Let_def split: if_splits)
    next
      case again
      have e: "rt_g ?c' = rt_g c" by (simp only: c'(1) again(3))
      have "asleep (rt_ph c k)" if "k < length (scheds (rt_g c))" for k
        using a that again(1) unfolding e c'(2) by (cases "k = i") auto
      then have "quiescent c" using q unfolding quiescent_def e by blast
      then show ?thesis ..
    qed (use p' in simp_all)
  qed
  ultimately show ?thesis using ok1 ok2 by (simp add: open_inv_def)
qed

lemma own_op_result:
  assumes "own_op op" and "user_step L i w op g = Some (p', g')"
  shows "p' = Ph_exec \<or> p' = Ph_io" "idle_schedulers g' = idle_schedulers g"
    "check_idle g' = check_idle g"
  using assms by (cases op; auto simp: resume_def)+

lemma open_user_own:
  assumes o: "open_inv L c" and i: "i < length (scheds (rt_g c))" and ph: "rt_ph c i = Ph_exec"
    and w: "m_worker (scheds (rt_g c) ! i) = Some w" and op: "own_op op"
    and st: "user_step L i w op (rt_g c) = Some r"
  shows "open_inv L (count_op op (workers (scheds (rt_g c) ! i) w) (set_phase i r c))"
proof -
  let ?x = "workers (scheds (rt_g c) ! i) w"
  let ?c' = "count_op op ?x (set_phase i r c)"
  obtain p' g' where r: "r = (p', g')" by (cases r)
  note ok = open_invD [OF o]
  note d = scheds_okD [OF ok(1) i]
  have rt: "runs_task (scheds (rt_g c) ! i)" using d(3) ph by simp
  note m = user_step_moves [OF d(1) i d(2) rt w op st [unfolded r]]
  have c': "rt_g ?c' = g'" "rt_ph ?c' = (rt_ph c)(i := p')" "rt_main ?c' = rt_main c"
    "rt_sub ?c' = rt_sub c" "rt_fin ?c' = rt_fin c + finished_by op ?x"
    using op by (cases op; simp add: count_op_def set_phase_def r finished_by_def)+
  note res = own_op_result [OF op st [unfolded r]]
  have len: "length (scheds g') = length (scheds (rt_g c))" using m by (simp add: sched_moves_def)
  have ok1: "scheds_ok L ?c'" by (rule scheds_ok_moves [OF ok(1) i m c'(1,2)])
  have "count_ok ?c'"
    by (rule count_ok_step [OF ok(2) i]) (use res len ph in \<open>auto simp: c'\<close>)
  moreover have "wakes_ok L ?c'"
    by (rule wakes_ok_moves [OF ok(1) i ok(4) m [folded c'(1)] c'(2,3) _ _ ok1])
      (use ph res in auto)
  moreover have "bag_ok ?c'"
    using ok(3) m by (simp add: bag_ok_def c' sched_moves_def ac_simps)
  moreover have "\<not> quiescent ?c'" using i len res(1) by (auto simp: quiescent_def c')
  then have "main_ok (rt_main ?c') ?c'"
    by (intro main_ok_keep [OF ok(5) c'(3)]) (use res len in \<open>simp_all add: c'\<close>)
  ultimately show ?thesis using ok1 by (simp add: open_inv_def)
qed

text \<open>A step that touches scheduler \<open>j\<close>: what is left to show for each kind.\<close>

lemma open_touch:
  assumes o: "open_inv L c" and j: "j < length (scheds (rt_g c))"
    and t: "touched (scheds (rt_g c) ! j) s'"
    and l: "length (m_tasks (sch_tasks s')) < 2 ^ 64"
    and g': "rt_g c' = upd_sched j (\<lambda>_. s') (rt_g c)"
    and ph: "\<And>k s. k < length (scheds (rt_g c)) \<Longrightarrow>
      phase_ok L (length (scheds (rt_g c))) k s (rt_ph c k) \<Longrightarrow>
      phase_ok L (length (scheds (rt_g c))) k s (rt_ph c' k)"
    and a: "\<And>k. k < length (scheds (rt_g c)) \<Longrightarrow> asleep (rt_ph c' k) = asleep (rt_ph c k)"
    and bag: "bag_ok c'" and main: "main_ok (rt_main c') c'"
    and nt: "\<And>k. k \<noteq> j \<Longrightarrow> notifying c k \<Longrightarrow> notifying c' k"
    and wk: "\<And>k b s. k \<noteq> j \<Longrightarrow> wake_ok L b s (rt_ph c k) \<Longrightarrow> wake_ok L b s (rt_ph c' k)"
    and wj: "wake_ok L (notifying c' j) s' (rt_ph c' j)"
  shows "open_inv L c'"
proof -
  note ok = open_invD [OF o]
  have "scheds_ok L c'" by (rule scheds_ok_touch [OF ok(1) j t l g' ph])
  moreover have "asleep_count (length (scheds (rt_g c))) (rt_ph c')
      = asleep_count (length (scheds (rt_g c))) (rt_ph c)"
    using a by (auto simp: asleep_count_def intro!: arg_cong [where f = card])
  then have "count_ok c'" using ok(2) by (simp add: count_ok_def g')
  moreover have "wake_ok L (notifying c' k) (scheds (rt_g c') ! k) (rt_ph c' k)"
    if k: "k < length (scheds (rt_g c))" for k
  proof (cases "k = j")
    case True
    then show ?thesis using wj j by (simp add: g')
  next
    case False
    have "wake_ok L (notifying c k) (scheds (rt_g c) ! k) (rt_ph c k)"
      using ok(4) k by (simp add: wakes_ok_def)
    from this nt [OF False] have "wake_ok L (notifying c' k) (scheds (rt_g c) ! k) (rt_ph c k)"
      by (rule wake_ok_mono)
    then show ?thesis using wk [OF False] False by (simp add: g')
  qed
  then have "wakes_ok L c'" by (simp add: wakes_ok_def g')
  ultimately show ?thesis using bag main by (simp add: open_inv_def)
qed

lemma push_task_simps [simp]:
  "m_tasks (sch_tasks (push_task t s)) = m_tasks (sch_tasks s) @ [t]"
  "sch_running (push_task t s) = sch_running s"
  by (simp_all add: push_task_def)

lemma upd_sched_const: "upd_sched j f g = upd_sched j (\<lambda>_. f (scheds g ! j)) g"
  by (simp add: upd_sched_def)

text \<open>Submitting a task, and setting the condition of a worker; the notification is to follow.\<close>

lemma notifying_exec:
  assumes "rt_ph c i = Ph_exec" and "i < length (scheds (rt_g c))"
    and "rt_ph c' = (rt_ph c)(i := Ph_notify j)" and "rt_main c' = rt_main c"
    and "length (scheds (rt_g c')) = length (scheds (rt_g c))"
  shows "notifying c k \<Longrightarrow> notifying c' k" "notifying c' j"
proof -
  show "notifying c k \<Longrightarrow> notifying c' k"
    using assms(1) unfolding notifying_def assms(3,4,5) by (metis fun_upd_other phase.distinct(1))
  show "notifying c' j" using assms(2,5) unfolding notifying_def assms(3) by auto
qed

lemma open_user_touch:
  assumes o: "open_inv L c" and i: "i < length (scheds (rt_g c))" and ph: "rt_ph c i = Ph_exec"
    and j: "j < length (scheds (rt_g c))" and t: "touched (scheds (rt_g c) ! j) s'"
    and ts: "m_tasks (sch_tasks s') = m_tasks (sch_tasks (scheds (rt_g c) ! j)) @ ts"
      "length (m_tasks (sch_tasks s')) < 2 ^ 64"
    and rn: "sch_running s' = sch_running (scheds (rt_g c) ! j)"
    and c': "rt_g c' = upd_sched j (\<lambda>_. s') (rt_g c)" "rt_ph c' = (rt_ph c)(i := Ph_notify j)"
      "rt_main c' = rt_main c" "rt_sub c' = rt_sub c + mset ts" "rt_fin c' = rt_fin c"
  shows "open_inv L c'"
proof (rule open_touch [OF o j t ts(2) c'(1)])
  note ok = open_invD [OF o]
  note nt = notifying_exec [OF ph i c'(2,3)]
  show "phase_ok L (length (scheds (rt_g c))) k s (rt_ph c' k)"
    if "phase_ok L (length (scheds (rt_g c))) k s (rt_ph c k)" for k s
    using that ph j by (auto simp: c')
  show "asleep (rt_ph c' k) = asleep (rt_ph c k)" for k using ph by (simp add: c')
  show "bag_ok c'" using ok(3) touched_bag [OF j t ts(1)] by (simp add: bag_ok_def c')
  show "notifying c k \<Longrightarrow> notifying c' k" for k by (rule nt(1)) (simp_all add: c')
  show "wake_ok L b s (rt_ph c k) \<Longrightarrow> wake_ok L b s (rt_ph c' k)" for k b s by (auto simp: c' ph)
  have "notifying c' j" by (rule nt(2)) (simp add: c')
  moreover have "wake_ok L (notifying c j) (scheds (rt_g c) ! j) (rt_ph c j)"
    using ok(4) j by (simp add: wakes_ok_def)
  ultimately show "wake_ok L (notifying c' j) s' (rt_ph c' j)"
    using rn by (cases "rt_ph c j") (auto simp: c' ph)
  have "\<not> quiescent c'" using i by (auto simp: quiescent_def c')
  then show "main_ok (rt_main c') c'"
    by (intro main_ok_keep [OF ok(5) c'(3)]) (simp_all add: c')
qed

text \<open>Delivering a notification.\<close>

lemma wake_facts: "asleep (wake p) = asleep p" "wake p \<noteq> Ph_notify k \<or> wake p = p"
  by (cases p; simp)+

lemma phase_ok_wake: "phase_ok L n k s p \<Longrightarrow> phase_ok L n k s (wake p)"
  by (cases p) simp_all

lemma wake_ok_notified: "wake_ok L b (notify_sched s) (wake p)"
  by (cases p) (simp_all add: notify_sched_def)

lemma open_deliver:
  assumes o: "open_inv L c" and j: "j < length (scheds (rt_g c))"
    and c': "rt_g c' = upd_sched j notify_sched (rt_g c)" "rt_ph c' = q(j := wake (q j))"
      "rt_sub c' = rt_sub c" "rt_fin c' = rt_fin c"
    and q: "\<And>k s. phase_ok L (length (scheds (rt_g c))) k s (rt_ph c k) \<Longrightarrow>
      phase_ok L (length (scheds (rt_g c))) k s (q k)"
      "\<And>k. asleep (q k) = asleep (rt_ph c k)"
      "\<And>k b s. wake_ok L b s (rt_ph c k) \<Longrightarrow> wake_ok L b s (q k)"
    and nt: "\<And>k. k \<noteq> j \<Longrightarrow> notifying c k \<Longrightarrow> notifying c' k"
    and main: "main_ok (rt_main c') c'"
  shows "open_inv L c'"
proof (rule open_touch [OF o j touched_notify])
  note ok = open_invD [OF o]
  show "length (m_tasks (sch_tasks (notify_sched (scheds (rt_g c) ! j)))) < 2 ^ 64"
    using scheds_okD(5) [OF ok(1) j] by (simp add: notify_sched_def)
  show g': "rt_g c' = upd_sched j (\<lambda>_. notify_sched (scheds (rt_g c) ! j)) (rt_g c)"
    unfolding c'(1) by (rule upd_sched_const)
  show "phase_ok L (length (scheds (rt_g c))) k s (rt_ph c' k)"
    if "phase_ok L (length (scheds (rt_g c))) k s (rt_ph c k)" for k s
    using q(1) [OF that] phase_ok_wake [OF q(1) [OF that]] by (cases "k = j") (simp_all add: c')
  show "asleep (rt_ph c' k) = asleep (rt_ph c k)" for k by (simp add: c' wake_facts q(2))
  have "glob_bag (rt_g c') = glob_bag (rt_g c)"
    using touched_bag [OF j touched_notify, of "[]"] by (simp add: g' notify_sched_def)
  then show "bag_ok c'" using ok(3) by (simp add: bag_ok_def c')
  show "wake_ok L b s (rt_ph c' k)" if "k \<noteq> j" "wake_ok L b s (rt_ph c k)" for k b s
    using q(3) [OF that(2)] that(1) by (simp add: c')
  show "wake_ok L (notifying c' j) (notify_sched (scheds (rt_g c) ! j)) (rt_ph c' j)"
    by (simp add: c' wake_ok_notified)
qed (use nt main in auto)

lemma open_notify:
  assumes o: "open_inv L c" and i: "i < length (scheds (rt_g c))" and ph: "rt_ph c i = Ph_notify j"
  shows "open_inv L (deliver j (c\<lparr>rt_ph := (rt_ph c)(i := Ph_exec)\<rparr>))"
proof -
  let ?q = "(rt_ph c)(i := Ph_exec)"
  let ?c' = "deliver j (c\<lparr>rt_ph := ?q\<rparr>)"
  note ok = open_invD [OF o]
  have j: "j < length (scheds (rt_g c))" using scheds_okD(3) [OF ok(1) i] ph by simp
  have c': "rt_g ?c' = upd_sched j notify_sched (rt_g c)" "rt_ph ?c' = ?q(j := wake (?q j))"
    "rt_sub ?c' = rt_sub c" "rt_fin ?c' = rt_fin c" "rt_main ?c' = rt_main c"
    by (simp_all add: deliver_def)
  have n: "notifying ?c' k" if "k \<noteq> j" "notifying c k" for k
  proof (cases "\<exists>u<length (scheds (rt_g c)). rt_ph c u = Ph_notify k")
    case True
    then obtain u where u: "u < length (scheds (rt_g c))" "rt_ph c u = Ph_notify k" by blast
    then have "u \<noteq> i" using ph that(1) by auto
    then have "rt_ph ?c' u = Ph_notify k" using u(2) by (cases "u = j") (simp_all add: c'(2))
    then show ?thesis using u(1) by (auto simp: notifying_def c'(1))
  next
    case False
    then show ?thesis using that(2) by (auto simp: notifying_def c'(5))
  qed
  have "\<not> asleep (rt_ph ?c' i)" unfolding c'(2) by (cases "i = j") simp_all
  then have nq: "\<not> quiescent ?c'" using i by (auto simp: quiescent_def c'(1))
  have main: "main_ok (rt_main ?c') ?c'"
    by (rule main_ok_keep [OF ok(5) c'(5)]) (simp_all add: c'(1) nq)
  show ?thesis
    by (rule open_deliver [OF o j c'(1-4) _ _ _ n main])
      (use ph in \<open>auto simp: fun_upd_def split: if_splits\<close>)
qed

lemma open_spurious:
  assumes o: "open_inv L c" and i: "i < length (scheds (rt_g c))"
    and ph: "rt_ph c i = Ph_wait tp False \<and> p = Ph_wait tp True \<or>
      rt_ph c i = Ph_idle False \<and> p = Ph_idle True"
  shows "open_inv L (c\<lparr>rt_ph := (rt_ph c)(i := p)\<rparr>)"
proof (rule open_touch [OF o i touched_refl])
  let ?c' = "c\<lparr>rt_ph := (rt_ph c)(i := p)\<rparr>"
  note ok = open_invD [OF o]
  show "rt_g ?c' = upd_sched i (\<lambda>_. scheds (rt_g c) ! i) (rt_g c)" by (simp add: upd_sched_def)
  have n: "notifying c k \<Longrightarrow> notifying ?c' k" for k
    using ph unfolding notifying_def by (auto split: if_splits)
  show "notifying c k \<Longrightarrow> notifying ?c' k" for k by (rule n)
  have "asleep p = asleep (rt_ph c i)" using ph by auto
  then have "quiescent ?c' = quiescent c" using i by (auto simp: quiescent_def)
  then show "main_ok (rt_main ?c') ?c'" by (intro main_ok_keep [OF ok(5)]) simp_all
  have "wake_ok L (notifying c i) (scheds (rt_g c) ! i) (rt_ph c i)"
    using ok(4) i by (simp add: wakes_ok_def)
  then show "wake_ok L (notifying ?c' i) (scheds (rt_g c) ! i) (rt_ph ?c' i)"
    using ph n [of i] by auto
qed (use ph scheds_okD(5) [OF open_invD(1) [OF o] i] open_invD(3) [OF o]
    in \<open>auto simp: bag_ok_def split: if_splits\<close>)

section \<open>The main thread\<close>

lemma open_main_same:
  assumes o: "open_inv L c"
    and e: "scheds (rt_g c') = scheds (rt_g c)" "idle_schedulers (rt_g c') = idle_schedulers (rt_g c)"
      "rt_ph c' = rt_ph c" "rt_sub c' = rt_sub c" "rt_fin c' = rt_fin c"
    and m: "\<And>k. rt_main c \<noteq> Mp_notify k" "\<And>k. rt_main c \<noteq> Mp_wake k"
    and main: "main_ok (rt_main c') c'"
  shows "open_inv L c'"
proof -
  note ok = open_invD [OF o]
  have "notifying c k \<Longrightarrow> notifying c' k" for k using m by (auto simp: notifying_def e)
  then have "wakes_ok L c'" using ok(4) wake_ok_mono unfolding wakes_ok_def e by blast
  moreover have "scheds_ok L c'" using ok(1) by (simp add: scheds_ok_def glob_inv_def e)
  moreover have "count_ok c'" "bag_ok c'"
    using ok(2,3) by (simp_all add: count_ok_def bag_ok_def glob_bag_def e)
  ultimately show ?thesis using main by (simp add: open_inv_def)
qed

text \<open>When everything is quiescent, no stage of \<open>all_idle\<close> fails.\<close>

lemma quiescent_facts:
  assumes o: "open_inv L c" and q: "quiescent c"
  shows "unat (idle_schedulers (rt_g c)) = length (scheds (rt_g c))"
    "k < length (scheds (rt_g c)) \<Longrightarrow> \<not> has_tasks (scheds (rt_g c) ! k)"
    "list_all (\<lambda>s. sched_idle s \<and> \<not> has_tasks s) (scheds (rt_g c))"
proof -
  note ok = open_invD [OF o]
  have a: "\<forall>i<length (scheds (rt_g c)). asleep (rt_ph c i)" using q by (simp add: quiescent_def)
  then show "unat (idle_schedulers (rt_g c)) = length (scheds (rt_g c))"
    using count_all_asleep(1) [OF ok(2,1)] by simp
  show t: "k < length (scheds (rt_g c)) \<Longrightarrow> \<not> has_tasks (scheds (rt_g c) ! k)" for k
    using scheds_ok_has_tasks [OF ok(1)] q by (simp add: quiescent_def)
  have "sched_idle (scheds (rt_g c) ! k)" if k: "k < length (scheds (rt_g c))" for k
    using a scheds_okD(3) [OF ok(1) k] k by (cases "rt_ph c k") (auto simp: sched_idle_def)
  then show "list_all (\<lambda>s. sched_idle s \<and> \<not> has_tasks s) (scheds (rt_g c))"
    using t by (simp add: list_all_length)
qed

lemma open_main_async:
  assumes o: "open_inv L c" and m: "rt_main c = Mp_async t" and st: "main_step j (Mp_async t) c = Some c'"
  shows "open_inv L c'"
proof -
  note ok = open_invD [OF o]
  have j: "j < length (scheds (rt_g c))"
    "Suc (length (m_tasks (sch_tasks (scheds (rt_g c) ! j)))) < 2 ^ 64"
    and c': "c' = c\<lparr>rt_g := upd_sched j (push_task t) (rt_g c), rt_main := Mp_notify j,
        rt_sub := add_mset t (rt_sub c)\<rparr>"
    using st by (auto simp: can_push_def split: if_splits)
  have ci: "check_idle (rt_g c)" using ok(5) m by simp
  have g': "rt_g c' = upd_sched j (\<lambda>_. push_task t (scheds (rt_g c) ! j)) (rt_g c)"
    using upd_sched_const by (simp add: c')
  have ts: "m_tasks (sch_tasks (push_task t (scheds (rt_g c) ! j)))
      = m_tasks (sch_tasks (scheds (rt_g c) ! j)) @ [t]"
    by (simp add: push_task_def)
  have ph: "rt_ph c' = rt_ph c" by (simp add: c')
  have nt: "notifying c k \<Longrightarrow> notifying c' k" "notifying c' j" for k
    using m by (auto simp: notifying_def c')
  show ?thesis
  proof (rule open_touch [OF o j(1) touched_push _ g'])
    show "bag_ok c'" using ok(3) touched_bag [OF j(1) touched_push ts]
      by (simp add: bag_ok_def g') (simp add: c')
    have "wake_ok L (notifying c j) (scheds (rt_g c) ! j) (rt_ph c j)"
      using ok(4) j by (simp add: wakes_ok_def)
    then show "wake_ok L (notifying c' j) (push_task t (scheds (rt_g c) ! j)) (rt_ph c' j)"
      using nt(2) unfolding ph by (cases "rt_ph c j") (auto simp: push_task_def)
  qed (use j ci nt ph in \<open>simp_all add: push_task_def c'\<close>)
qed

lemma open_main_notify:
  assumes o: "open_inv L c" and m: "rt_main c = Mp_notify k" and st: "main_step j (Mp_notify k) c = Some c'"
  shows "open_inv L c'"
proof -
  have c': "c' = (deliver k c)\<lparr>rt_main := Mp_wait\<rparr>" using st by simp
  have k: "k < length (scheds (rt_g c))" and ci: "check_idle (rt_g c)"
    using open_invD(5) [OF o] m by simp_all
  show ?thesis
  proof (rule open_deliver [OF o k, where q = "rt_ph c"])
    show "main_ok (rt_main c') c'" using ci by (simp add: c' deliver_def)
    fix u assume u: "u \<noteq> k" "notifying c u"
    then obtain v where v: "v < length (scheds (rt_g c))" "rt_ph c v = Ph_notify u"
      using m by (auto simp: notifying_def)
    then have "rt_ph c' v = Ph_notify u" by (cases "v = k") (simp_all add: c' deliver_def)
    then show "notifying c' u" using v(1) by (auto simp: notifying_def c' deliver_def)
  qed (simp_all add: c' deliver_def)
qed

lemma open_main:
  assumes o: "open_inv L c" and st: "main_step j (rt_main c) c = Some c'"
    and nc: "\<not> closing (rt_main c')"
  shows "open_inv L c'"
proof -
  note ok = open_invD [OF o]
  note same = open_main_same [OF o]
  note q = quiescent_facts [OF o]
  show ?thesis
  proof (cases "rt_main c")
    case (Mp_async t)
    show ?thesis by (rule open_main_async [OF o Mp_async st [unfolded Mp_async]])
  next
    case (Mp_notify k)
    show ?thesis by (rule open_main_notify [OF o Mp_notify st [unfolded Mp_notify]])
  next
    case Mp_wait
    then show ?thesis using st ok(5)
      by (intro same) (auto simp: main_block_def quiescent_def split: if_splits)
  next
    case Mp_count
    then show ?thesis using st q(1) by (intro same) (auto simp: quiescent_def)
  next
    case (Mp_scan ks)
    show ?thesis
    proof (cases ks)
      case Nil
      then show ?thesis using Mp_scan st by (intro same) auto
    next
      case (Cons k ks')
      have k: "k < length (scheds (rt_g c))" "set ks' \<subseteq> {..<length (scheds (rt_g c))}"
        using ok(5) Mp_scan Cons by simp_all
      have c': "c' = c\<lparr>rt_main := if has_tasks (scheds (rt_g c) ! k) then Mp_relock else Mp_scan ks'\<rparr>"
        using st Mp_scan Cons by simp
      have "quiescent c' = quiescent c" by (simp add: quiescent_def c')
      then show ?thesis using q(2) [OF _ k(1)] k(2) Mp_scan by (intro same) (auto simp: c')
    qed
  next
    case Mp_locked
    have c': "c' = c\<lparr>rt_main := Mp_relock\<rparr>"
      and n: "\<not> list_all (\<lambda>s. sched_idle s \<and> \<not> has_tasks s) (scheds (rt_g c))"
      using st Mp_locked nc by (auto split: if_splits)
    have "quiescent c' = quiescent c" by (simp add: quiescent_def c')
    then show ?thesis using q(3) n Mp_locked by (intro same) (auto simp: c')
  next
    case Mp_relock
    then show ?thesis using st ok(5) by (intro same) (auto simp: main_block_def quiescent_def)
  next
    case Mp_blocked
    then show ?thesis using st ok(5) by (intro same) (auto simp: quiescent_def split: if_splits)
  qed (use ok(5) in simp_all)
qed

text \<open>All actions together.\<close>

lemma open_act:
  assumes o: "open_inv L c" and st: "rt_act L a c = Some c'" and nc: "\<not> closing (rt_main c')"
  shows "open_inv L c'"
proof (cases a)
  case (A_sched i env t1 t2 t3)
  then show ?thesis using st open_sched [OF o] by (auto split: if_splits)
next
  case (A_user i op)
  then have i: "i < length (scheds (rt_g c))" using st by (auto split: if_splits)
  then obtain w r where w: "current_worker c i = Some w" and r: "user_step L i w op (rt_g c) = Some r"
    and c': "c' = count_op op (workers (scheds (rt_g c) ! i) w) (set_phase i r c)"
    using A_user st by (auto split: option.splits)
  have ph: "rt_ph c i = Ph_exec" "m_worker (scheds (rt_g c) ! i) = Some w"
    using w by (auto simp: current_worker_def split: if_splits)
  show ?thesis
  proof (cases op)
    case (U_async t j)
    then have j: "can_push (rt_g c) j" and r': "r = (Ph_notify j, upd_sched j (push_task t) (rt_g c))"
      using r by (auto split: if_splits)
    show ?thesis
      by (rule open_user_touch [OF o i ph(1) _ touched_push, where ts = "[t]" and j = j])
        (use j upd_sched_const [of j "push_task t" "rt_g c"]
          in \<open>simp_all add: can_push_def c' U_async r' count_op_def set_phase_def\<close>)
  next
    case (U_notify_waiter j v)
    then have j: "j < length (scheds (rt_g c))"
      and r': "r = (Ph_notify j, upd_sched j (upd_worker v set_cond) (rt_g c))"
      using r by (auto split: if_splits)
    show ?thesis
      by (rule open_user_touch [OF o i ph(1) j touched_cond [where v = v], where ts = "[]"])
        (use upd_sched_const [of j "upd_worker v set_cond" "rt_g c"] scheds_okD(5) [OF open_invD(1) [OF o] j]
          in \<open>simp_all add: c' U_notify_waiter r' count_op_def set_phase_def upd_worker_def\<close>)
  qed (use c' open_user_own [OF o i ph _ r] in auto)
next
  case (A_notify i)
  then show ?thesis using st open_notify [OF o] by (auto split: if_splits phase.splits)
next
  case (A_spurious i)
  then show ?thesis using st open_spurious [OF o]
    by (auto split: if_splits phase.splits bool.splits)
next
  case A_spurious_main
  then show ?thesis using st open_invD(5) [OF o]
    by (intro open_main_same [OF o]) (auto simp: quiescent_def split: if_splits)
next
  case (A_main j)
  then show ?thesis using st open_main [OF o _ nc] by simp
qed

end

end
