(* ===== verification/Threads.thy ===== *)
theory Threads
  imports Prelude
begin

text \<open>
  Threads that call the operations of a shared object, interleaved at the granularity of the
  atomic accesses of the code. A component gives its memory \<open>'m\<close>, the frames \<open>'f\<close> of its
  operations (program counter and local variables), one function \<open>code\<close> that executes one
  atomic access of a frame, the calls that its clients may make, and what a result means for
  the client. The locale \<open>ghost_machine\<close> is the proof principle all the locks share: an invariant
  that gives each thread a view of the memory relative to a ghost, such as the current owner.

  Atomic accesses are sequentially consistent in this model. That the memory orders of the code are
  enough for the spinlock, \<open>Mutex\<close> and \<open>Recursive_mutex\<close> is shown in the theories Weak_memory and
  Weak_locks, for the same functions \<open>code\<close>.
\<close>

section \<open>Threads and their interleaving\<close>

text \<open>
  What the client knows (\<open>th_held\<close>, a ghost), the frame of the operation it executes, and the
  result of the last one.
\<close>

record ('h, 'f, 'r) thread =
  th_held :: 'h
  th_call :: "'f option"
  th_last :: "'r option"

record ('m, 'h, 'f, 'r) conf =
  shared :: 'm
  thread_of :: "tid \<Rightarrow> ('h, 'f, 'r) thread"

inductive thread_step ::
  "('h \<Rightarrow> 'f \<Rightarrow> 'h \<Rightarrow> bool) \<Rightarrow> (tid \<Rightarrow> 'f \<Rightarrow> 'm \<Rightarrow> ('f + 'r) \<times> 'm) \<Rightarrow> ('r \<Rightarrow> 'h \<Rightarrow> 'h) \<Rightarrow>
   tid \<Rightarrow> ('m, 'h, 'f, 'r) conf \<Rightarrow> ('m, 'h, 'f, 'r) conf \<Rightarrow> bool"
  for calls code ret t where
  call: "th_call (thread_of c t) = None \<Longrightarrow> calls (th_held (thread_of c t)) f h' \<Longrightarrow>
    thread_step calls code ret t c (c\<lparr>thread_of := (thread_of c)(t :=
      \<lparr>th_held = h', th_call = Some f, th_last = th_last (thread_of c t)\<rparr>)\<rparr>)"
| access: "th_call (thread_of c t) = Some f \<Longrightarrow> code t f (shared c) = (Inl f', m') \<Longrightarrow>
    thread_step calls code ret t c (\<lparr>shared = m', thread_of = (thread_of c)(t :=
      (thread_of c t)\<lparr>th_call := Some f'\<rparr>)\<rparr>)"
| return: "th_call (thread_of c t) = Some f \<Longrightarrow> code t f (shared c) = (Inr r, m') \<Longrightarrow>
    thread_step calls code ret t c (\<lparr>shared = m', thread_of = (thread_of c)(t :=
      \<lparr>th_held = ret r (th_held (thread_of c t)), th_call = None, th_last = Some r\<rparr>)\<rparr>)"

definition any_step ::
  "('h \<Rightarrow> 'f \<Rightarrow> 'h \<Rightarrow> bool) \<Rightarrow> (tid \<Rightarrow> 'f \<Rightarrow> 'm \<Rightarrow> ('f + 'r) \<times> 'm) \<Rightarrow> ('r \<Rightarrow> 'h \<Rightarrow> 'h) \<Rightarrow>
   ('m, 'h, 'f, 'r) conf \<Rightarrow> ('m, 'h, 'f, 'r) conf \<Rightarrow> bool" where
  "any_step calls code ret c c' \<longleftrightarrow> (\<exists>t. thread_step calls code ret t c c')"

text \<open>
  A concrete execution: each entry is a thread with the call it makes, or \<open>None\<close> for its next
  access.
\<close>

definition exec_step ::
  "('h \<Rightarrow> 'f \<Rightarrow> 'h \<Rightarrow> bool) \<Rightarrow> (tid \<Rightarrow> 'f \<Rightarrow> 'm \<Rightarrow> ('f + 'r) \<times> 'm) \<Rightarrow> ('r \<Rightarrow> 'h \<Rightarrow> 'h) \<Rightarrow>
   tid \<Rightarrow> ('f \<times> 'h) option \<Rightarrow> ('m, 'h, 'f, 'r) conf \<Rightarrow> ('m, 'h, 'f, 'r) conf option" where
  "exec_step calls code ret t a c = (case (a, th_call (thread_of c t)) of
       (Some (f, h'), None) \<Rightarrow> (if calls (th_held (thread_of c t)) f h'
         then Some (c\<lparr>thread_of := (thread_of c)(t :=
           \<lparr>th_held = h', th_call = Some f, th_last = th_last (thread_of c t)\<rparr>)\<rparr>) else None)
     | (None, Some f) \<Rightarrow> (case code t f (shared c) of
         (Inl f', m') \<Rightarrow> Some (\<lparr>shared = m', thread_of = (thread_of c)(t :=
           (thread_of c t)\<lparr>th_call := Some f'\<rparr>)\<rparr>)
       | (Inr r, m') \<Rightarrow> Some (\<lparr>shared = m', thread_of = (thread_of c)(t :=
           \<lparr>th_held = ret r (th_held (thread_of c t)), th_call = None, th_last = Some r\<rparr>)\<rparr>))
     | _ \<Rightarrow> None)"

fun exec ::
  "('h \<Rightarrow> 'f \<Rightarrow> 'h \<Rightarrow> bool) \<Rightarrow> (tid \<Rightarrow> 'f \<Rightarrow> 'm \<Rightarrow> ('f + 'r) \<times> 'm) \<Rightarrow> ('r \<Rightarrow> 'h \<Rightarrow> 'h) \<Rightarrow>
   (tid \<times> ('f \<times> 'h) option) list \<Rightarrow> ('m, 'h, 'f, 'r) conf \<Rightarrow> ('m, 'h, 'f, 'r) conf option" where
  "exec calls code ret [] c = Some c"
| "exec calls code ret ((t, a) # xs) c = (case exec_step calls code ret t a c of
     Some c' \<Rightarrow> exec calls code ret xs c' | None \<Rightarrow> None)"

lemma exec_step_sound:
  assumes "exec_step calls code ret t a c = Some c'"
  shows "thread_step calls code ret t c c'"
proof (cases "th_call (thread_of c t)")
  case None
  then obtain f h' where "a = Some (f, h')" "calls (th_held (thread_of c t)) f h'"
    "c' = c\<lparr>thread_of := (thread_of c)(t :=
        \<lparr>th_held = h', th_call = Some f, th_last = th_last (thread_of c t)\<rparr>)\<rparr>"
    using assms by (auto simp: exec_step_def split: option.splits if_splits)
  then show ?thesis using None by (auto intro: thread_step.call)
next
  case (Some f)
  obtain r m' where code: "code t f (shared c) = (r, m')" by fastforce
  have "a = None" using assms Some by (auto simp: exec_step_def split: option.splits)
  then show ?thesis
    using assms Some code thread_step.access [of c t f code _ m' calls ret]
      thread_step.return [of c t f code _ m' calls ret]
    by (cases r) (auto simp: exec_step_def)
qed

lemma exec_step_any: "exec_step calls code ret t a c = Some c' \<Longrightarrow> any_step calls code ret c c'"
  by (auto simp: any_step_def dest: exec_step_sound)

lemma exec_sound: "exec calls code ret xs c = Some c' \<Longrightarrow> (any_step calls code ret)\<^sup>*\<^sup>* c c'"
  by (induction calls code ret xs c rule: exec.induct)
    (auto split: option.splits intro: converse_rtranclp_into_rtranclp exec_step_any)

text \<open>Only its own steps change a thread.\<close>

lemma thread_step_other:
  "thread_step calls code ret u c c' \<Longrightarrow> t \<noteq> u \<Longrightarrow> thread_of c' t = thread_of c t"
  by (auto elim: thread_step.cases)

section \<open>Transition systems with an invariant\<close>

locale transition_system =
  fixes step :: "'s \<Rightarrow> 's \<Rightarrow> bool" and inv :: "'s \<Rightarrow> bool"
  assumes inv_step: "inv s \<Longrightarrow> step s s' \<Longrightarrow> inv s'"
begin

lemma inv_steps: "step\<^sup>*\<^sup>* s s' \<Longrightarrow> inv s \<Longrightarrow> inv s'"
  by (induction rule: rtranclp_induct) (auto intro: inv_step)

end

text \<open>
  A functional refinement: under the invariant each step is a step of the specification on the
  abstract states, or is not visible there.
\<close>

locale refinement = transition_system step inv
  for step :: "'s \<Rightarrow> 's \<Rightarrow> bool" and inv :: "'s \<Rightarrow> bool" +
  fixes abs :: "'s \<Rightarrow> 'a" and astep :: "'a \<Rightarrow> 'a \<Rightarrow> bool"
  assumes square: "inv s \<Longrightarrow> step s s' \<Longrightarrow> abs s' = abs s \<or> astep (abs s) (abs s')"
begin

lemma refine_steps:
  assumes "step\<^sup>*\<^sup>* s s'" and "inv s" shows "astep\<^sup>*\<^sup>* (abs s) (abs s')"
  using assms
proof (induction rule: rtranclp_induct)
  case (step t u)
  then have "inv t" using inv_steps by blast
  from square [OF this step.hyps(2)] step.IH step.prems show ?case
    by (auto intro: rtranclp.rtrancl_into_rtrancl)
qed simp

end

section \<open>Invariants relative to a ghost\<close>

text \<open>
  The ghost \<open>w\<close> says who owns what. \<open>minv w m\<close> relates the memory to it; \<open>ok w m t h q\<close> is what
  thread \<open>t\<close> with client state \<open>h\<close> and frame \<open>q\<close> may rely on. An access of one thread may change
  the ghost but must keep the views of all others.
\<close>

locale ghost_machine =
  fixes calls :: "'h \<Rightarrow> 'f \<Rightarrow> 'h \<Rightarrow> bool"
    and code :: "tid \<Rightarrow> 'f \<Rightarrow> 'm \<Rightarrow> ('f + 'r) \<times> 'm"
    and ret :: "'r \<Rightarrow> 'h \<Rightarrow> 'h"
    and minv :: "'w \<Rightarrow> 'm \<Rightarrow> bool"
    and ok :: "'w \<Rightarrow> 'm \<Rightarrow> tid \<Rightarrow> 'h \<Rightarrow> 'f option \<Rightarrow> bool"
  assumes ok_call: "minv w m \<Longrightarrow> ok w m t h None \<Longrightarrow> calls h f h' \<Longrightarrow> ok w m t h' (Some f)"
    and ok_code: "minv w m \<Longrightarrow> ok w m t h (Some f) \<Longrightarrow> code t f m = (r, m') \<Longrightarrow>
      \<exists>w'. minv w' m' \<and>
        (case r of Inl f' \<Rightarrow> ok w' m' t h (Some f') | Inr x \<Rightarrow> ok w' m' t (ret x h) None) \<and>
        (\<forall>u k q. u \<noteq> t \<longrightarrow> ok w m u k q \<longrightarrow> ok w' m' u k q)"
begin

definition owned :: "'w \<Rightarrow> ('m, 'h, 'f, 'r) conf \<Rightarrow> bool" where
  "owned w c \<longleftrightarrow> minv w (shared c) \<and>
     (\<forall>t. ok w (shared c) t (th_held (thread_of c t)) (th_call (thread_of c t)))"

lemma owned_step:
  assumes "owned w c" and "thread_step calls code ret t c c'"
  shows "\<exists>w'. owned w' c'"
  using assms(2)
proof cases
  case (call f h')
  then have "ok w (shared c) t h' (Some f)"
    using assms(1) ok_call unfolding owned_def by metis
  then have "owned w c'" using assms(1) call by (auto simp: owned_def)
  then show ?thesis ..
next
  case (access f f' m')
  then obtain w' where "minv w' m'" "ok w' m' t (th_held (thread_of c t)) (Some f')"
    "\<forall>u k q. u \<noteq> t \<longrightarrow> ok w (shared c) u k q \<longrightarrow> ok w' m' u k q"
    using ok_code [of w "shared c" t "th_held (thread_of c t)" f "Inl f'" m'] assms(1)
    unfolding owned_def by (metis sum.case(1))
  then have "owned w' c'" using assms(1) access by (auto simp: owned_def)
  then show ?thesis ..
next
  case (return f r m')
  then obtain w' where "minv w' m'" "ok w' m' t (ret r (th_held (thread_of c t))) None"
    "\<forall>u k q. u \<noteq> t \<longrightarrow> ok w (shared c) u k q \<longrightarrow> ok w' m' u k q"
    using ok_code [of w "shared c" t "th_held (thread_of c t)" f "Inr r" m'] assms(1)
    unfolding owned_def by (metis sum.case(2))
  then have "owned w' c'" using assms(1) return by (auto simp: owned_def)
  then show ?thesis ..
qed

sublocale ts: transition_system "any_step calls code ret" "\<lambda>c. \<exists>w. owned w c"
  by unfold_locales (auto simp: any_step_def dest: owned_step)

lemma reach_owned:
  assumes "(any_step calls code ret)\<^sup>*\<^sup>* c0 c" and "owned w c0"
  obtains w' where "owned w' c"
  using ts.inv_steps [OF assms(1)] assms(2) by blast

end

text \<open>A lock: the ghost is the owner, and whoever is inside its critical section is the owner.\<close>

locale owner_lock = ghost_machine calls code ret minv ok
  for calls :: "'h \<Rightarrow> 'f \<Rightarrow> 'h \<Rightarrow> bool"
    and code :: "tid \<Rightarrow> 'f \<Rightarrow> 'm \<Rightarrow> ('f + 'r) \<times> 'm"
    and ret :: "'r \<Rightarrow> 'h \<Rightarrow> 'h"
    and minv :: "tid option \<Rightarrow> 'm \<Rightarrow> bool"
    and ok :: "tid option \<Rightarrow> 'm \<Rightarrow> tid \<Rightarrow> 'h \<Rightarrow> 'f option \<Rightarrow> bool" +
  fixes inside :: "'h \<Rightarrow> bool"
  assumes inside_owner: "minv w m \<Longrightarrow> ok w m t h q \<Longrightarrow> inside h \<Longrightarrow> w = Some t"
begin

lemma mutual_exclusion:
  assumes "(any_step calls code ret)\<^sup>*\<^sup>* c0 c" and "owned w c0"
    and "inside (th_held (thread_of c t))" and "inside (th_held (thread_of c u))"
  shows "t = u"
proof -
  obtain w' where "owned w' c" by (rule reach_owned [OF assms(1,2)])
  then show ?thesis
    using inside_owner assms(3,4) unfolding owned_def by (metis option.inject)
qed

end

section \<open>Acquiring a flag\<close>

text \<open>
  What every routine that takes the flag of a spinlock promises to the classes above it, whatever
  the other threads do between its accesses: success takes the flag from 0 to 1 in the same
  access, and no other access changes the flag.
\<close>

text \<open>The flag is set exactly while a thread owns the lock, until the store in \<open>unlock\<close>.\<close>

definition flag_inv :: "tid option \<Rightarrow> u32 \<Rightarrow> bool" where
  "flag_inv w flag \<longleftrightarrow> flag = (if w = None then 0 else 1)"

locale acquirer =
  fixes step :: "'f \<Rightarrow> u32 \<Rightarrow> ('f + bool) \<times> u32"
  assumes taken: "step f v = (Inr True, v') \<Longrightarrow> v = 0 \<and> v' = 1"
    and not_taken: "step f v = (r, v') \<Longrightarrow> r \<noteq> Inr True \<Longrightarrow> v = 0 \<or> v = 1 \<Longrightarrow> v' = v"
begin

lemma refused: "step f 1 = (r, v') \<Longrightarrow> r \<noteq> Inr True \<and> v' = 1"
  using taken [of f 1 v'] not_taken [of f 1 r v'] by auto

lemma acquire_owner:
  assumes "flag_inv w v" and "step f v = (r, v')"
  shows "if r = Inr True then w = None \<and> flag_inv (Some t) v' else flag_inv w v'"
proof (cases "r = Inr True")
  case True
  then have "v = 0" "v' = 1" using taken [of f v v'] assms(2) by auto
  then show ?thesis using assms(1) True by (auto simp: flag_inv_def split: if_splits)
next
  case False
  then have "v' = v" using not_taken [OF assms(2)] assms(1) by (auto simp: flag_inv_def)
  then show ?thesis using assms(1) False by simp
qed

lemma acquire_cases:
  assumes "step f v = (r, v')" and "v = 0 \<or> v = 1"
  obtains (got) "r = Inr True" "v = 0" "v' = 1" | (failed) "r = Inr False" "v' = v"
    | (going) f' where "r = Inl f'" "v' = v"
proof (cases "r = Inr True")
  case True
  then show ?thesis using that(1) taken [of f v v'] assms(1) by blast
next
  case False
  then have "v' = v" using not_taken assms by blast
  then show ?thesis using that False by (cases r) auto
qed

end

end
