(* ===== verification/Runtime_Close.thy ===== *)
theory Runtime_Close
  imports Runtime_Safe Threads
begin

text \<open>
  The shutdown: once the main thread has seen all schedulers idle under all locks, no scheduler
  runs a task any more. Each is signalled, wakes up, exits, and its workers are destroyed. The
  invariant of this phase, that every step keeps it, and a measure that every step but a spurious
  wakeup decreases.
\<close>

section \<open>The invariant of the shutdown\<close>

text \<open>Nothing is left to do on the scheduler; it sleeps, is about to exit, or has exited.\<close>

definition no_work :: "'q stl \<Rightarrow> 'q scheduler \<Rightarrow> bool" where
  "no_work L s \<longleftrightarrow> queue_of L s W_runnable = [] \<and> queue_of L s W_waiting = [] \<and>
     queue_of L s W_pending_io = [] \<and> queue_of L s W_yielded = [] \<and>
     tasks_inv (sch_tasks s) \<and> m_tasks (sch_tasks s) = [] \<and>
     (\<forall>w<workers_size s. w_state (workers s w) = W_idle \<or> w_state (workers s w) = W_exiting) \<and>
     (\<exists>w<workers_size s. m_worker s = Some w)"

fun phase_closed :: "bool \<Rightarrow> phase \<Rightarrow> bool" where
  "phase_closed exit (Ph_idle b) = True"
| "phase_closed exit Ph_check = exit"
| "phase_closed exit Ph_exited = exit"
| "phase_closed exit _ = False"

text \<open>Which schedulers have got the exit signal, and which workers have been joined.\<close>

fun signalled :: "main_phase \<Rightarrow> nat \<Rightarrow> bool" where
  "signalled (Mp_signal k) i = (i < k)"
| "signalled (Mp_wake k) i = (i \<le> k)"
| "signalled (Mp_join k ws) i = (i \<le> k)"
| "signalled (Mp_joining k w ws) i = (i \<le> k)"
| "signalled Mp_done i = True"
| "signalled _ i = False"

fun joined :: "main_phase \<Rightarrow> nat \<Rightarrow> nat \<Rightarrow> bool" where
  "joined (Mp_signal k) i w = (i < k)"
| "joined (Mp_wake k) i w = (i < k)"
| "joined (Mp_join k ws) i w = (i < k \<or> i = k \<and> w \<notin> set ws)"
| "joined (Mp_joining k v ws) i w = (i < k \<or> i = k \<and> w \<notin> set (v # ws))"
| "joined Mp_done i w = True"
| "joined _ i w = False"

text \<open>The destructor of the worker has run up to the join.\<close>

definition destructed :: "main_phase \<Rightarrow> nat \<Rightarrow> nat \<Rightarrow> bool" where
  "destructed m i w \<longleftrightarrow> joined m i w \<or> (\<exists>ws. m = Mp_joining i w ws)"

fun main_range :: "nat \<Rightarrow> main_phase \<Rightarrow> bool" where
  "main_range n (Mp_signal k) = (k \<le> n)"
| "main_range n (Mp_wake k) = (k < n)"
| "main_range n (Mp_join k ws) = (k < n)"
| "main_range n (Mp_joining k w ws) = (k < n)"
| "main_range n Mp_done = True"
| "main_range n _ = False"

definition sched_closed :: "'q stl \<Rightarrow> main_phase \<Rightarrow> nat \<Rightarrow> 'q scheduler \<Rightarrow> phase \<Rightarrow> bool" where
  "sched_closed L m i s p \<longleftrightarrow> no_work L s \<and> (m_exit s \<longleftrightarrow> signalled m i) \<and>
     phase_closed (m_exit s) p \<and>
     (p = Ph_idle False \<and> m_exit s \<longrightarrow> m = Mp_wake i) \<and>
     (\<forall>w<workers_size s. destructed m i w \<longrightarrow>
        w_state (workers s w) = W_exiting \<and> w_running (workers s w)) \<and>
     (\<forall>w. m_worker s = Some w \<and> joined m i w \<longrightarrow> p = Ph_exited)"

lemma sched_closedD:
  assumes "sched_closed L m i s p"
  shows "no_work L s" "m_exit s \<longleftrightarrow> signalled m i" "phase_closed (m_exit s) p"
    "p = Ph_idle False \<Longrightarrow> m_exit s \<Longrightarrow> m = Mp_wake i"
    "w < workers_size s \<Longrightarrow> destructed m i w \<Longrightarrow>
      w_state (workers s w) = W_exiting \<and> w_running (workers s w)"
    "m_worker s = Some w \<Longrightarrow> joined m i w \<Longrightarrow> p = Ph_exited"
  using assms unfolding sched_closed_def by blast+

definition closed_inv :: "'q stl \<Rightarrow> 'q runtime \<Rightarrow> bool" where
  "closed_inv L c \<longleftrightarrow> main_range (length (scheds (rt_g c))) (rt_main c) \<and> rt_fin c = rt_sub c \<and>
     (\<forall>i<length (scheds (rt_g c)).
        sched_closed L (rt_main c) i (scheds (rt_g c) ! i) (rt_ph c i))"

section \<open>Entering it\<close>

context stl_laws
begin

lemma closed_enter:
  assumes o: "open_inv L c" and m: "rt_main c = Mp_locked"
    and a: "list_all (\<lambda>s. sched_idle s \<and> \<not> has_tasks s) (scheds (rt_g c))"
  shows "closed_inv L (c\<lparr>rt_main := Mp_signal 0\<rparr>)"
proof -
  note ok = open_invD [OF o]
  have ns: "sched_closed L (Mp_signal 0) i (scheds (rt_g c) ! i) (rt_ph c i) \<and>
      task_bag (scheds (rt_g c) ! i) = {#}" if i: "i < length (scheds (rt_g c))" for i
  proof -
    let ?s = "scheds (rt_g c) ! i"
    note d = scheds_okD [OF ok(1) i]
    have id: "sch_state ?s = S_idle_sleep" "\<not> has_tasks ?s"
      using a i by (simp_all add: list_all_length sched_idle_def)
    have ts: "m_tasks (sch_tasks ?s) = []" using scheds_ok_has_tasks [OF ok(1) i] id(2) by simp
    obtain b where b: "rt_ph c i = Ph_idle b"
      using d(3) id(1) by (cases "rt_ph c i") (auto simp: runs_task_def in_schedule_def)
    have w: "all_workers_idle ?s" using d(3) b by simp
    note n = all_idle_nothing [OF d(6) w]
    have "w_task (workers ?s v) = None" if "v < workers_size ?s" for v
      using d(6) w that by (auto simp: sched_inv_def workers_linked_def worker_linked_def
          all_workers_idle_def)
    then have "task_bag ?s = {#}" by (simp add: task_bag_def assigned_tasks_def ts)
    moreover have "no_work L ?s"
      using n d(2,6) w ts by (auto simp: no_work_def nothing_runnable_def sched_inv_def
          all_workers_idle_def baton_def)
    ultimately show ?thesis
      using d(4) b by (simp add: sched_closed_def destructed_def)
  qed
  have "task_bag s = {#}" if "s \<in> set (scheds (rt_g c))" for s
    using ns that by (auto simp: in_set_conv_nth)
  then have "glob_bag (rt_g c) = {#}" by (simp add: glob_bag_def cong: map_cong)
  then show ?thesis using ok(3) ns by (simp add: closed_inv_def bag_ok_def)
qed

section \<open>Keeping it\<close>

lemma no_work_has_work: "no_work L s \<Longrightarrow> \<not> has_work L s"
  by (auto simp: no_work_def has_work_def has_simps dest: has_tasks_imp)

text \<open>An update of one scheduler.\<close>

lemma closed_upd:
  assumes c: "closed_inv L c" and i: "i < length (scheds (rt_g c))"
    and s: "sched_closed L (rt_main c) i s p"
  shows "closed_inv L (c\<lparr>rt_g := (rt_g c)\<lparr>scheds := (scheds (rt_g c))[i := s],
    idle_schedulers := n\<rparr>, rt_ph := (rt_ph c)(i := p)\<rparr>)"
  using c s by (auto simp: closed_inv_def nth_list_update)

lemma upd_sched_fields: "upd_sched i f g
    = g\<lparr>scheds := (scheds g)[i := f (scheds g ! i)], idle_schedulers := idle_schedulers g\<rparr>"
  by (cases g) (simp add: upd_sched_def)

lemma upd_signal_running: "upd_sched i f (signal_running g)
    = g\<lparr>scheds := (scheds g)[i := f (scheds g ! i)], idle_schedulers := idle_schedulers g - 1\<rparr>"
  by (cases g) (simp add: upd_sched_def signal_running_def)

lemma no_work_exit: "no_work L s \<Longrightarrow> no_work L (exit_sched s)"
  by (auto simp: no_work_def exit_sched_def park_defs queue_of.simps split: option.splits)

lemma sched_closed_idle_done:
  "sched_closed L m i s (Ph_idle True) \<Longrightarrow> m_exit s \<Longrightarrow>
    sched_closed L m i (idle_sleep_done s) Ph_check"
  by (auto simp: sched_closed_def idle_sleep_done_def no_work_def queue_of.simps)

lemma sched_closed_exit:
  assumes "sched_closed L m i s Ph_check"
  shows "sched_closed L m i (exit_sched s) Ph_exited"
proof -
  have e: "m_exit (exit_sched s) = m_exit s" "workers_size (exit_sched s) = workers_size s"
    "m_worker (exit_sched s) = m_worker s"
    "w_running (workers (exit_sched s) w) = w_running (workers s w)"
    "w_state (workers s w) = W_exiting \<Longrightarrow> w_state (workers (exit_sched s) w) = W_exiting" for w
    by (simp_all add: exit_sched_def park_defs split: option.splits)
  note s = assms [unfolded sched_closed_def]
  have "no_work L (exit_sched s)" using s no_work_exit by blast
  moreover have "w_state (workers (exit_sched s) w) = W_exiting \<and> w_running (workers (exit_sched s) w)"
    if "w < workers_size s" "destructed m i w" for w
    using s that e(4,5) by blast
  moreover have "m_exit s = signalled m i" using s by blast
  moreover have "phase_closed (m_exit s) Ph_exited" using s unfolding phase_closed.simps by blast
  ultimately show ?thesis unfolding sched_closed_def e(1,2) by blast
qed

lemma closed_sched:
  assumes c: "closed_inv L c" and i: "i < length (scheds (rt_g c))"
    and st: "sched_step L env t1 t2 t3 i (rt_ph c i) (rt_g c) = Some r"
  shows "closed_inv L (set_phase i r c) \<and> rt_ph c i \<noteq> fst r \<and>
    (rt_ph c i = Ph_idle True \<and> (fst r = Ph_check \<or> fst r = Ph_idle False) \<or>
     rt_ph c i = Ph_check \<and> fst r = Ph_exited)"
proof -
  let ?s = "scheds (rt_g c) ! i"
  have s: "sched_closed L (rt_main c) i ?s (rt_ph c i)" using c i by (simp add: closed_inv_def)
  note pc = sched_closedD(3) [OF s] and nw = sched_closedD(1) [OF s]
  have nt: "\<not> has_tasks ?s" using nw has_tasks_imp unfolding no_work_def by blast
  show ?thesis
  proof (cases "rt_ph c i")
    case (Ph_idle b)
    have b: b using st Ph_idle by (cases b) simp_all
    show ?thesis
    proof (cases "m_exit ?s")
      case True
      have r: "r = (Ph_check, (rt_g c)\<lparr>scheds := (scheds (rt_g c))[i := idle_sleep_done ?s],
          idle_schedulers := idle_schedulers (rt_g c) - 1\<rparr>)"
        using st Ph_idle b True by (simp add: idle_sleep_ready_def upd_signal_running)
      have "sched_closed L (rt_main c) i (idle_sleep_done ?s) Ph_check"
        using sched_closed_idle_done s Ph_idle b True by simp
      from closed_upd [OF c i this] show ?thesis using Ph_idle b by (simp add: r set_phase_def)
    next
      case False
      have r: "r = (Ph_idle False, rt_g c)"
        using st Ph_idle b False nt by (simp add: idle_sleep_ready_def)
      have "sched_closed L (rt_main c) i ?s (Ph_idle False)"
        using s False unfolding sched_closed_def Ph_idle by auto
      from closed_upd [OF c i this, of "idle_schedulers (rt_g c)"] show ?thesis
        using Ph_idle b by (simp add: r set_phase_def)
    qed
  next
    case Ph_check
    then have x: "m_exit ?s" using pc by simp
    have r: "r = (Ph_exited, upd_sched i exit_sched (rt_g c))"
      using st Ph_check x no_work_has_work [OF nw] by (simp add: should_exit_def)
    have "sched_closed L (rt_main c) i (exit_sched ?s) Ph_exited"
      using sched_closed_exit s Ph_check by simp
    from closed_upd [OF c i this, of "idle_schedulers (rt_g c)"] show ?thesis
      using Ph_check by (simp add: r set_phase_def upd_sched_fields)
  qed (use pc st in simp_all)
qed

text \<open>What the main thread does to each scheduler.\<close>

lemma no_work_same:
  assumes "no_work L s" and "touched s (s'\<lparr>m_exit := m_exit s\<rparr>)" and "sch_tasks s' = sch_tasks s"
  shows "no_work L s'"
proof -
  have "queue_of L s' st = queue_of L (s'\<lparr>m_exit := m_exit s\<rparr>) st" for st
    by (cases st) (simp_all add: queue_of.simps)
  then show ?thesis
    using assms touched_queue [OF assms(2)] touched_same [OF assms(2)] by (simp add: no_work_def)
qed

lemma closed_signal:
  assumes "sched_closed L (Mp_signal k) i s p"
  shows "sched_closed L (Mp_wake k) i (if i = k then signal_exit s else s) p"
proof -
  note d = sched_closedD [OF assms]
  have "no_work L (signal_exit s)"
    using d(1) by (rule no_work_same) (simp_all add: signal_exit_def touched_def)
  moreover have "i = k \<Longrightarrow> phase_closed True p" using d(2,3) by (cases p) auto
  ultimately show ?thesis
    using d by (auto simp: sched_closed_def destructed_def signal_exit_def)
qed

lemma closed_wake:
  assumes "sched_closed L (Mp_wake k) i s p" and "sz = workers_size s \<or> i \<noteq> k"
  shows "sched_closed L (Mp_join k [0 ..< sz]) i (if i = k then notify_sched s else s)
    (if i = k then wake p else p)"
proof -
  note d = sched_closedD [OF assms(1)]
  have n: "no_work L (notify_sched s)"
    using d(1) by (rule no_work_same) (simp_all add: notify_sched_def touched_def)
  have p: "phase_closed b (wake p) = phase_closed b p" "wake p \<noteq> Ph_idle False" for b
    by (cases p; simp)+
  have w: "m_worker s = Some w \<Longrightarrow> w < workers_size s" for w using d(1) by (auto simp: no_work_def)
  show ?thesis
  proof (cases "i = k")
    case True
    then show ?thesis using d n p w assms(2)
      by (auto simp: sched_closed_def destructed_def notify_sched_def)
  next
    case False
    then show ?thesis using d by (auto simp: sched_closed_def destructed_def)
  qed
qed

lemma closed_dtor:
  assumes "sched_closed L (Mp_join k (w # ws)) i s p"
  shows "sched_closed L (Mp_joining k w ws) i (if i = k then upd_worker w Worker_dtor s else s) p"
proof -
  note d = sched_closedD [OF assms]
  have q: "queue_of L (upd_worker w Worker_dtor s) st = queue_of L s st" for st
    by (cases st) (simp_all add: upd_worker_def queue_of.simps)
  have n: "no_work L (upd_worker w Worker_dtor s)"
    using d(1) unfolding no_work_def q
    by (auto simp: upd_worker_def Worker_dtor_def set_state_def Worker_notify_def)
  show ?thesis
  proof (cases "i = k")
    case True
    then show ?thesis using d n
      by (auto simp: sched_closed_def destructed_def upd_worker_def Worker_dtor_def set_state_def
          Worker_notify_def)
  next
    case False
    then show ?thesis using d by (auto simp: sched_closed_def destructed_def)
  qed
qed

lemma closed_join:
  assumes "sched_closed L (Mp_joining k w ws) i s p"
    and "i = k \<Longrightarrow> m_worker s = Some w \<Longrightarrow> p = Ph_exited"
  shows "sched_closed L (Mp_join k ws) i s p"
proof -
  note d = sched_closedD [OF assms(1)]
  have j: "joined (Mp_join k ws) i v \<Longrightarrow> joined (Mp_joining k w ws) i v \<or> i = k \<and> v = w" for v
    by auto
  show ?thesis
    unfolding sched_closed_def
  proof (intro conjI allI impI)
    show "v < workers_size s \<Longrightarrow> destructed (Mp_join k ws) i v \<Longrightarrow> w_state (workers s v) = W_exiting"
      "v < workers_size s \<Longrightarrow> destructed (Mp_join k ws) i v \<Longrightarrow> w_running (workers s v)" for v
      using d(5) [of v] j [of v] by (auto simp: destructed_def)
    show "m_worker s = Some v \<and> joined (Mp_join k ws) i v \<Longrightarrow> p = Ph_exited" for v
      using d(6) [of v] j [of v] assms(2) by blast
    show "m_exit s = signalled (Mp_join k ws) i" using d(2) by simp
  qed (use d in auto)
qed

lemma closed_main_signal:
  assumes c: "closed_inv L c" and m: "rt_main c = Mp_signal k" and st: "main_step j (Mp_signal k) c = Some c'"
  shows "closed_inv L c'"
proof -
  have fs: "rt_fin c = rt_sub c" and s: "\<And>i. i < length (scheds (rt_g c)) \<Longrightarrow>
      sched_closed L (Mp_signal k) i (scheds (rt_g c) ! i) (rt_ph c i)"
    using c m by (simp_all add: closed_inv_def)
  show ?thesis
  proof (cases "k < length (scheds (rt_g c))")
    case True
    then have c': "c' = c\<lparr>rt_g := upd_sched k signal_exit (rt_g c), rt_main := Mp_wake k\<rparr>"
      using st by simp
    have "sched_closed L (Mp_wake k) i (scheds (rt_g c') ! i) (rt_ph c' i)"
      if i: "i < length (scheds (rt_g c))" for i
      using closed_signal [OF s [OF i]] True by (cases "i = k") (simp_all add: c' upd_sched_def)
    then show ?thesis using True fs by (simp add: closed_inv_def c')
  next
    case False
    have "sched_closed L Mp_done i (scheds (rt_g c) ! i) (rt_ph c i)"
      if i: "i < length (scheds (rt_g c))" for i
      using sched_closedD [OF s [OF i]] i False by (auto simp: sched_closed_def destructed_def)
    then show ?thesis using st False fs by (auto simp: closed_inv_def)
  qed
qed

lemma closed_main_join:
  assumes c: "closed_inv L c" and m: "rt_main c = Mp_join k ws" and st: "main_step j (Mp_join k ws) c = Some c'"
  shows "closed_inv L c'"
proof -
  have mr: "main_range (length (scheds (rt_g c))) (Mp_join k ws)" and fs: "rt_fin c = rt_sub c"
    and s: "\<And>i. i < length (scheds (rt_g c)) \<Longrightarrow>
      sched_closed L (Mp_join k ws) i (scheds (rt_g c) ! i) (rt_ph c i)"
    using c m by (simp_all add: closed_inv_def)
  show ?thesis
  proof (cases ws)
    case Nil
    have "sched_closed L (Mp_signal (Suc k)) i (scheds (rt_g c) ! i) (rt_ph c i)"
      if i: "i < length (scheds (rt_g c))" for i
      using sched_closedD [OF s [OF i, unfolded Nil]]
      by (auto simp: sched_closed_def destructed_def less_Suc_eq)
    then show ?thesis using st Nil mr fs by (auto simp: closed_inv_def)
  next
    case (Cons w ws')
    have c': "c' = c\<lparr>rt_g := upd_sched k (upd_worker w Worker_dtor) (rt_g c),
        rt_main := Mp_joining k w ws'\<rparr>"
      using st Cons by simp
    have "sched_closed L (rt_main c') i (scheds (rt_g c') ! i) (rt_ph c' i)"
      if i: "i < length (scheds (rt_g c))" for i
      using closed_dtor [OF s [OF i, unfolded Cons]] i
      by (cases "i = k") (simp_all add: c' upd_sched_def)
    then show ?thesis using mr fs by (simp add: closed_inv_def c')
  qed
qed

lemma closed_main:
  assumes c: "closed_inv L c" and st: "main_step j (rt_main c) c = Some c'"
  shows "closed_inv L c'"
proof -
  have mr: "main_range (length (scheds (rt_g c))) (rt_main c)" and fs: "rt_fin c = rt_sub c"
    and s: "\<And>i. i < length (scheds (rt_g c)) \<Longrightarrow>
      sched_closed L (rt_main c) i (scheds (rt_g c) ! i) (rt_ph c i)"
    using c by (simp_all add: closed_inv_def)
  show ?thesis
  proof (cases "rt_main c")
    case (Mp_signal k)
    show ?thesis by (rule closed_main_signal [OF c Mp_signal st [unfolded Mp_signal]])
  next
    case (Mp_wake k)
    have c': "c' = (deliver k c)\<lparr>rt_main := Mp_join k [0 ..< workers_size (scheds (rt_g c) ! k)]\<rparr>"
      using st Mp_wake by simp
    have "sched_closed L (rt_main c') i (scheds (rt_g c') ! i) (rt_ph c' i)"
      if i: "i < length (scheds (rt_g c))" for i
      using closed_wake [OF s [OF i, unfolded Mp_wake], of "workers_size (scheds (rt_g c) ! k)"] i
      by (cases "i = k") (simp_all add: c' deliver_def upd_sched_def)
    then show ?thesis using mr fs Mp_wake by (simp add: closed_inv_def c' deliver_def)
  next
    case (Mp_join k ws)
    show ?thesis by (rule closed_main_join [OF c Mp_join st [unfolded Mp_join]])
  next
    case (Mp_joining k w ws)
    then show ?thesis using st closed_join [OF s [unfolded Mp_joining]] mr fs
      by (auto simp: closed_inv_def split: if_splits)
  qed (use mr st in auto)
qed

lemma closed_act:
  assumes c: "closed_inv L c" and st: "rt_act L a c = Some c'"
  shows "closed_inv L c'"
proof -
  have s: "sched_closed L (rt_main c) i (scheds (rt_g c) ! i) (rt_ph c i)"
    if "i < length (scheds (rt_g c))" for i using c that by (simp add: closed_inv_def)
  note pc = sched_closedD(3) [OF s]
  show ?thesis
  proof (cases a)
    case (A_sched i env t1 t2 t3)
    then show ?thesis using st closed_sched [OF c] by (auto split: if_splits)
  next
    case (A_user i op)
    then show ?thesis using st pc [of i]
      by (auto simp: current_worker_def split: if_splits option.splits)
  next
    case (A_notify i)
    then show ?thesis using st pc [of i] by (auto split: if_splits phase.splits)
  next
    case (A_spurious i)
    then have i: "i < length (scheds (rt_g c))" and ph: "rt_ph c i = Ph_idle False"
      and c': "c' = c\<lparr>rt_ph := (rt_ph c)(i := Ph_idle True)\<rparr>"
      using st pc [of i] by (auto split: if_splits phase.splits bool.splits)
    have "sched_closed L (rt_main c) i (scheds (rt_g c) ! i) (Ph_idle True)"
      using s [OF i] unfolding sched_closed_def ph by auto
    then show ?thesis using c unfolding closed_inv_def c' by auto
  next
    case A_spurious_main
    then show ?thesis using st c by (auto simp: closed_inv_def split: if_splits)
  next
    case (A_main j)
    then show ?thesis using st closed_main [OF c] by simp
  qed
qed

end

section \<open>The whole program\<close>

definition rt_inv :: "'q stl \<Rightarrow> 'q runtime \<Rightarrow> bool" where
  "rt_inv L c \<longleftrightarrow> (if closing (rt_main c) then closed_inv L c else open_inv L c)"

lemma closed_closing: "closed_inv L c \<Longrightarrow> closing (rt_main c)"
  by (cases "rt_main c") (auto simp: closed_inv_def)

lemma count_op_main [simp]: "rt_main (count_op op x c) = rt_main c"
  by (cases op) (simp_all add: count_op_def)

lemma rt_act_main:
  assumes "rt_act L a c = Some c'" shows "rt_main c' = rt_main c \<or> (\<exists>j. a = A_main j)"
proof (cases a)
  case (A_user i op)
  then show ?thesis using assms A_user by (auto simp: set_phase_def split: if_splits option.splits)
next
  case (A_notify i)
  then show ?thesis using assms by (auto simp: deliver_def split: if_splits phase.splits)
next
  case (A_spurious i)
  then show ?thesis using assms by (auto split: if_splits phase.splits bool.splits)
qed (use assms in \<open>auto simp: set_phase_def split: if_splits\<close>)

lemma closing_entered:
  assumes "main_step j m c = Some c'" and "closing (rt_main c')" and "\<not> closing m"
  shows "m = Mp_locked \<and> list_all (\<lambda>s. sched_idle s \<and> \<not> has_tasks s) (scheds (rt_g c)) \<and>
    c' = c\<lparr>rt_main := Mp_signal 0\<rparr>"
proof (cases m)
  case (Mp_scan ks)
  then show ?thesis using assms by (cases ks) (auto split: if_splits)
qed (use assms in \<open>auto simp: main_block_def split: if_splits\<close>)

context stl_laws
begin

lemma rt_inv_act:
  assumes i: "rt_inv L c" and st: "rt_act L a c = Some c'"
  shows "rt_inv L c'"
proof (cases "closing (rt_main c)")
  case True
  then have "closed_inv L c'" using i closed_act [OF _ st] by (simp add: rt_inv_def)
  then show ?thesis using closed_closing by (auto simp: rt_inv_def)
next
  case False
  then have o: "open_inv L c" using i by (simp add: rt_inv_def)
  show ?thesis
  proof (cases "closing (rt_main c')")
    case True
    then obtain j where "a = A_main j" using rt_act_main [OF st] False by auto
    then have "main_step j (rt_main c) c = Some c'" using st by simp
    from closing_entered [OF this True False] closed_enter [OF o] True
    show ?thesis by (auto simp: rt_inv_def)
  next
    case False
    then show ?thesis using open_act [OF o st] by (simp add: rt_inv_def)
  qed
qed

end

sublocale stl_laws < rt: transition_system "rt_step L" "rt_inv L"
  by unfold_locales (auto elim!: rt_step.cases intro: rt_inv_act)

section \<open>The end of the shutdown\<close>

text \<open>How much is left to do, for a scheduler and for the main thread.\<close>

fun phase_left :: "phase \<Rightarrow> nat" where
  "phase_left (Ph_idle b) = (if b then 3 else 2)"
| "phase_left Ph_check = 1"
| "phase_left _ = 0"

definition dtors_left :: "'q scheduler list \<Rightarrow> nat \<Rightarrow> nat" where
  "dtors_left ss k = sum_list (map (\<lambda>s. 2 * workers_size s + 5) (drop k ss))"

fun main_left :: "'q scheduler list \<Rightarrow> main_phase \<Rightarrow> nat" where
  "main_left ss (Mp_signal k) = dtors_left ss k + 1"
| "main_left ss (Mp_wake k) = dtors_left ss k"
| "main_left ss (Mp_join k ws) = dtors_left ss (Suc k) + 2 * length ws + 2"
| "main_left ss (Mp_joining k w ws) = dtors_left ss (Suc k) + 2 * length ws + 3"
| "main_left ss _ = 0"

definition shutdown_left :: "'q runtime \<Rightarrow> nat" where
  "shutdown_left c = main_left (scheds (rt_g c)) (rt_main c) +
     (\<Sum>i<length (scheds (rt_g c)). phase_left (rt_ph c i))"

lemma dtors_left_Suc:
  "k < length ss \<Longrightarrow> dtors_left ss k = 2 * workers_size (ss ! k) + 5 + dtors_left ss (Suc k)"
  by (simp add: dtors_left_def flip: Cons_nth_drop_Suc)

lemma dtors_left_update:
  "workers_size s = workers_size (ss ! k) \<Longrightarrow> dtors_left (ss[k := s]) j = dtors_left ss j"
  by (cases "k < length ss") (simp_all add: dtors_left_def drop_update_swap map_update
      list_update_beyond flip: drop_map map_update,
      metis (no_types, lifting) length_map list_update_id map_update nth_map)

lemma sum_phase_upd:
  assumes "i < (n::nat)"
  shows "(\<Sum>k<n. phase_left ((ph(i := p)) k)) + phase_left (ph i)
    = (\<Sum>k<n. phase_left (ph k)) + phase_left p"
  by (rule sum_fun_upd_mset [OF assms])

fun spurious :: "action \<Rightarrow> bool" where
  "spurious (A_spurious i) = True"
| "spurious A_spurious_main = True"
| "spurious _ = False"

lemma main_left_update:
  "workers_size s = workers_size (ss ! k) \<Longrightarrow> main_left (ss[k := s]) m = main_left ss m"
  by (cases m) (simp_all add: dtors_left_update)

context stl_laws
begin

text \<open>A step of a scheduler that is shut down keeps the sizes and makes its phase smaller.\<close>

lemma closed_sched_less:
  assumes c: "closed_inv L c" and i: "i < length (scheds (rt_g c))"
    and st: "sched_step L env t1 t2 t3 i (rt_ph c i) (rt_g c) = Some r"
  shows "shutdown_left (set_phase i r c) < shutdown_left c"
proof -
  let ?ss = "scheds (rt_g c)"
  note cs = closed_sched [OF c i st]
  have "phase_left (fst r) < phase_left (rt_ph c i)" using cs by auto
  moreover obtain s where "scheds (snd r) = ?ss[i := s]" "workers_size s = workers_size (?ss ! i)"
  proof (cases "rt_ph c i")
    case (Ph_idle b)
    have "scheds (snd r) = ?ss[i := idle_sleep_done (?ss ! i)] \<or> scheds (snd r) = ?ss[i := ?ss ! i]"
      using st Ph_idle by (auto simp: upd_sched_def signal_running_def split: if_splits)
    then show ?thesis using that [of "idle_sleep_done (?ss ! i)"] that [of "?ss ! i"]
      by (auto simp: idle_sleep_done_def)
  next
    case Ph_check
    have "workers_size (exit_sched (?ss ! i)) = workers_size (?ss ! i)"
      by (simp add: exit_sched_def park_defs split: option.splits)
    moreover have "scheds (snd r) = ?ss[i := exit_sched (?ss ! i)] \<or> scheds (snd r) = ?ss[i := ?ss ! i]"
      using st Ph_check by (auto simp: upd_sched_def split: option.splits bool.splits)
    ultimately show ?thesis using that [of "exit_sched (?ss ! i)"] that [of "?ss ! i"] by auto
  qed (use cs in auto)
  ultimately show ?thesis using sum_phase_upd [OF i, of "rt_ph c" "fst r"]
    by (simp add: shutdown_left_def set_phase_def main_left_update)
qed

lemma closed_main_less:
  assumes c: "closed_inv L c" and st: "main_step j (rt_main c) c = Some c'"
  shows "shutdown_left c' < shutdown_left c"
proof -
  let ?ss = "scheds (rt_g c)"
  have mr: "main_range (length ?ss) (rt_main c)" using c by (simp add: closed_inv_def)
  show ?thesis
  proof (cases "rt_main c")
    case (Mp_signal k)
    then show ?thesis using st mr
      by (auto simp: shutdown_left_def upd_sched_def signal_exit_def dtors_left_update
          split: if_splits)
  next
    case (Mp_wake k)
    have k: "k < length ?ss" using mr Mp_wake by simp
    have pc: "phase_closed (m_exit (?ss ! k)) (rt_ph c k)"
      using c k by (auto simp: closed_inv_def dest: sched_closedD(3))
    have "phase_left (wake (rt_ph c k)) \<le> phase_left (rt_ph c k) + 1"
      using pc by (cases "rt_ph c k") auto
    then have "(\<Sum>i<length ?ss. phase_left (((rt_ph c)(k := wake (rt_ph c k))) i))
        \<le> (\<Sum>i<length ?ss. phase_left (rt_ph c i)) + 1"
      using sum_phase_upd [OF k, of "rt_ph c" "wake (rt_ph c k)"] by simp
    then show ?thesis using st Mp_wake dtors_left_Suc [OF k]
      by (auto simp: shutdown_left_def deliver_def upd_sched_def notify_sched_def dtors_left_update)
  next
    case (Mp_join k ws)
    then show ?thesis using st mr
      by (cases ws) (auto simp: shutdown_left_def upd_sched_def upd_worker_def dtors_left_update)
  next
    case (Mp_joining k w ws)
    then show ?thesis using st by (auto simp: shutdown_left_def split: if_splits)
  qed (use mr st in auto)
qed

lemma closed_act_less:
  assumes c: "closed_inv L c" and st: "rt_act L a c = Some c'" and ns: "\<not> spurious a"
  shows "shutdown_left c' < shutdown_left c"
proof -
  have pc: "phase_closed (m_exit (scheds (rt_g c) ! i)) (rt_ph c i)"
    if "i < length (scheds (rt_g c))" for i
    using c that by (auto simp: closed_inv_def dest: sched_closedD(3))
  show ?thesis
  proof (cases a)
    case (A_sched i env t1 t2 t3)
    then show ?thesis using st closed_sched_less [OF c] by (auto split: if_splits)
  next
    case (A_user i op)
    then show ?thesis using st pc [of i]
      by (auto simp: current_worker_def split: if_splits option.splits)
  next
    case (A_notify i)
    then show ?thesis using st pc [of i] by (auto split: if_splits phase.splits)
  next
    case (A_main j)
    then show ?thesis using st closed_main_less [OF c] by simp
  qed (use ns in simp_all)
qed

text \<open>Until the main thread is done, some thread can go on.\<close>

lemma closed_progress:
  assumes c: "closed_inv L c" and nd: "rt_main c \<noteq> Mp_done"
  shows "\<exists>a c'. \<not> spurious a \<and> rt_act L a c = Some c'"
proof (cases "main_step 0 (rt_main c) c")
  case (Some c')
  then have "rt_act L (A_main 0) c = Some c'" by simp
  then show ?thesis by (intro exI [of _ "A_main 0"]) auto
next
  case None
  have mr: "main_range (length (scheds (rt_g c))) (rt_main c)" using c by (simp add: closed_inv_def)
  then obtain k w ws where m: "rt_main c = Mp_joining k w ws"
    using None nd
  proof (cases "rt_main c")
    case (Mp_join k ws)
    then show ?thesis using None by (cases ws) auto
  qed (auto split: if_splits)
  have k: "k < length (scheds (rt_g c))" using mr m by simp
  have s: "sched_closed L (Mp_joining k w ws) k (scheds (rt_g c) ! k) (rt_ph c k)"
    using c k by (auto simp: closed_inv_def m)
  note d = sched_closedD [OF s]
  have x: "m_exit (scheds (rt_g c) ! k)" using d(2) by simp
  have "rt_ph c k \<noteq> Ph_exited" using None m by (auto split: if_splits)
  moreover have "rt_ph c k \<noteq> Ph_idle False" using d(4) x by auto
  ultimately have p: "rt_ph c k = Ph_idle True \<or> rt_ph c k = Ph_check"
    using d(3) by (cases "rt_ph c k") auto
  let ?e = "\<lparr>env_clock = (\<lambda>_. 0), env_io = (\<lambda>_ r. r)\<rparr>"
  have "sched_step L ?e 0 0 0 k (rt_ph c k) (rt_g c) \<noteq> None" using p by auto
  then obtain r where "sched_step L ?e 0 0 0 k (rt_ph c k) (rt_g c) = Some r" by blast
  then show ?thesis using k by (intro exI [of _ "A_sched k ?e 0 0 0"]) simp
qed

end

section \<open>From quiescence to the shutdown\<close>

text \<open>The steps that the main thread has still to take in \<open>wait_exit\<close>.\<close>

fun wait_left :: "nat \<Rightarrow> main_phase \<Rightarrow> nat" where
  "wait_left n Mp_blocked = n + 5"
| "wait_left n Mp_wait = n + 4"
| "wait_left n Mp_count = n + 3"
| "wait_left n (Mp_scan ks) = length ks + 2"
| "wait_left n Mp_locked = 1"
| "wait_left n _ = 0"

fun in_wait_exit :: "main_phase \<Rightarrow> bool" where
  "in_wait_exit Mp_wait = True"
| "in_wait_exit Mp_count = True"
| "in_wait_exit (Mp_scan ks) = True"
| "in_wait_exit Mp_locked = True"
| "in_wait_exit Mp_relock = True"
| "in_wait_exit Mp_blocked = True"
| "in_wait_exit _ = False"

text \<open>
  The main thread evaluates \<open>all_idle\<close> or is going to: it is not about to block after \<open>all_idle\<close> has
  returned false, and if it is blocked it has been signalled.
\<close>

definition watching :: "'q runtime \<Rightarrow> bool" where
  "watching c \<longleftrightarrow> in_wait_exit (rt_main c) \<and> rt_main c \<noteq> Mp_relock \<and>
     (rt_main c = Mp_blocked \<longrightarrow> cv_signalled (rt_g c))"

lemma main_step_waits:
  assumes "main_step j (rt_main c) c = Some c'" and "in_wait_exit (rt_main c)"
  shows "scheds (rt_g c') = scheds (rt_g c)" "rt_ph c' = rt_ph c"
    "closing (rt_main c') \<or> in_wait_exit (rt_main c')"
  using assms
  by (cases "(j, rt_main c, c)" rule: main_step.cases; auto simp: main_block_def split: if_splits)+

context stl_laws
begin

lemma quiescent_main:
  assumes o: "open_inv L c" and q: "quiescent c" and m: "watching c"
  shows "\<exists>c'. main_step j (rt_main c) c = Some c' \<and> quiescent c' \<and>
    (closing (rt_main c') \<or> watching c') \<and>
    wait_left (length (scheds (rt_g c))) (rt_main c') < wait_left (length (scheds (rt_g c))) (rt_main c)"
proof -
  note ok = open_invD [OF o]
  note f = quiescent_facts [OF o q]
  have same: "quiescent (c\<lparr>rt_main := x\<rparr>)" "quiescent (c\<lparr>rt_g := (rt_g c)\<lparr>check_idle := b\<rparr>, rt_main := x\<rparr>)"
    "quiescent (c\<lparr>rt_g := (rt_g c)\<lparr>cv_signalled := b\<rparr>, rt_main := x\<rparr>)"
    for x b using q by (simp_all add: quiescent_def)
  show ?thesis
  proof (cases "rt_main c")
    case (Mp_scan ks)
    show ?thesis
    proof (cases ks)
      case (Cons k ks')
      then have "\<not> has_tasks (scheds (rt_g c) ! k)" using ok(5) Mp_scan f(2) by simp
      then show ?thesis using Mp_scan Cons same by (simp add: watching_def)
    qed (use Mp_scan same in \<open>simp add: watching_def\<close>)
  qed (use m ok(5) q f same in \<open>simp_all add: watching_def\<close>)
qed

lemma quiescent_act:
  assumes o: "open_inv L c" and q: "quiescent c" and m: "in_wait_exit (rt_main c)"
    and st: "rt_act L a c = Some c'"
  shows "quiescent c'" "\<forall>j. a \<noteq> A_main j \<Longrightarrow> a \<noteq> A_spurious_main \<Longrightarrow> rt_g c' = rt_g c"
proof -
  have a: "asleep (rt_ph c i)" if "i < length (scheds (rt_g c))" for i
    using q that by (simp add: quiescent_def)
  have "quiescent c' \<and> ((\<forall>j. a \<noteq> A_main j) \<longrightarrow> a \<noteq> A_spurious_main \<longrightarrow> rt_g c' = rt_g c)"
  proof (cases a)
    case (A_sched i env t1 t2 t3)
    then obtain r where i: "i < length (scheds (rt_g c))"
      and r: "sched_step L env t1 t2 t3 i (rt_ph c i) (rt_g c) = Some r" and c': "c' = set_phase i r c"
      using st by (auto split: if_splits)
    obtain b where b: "rt_ph c i = Ph_idle b" using a [OF i] by (cases "rt_ph c i") auto
    have x: "\<not> m_exit (scheds (rt_g c) ! i)" "\<not> has_tasks (scheds (rt_g c) ! i)"
      using scheds_okD(4) [OF open_invD(1) [OF o] i] quiescent_facts(2) [OF o q i] by simp_all
    have "r = (Ph_idle False, rt_g c)"
      using r x b by (auto simp: idle_sleep_ready_def split: if_splits)
    then show ?thesis using q by (auto simp: quiescent_def c' set_phase_def)
  next
    case (A_user i op)
    then show ?thesis using st a [of i]
      by (auto simp: current_worker_def split: if_splits option.splits)
  next
    case (A_notify i)
    then show ?thesis using st a [of i] by (auto split: if_splits phase.splits)
  next
    case (A_spurious i)
    then show ?thesis using st a [of i] q
      by (auto simp: quiescent_def split: if_splits phase.splits bool.splits)
  next
    case A_spurious_main
    then show ?thesis using st q by (auto simp: quiescent_def split: if_splits)
  next
    case (A_main j)
    then show ?thesis using st main_step_waits [OF _ m, of j c'] q by (simp add: quiescent_def)
  qed
  then show "quiescent c'" "\<forall>j. a \<noteq> A_main j \<Longrightarrow> a \<noteq> A_spurious_main \<Longrightarrow> rt_g c' = rt_g c"
    by blast+
qed

text \<open>The step with which everything comes to rest signals the main thread.\<close>

lemma becomes_quiescent:
  assumes o: "open_inv L c" and nq: "\<not> quiescent c" and m: "in_wait_exit (rt_main c)"
    and st: "rt_act L a c = Some c'" and q: "quiescent c'"
  shows "cv_signalled (rt_g c')"
proof (cases a)
  case (A_sched i env t1 t2 t3)
  then obtain p' g' where i: "i < length (scheds (rt_g c))"
    and r: "sched_step L env t1 t2 t3 i (rt_ph c i) (rt_g c) = Some (p', g')"
    and c': "c' = set_phase i (p', g') c"
    using st by (auto split: if_splits)
  have o': "open_inv L c'" using open_sched [OF o i r] by (simp add: c')
  note ok = open_invD [OF o']
  have as: "asleep (rt_ph c' k)" if "k < length (scheds g')" for k
    using q that by (simp add: quiescent_def c' set_phase_def)
  have l: "length (scheds g') = length (scheds (rt_g c))"
    using sched_step_moves [OF scheds_okD(1) [OF open_invD(1) [OF o] i] i
        scheds_okD(2-4) [OF open_invD(1) [OF o] i] r] by (simp add: sched_moves_def)
  have p': "asleep p'" using as [of i] i l by (simp add: c' set_phase_def)
  show ?thesis using r
  proof (cases rule: sched_step_asleep)
    case (enter s)
    have "unat (idle_schedulers g') = length (scheds g')"
      using count_all_asleep(1) [OF ok(2,1)] as by (simp add: c' set_phase_def)
    then show ?thesis using enter by (auto simp: c' set_phase_def signal_idle_def Let_def split: if_splits)
  next
    case again
    have "asleep (rt_ph c k)" if "k < length (scheds (rt_g c))" for k
      using as [of k] that again(1) l by (cases "k = i") (auto simp: c' set_phase_def)
    then have "quiescent c" using q again(3) by (simp add: quiescent_def c' set_phase_def)
    then show ?thesis using nq by simp
  qed (use p' in simp_all)
next
  case (A_user i op)
  then obtain w r where i: "i < length (scheds (rt_g c))" and r: "user_step L i w op (rt_g c) = Some r"
    and c': "c' = count_op op (workers (scheds (rt_g c) ! i) w) (set_phase i r c)"
    using st by (auto split: if_splits option.splits)
  have "\<not> asleep (fst r) \<and> length (scheds (snd r)) = length (scheds (rt_g c))"
    using r by (cases op) (auto simp: resume_def split: if_splits)
  moreover have "rt_ph c' i = fst r" "rt_g c' = snd r"
    by (cases op; simp add: c' count_op_def set_phase_def)+
  ultimately show ?thesis using q i by (auto simp: quiescent_def)
next
  case (A_notify i)
  then obtain j where i: "i < length (scheds (rt_g c))"
    and c': "c' = deliver j (c\<lparr>rt_ph := (rt_ph c)(i := Ph_exec)\<rparr>)"
    using st by (auto split: if_splits phase.splits)
  have "\<not> asleep (rt_ph c' i)" by (cases "i = j") (simp_all add: c' deliver_def)
  then show ?thesis using q i by (auto simp: quiescent_def c' deliver_def)
next
  case (A_spurious i)
  then obtain p where c': "c' = c\<lparr>rt_ph := (rt_ph c)(i := p)\<rparr>" "asleep p = asleep (rt_ph c i)"
    using st by (auto split: if_splits phase.splits bool.splits)
  then have "quiescent c" using q by (auto simp: quiescent_def split: if_splits)
  then show ?thesis using nq by simp
next
  case A_spurious_main
  then show ?thesis using st by (auto split: if_splits)
next
  case (A_main j)
  then show ?thesis using st main_step_waits [OF _ m, of j c'] q nq by (simp add: quiescent_def)
qed

end

end
