(* ===== verification/Boot.thy ===== *)
theory Boot
  imports Runtime_Close
begin

text \<open>
  The start of the program: \<open>init_ums\<close> of \<open>ums.cpp\<close> constructs the schedulers one after the other.
  The constructor of each starts its first worker and waits until that worker has gone through
  \<open>schedule\<close> and sleeps. The loop of \<open>Schedulers::Schedulers\<close> then appends the scheduler, so while
  its worker runs, \<open>m_schedulers\<close> does not contain it yet.
\<close>

section \<open>Construction\<close>

text \<open>
  \<open>Scheduler_ctor\<close> ends with the notification of the first worker; here is what that worker does
  until the constructor returns. \<open>None\<close> would be a worker that does not go to sleep.
\<close>

definition boot_scheduler ::
  "'q stl \<Rightarrow> sched_env \<Rightarrow> time_point \<Rightarrow> time_point \<Rightarrow> time_point \<Rightarrow> nat \<Rightarrow> nat \<Rightarrow> 'q schedulers \<Rightarrow>
   'q schedulers option"
where
  "boot_scheduler L env t1 t2 t3 wcount cpu g =
     (let i = length (scheds g);
          s1 = snd (sync_init_resume (Scheduler_ctor L cpu wcount));
          g1 = schedule_workers L env i (g\<lparr>scheds := scheds g @ [s1]\<rparr>);
          (r, s2) = sleep_enter L t1 t2 t3 (scheds g1 ! i);
          g2 = signal_idle (g1\<lparr>scheds := take i (scheds g1)\<rparr>)
      in if has_runnable_workers L (scheds g1 ! i) \<or> r \<noteq> Sl_idle_sleep then None
         else Some (g2\<lparr>scheds := scheds g2 @ [s2]\<rparr>))"

fun boot_schedulers ::
  "'q stl \<Rightarrow> sched_env \<Rightarrow> time_point \<Rightarrow> time_point \<Rightarrow> time_point \<Rightarrow> nat \<Rightarrow> nat list \<Rightarrow> 'q schedulers \<Rightarrow>
   'q schedulers option"
where
  "boot_schedulers L env t1 t2 t3 wcount [] g = Some g"
| "boot_schedulers L env t1 t2 t3 wcount (cpu # cpus) g =
     (case boot_scheduler L env t1 t2 t3 wcount cpu g of
        None \<Rightarrow> None
      | Some g' \<Rightarrow> boot_schedulers L env t1 t2 t3 wcount cpus g')"

text \<open>The CPUs on which the constructor of \<open>Schedulers\<close> creates a scheduler.\<close>

definition boot_cpus :: "u64 \<Rightarrow> options \<Rightarrow> nat list" where
  "boot_cpus os_mask opt =
     select_cpus (and os_mask CFG_allowed_cpus_mask) (unat (schedulers_count opt)) 0 0"

text \<open>
  \<open>init_ums\<close> up to the submission of the first task: the schedulers on the CPUs that the
  constructor selects, all asleep, and the main thread about to call \<open>async(main)\<close>.
\<close>

definition init_ums ::
  "'q stl \<Rightarrow> sched_env \<Rightarrow> time_point \<Rightarrow> time_point \<Rightarrow> time_point \<Rightarrow> u64 \<Rightarrow> options \<Rightarrow> task_id \<Rightarrow>
   'q runtime option"
where
  "init_ums L env t1 t2 t3 os_mask opt main =
     map_option (\<lambda>g. \<lparr>rt_g = g, rt_ph = (\<lambda>_. Ph_idle False), rt_main = Mp_async main,
         rt_sub = {#}, rt_fin = {#}\<rparr>)
       (boot_schedulers L env t1 t2 t3 (unat (workers_per_scheduler opt))
         (boot_cpus os_mask opt)
         \<lparr>scheds = [], idle_schedulers = 0, check_idle = False, cv_signalled = False\<rparr>)"

section \<open>The constructor of one scheduler\<close>

text \<open>After \<open>i\<close> workers have started, all of them are parked in the idle queue, in order.\<close>

definition started :: "'q stl \<Rightarrow> nat \<Rightarrow> nat \<Rightarrow> 'q scheduler \<Rightarrow> bool" where
  "started L cpu i s \<longleftrightarrow> cpu_id s = cpu \<and> m_worker s = None \<and>
     il_elems L (runnable_queue s) = [] \<and> il_elems L (idle_queue s) = [0 ..< i] \<and>
     il_elems L (waiting_queue s) = [] \<and> il_elems L (pending_io_queue s) = [] \<and>
     yielded_worker s = None \<and> sch_tasks s = Tasks_init \<and> sch_state s = S_initializing \<and>
     workers_started s = False \<and> m_state_load s = 0 \<and> m_exit s = False \<and>
     workers_size s = i \<and>
     (\<forall>w<i. w_state (workers s w) = W_idle \<and> \<not> w_running (workers s w) \<and>
        w_task (workers s w) = None)"

context stl_laws
begin

lemma started_0: "started L cpu 0 (Scheduler_members L cpu)"
  by (simp add: started_def Scheduler_members_def elems_empty)

lemma started_Suc:
  assumes "started L cpu i s"
  shows "started L cpu (Suc i) (start_worker L i s)"
  using assms
  by (auto simp: started_def start_worker_def sync_init_enter_def park_worker_def park_defs
      Worker_init_def Worker_wait_def Worker_notify_def elems_push_back less_Suc_eq)

lemma started_fold: "started L cpu n (fold (start_worker L) [0 ..< n] (Scheduler_members L cpu))"
  by (induction n) (simp_all add: started_0 started_Suc)

end

section \<open>A scheduler that has just been constructed\<close>

definition fresh :: "'q stl \<Rightarrow> nat \<Rightarrow> 'q scheduler \<Rightarrow> bool" where
  "fresh L cpu s \<longleftrightarrow> cpu_id s = cpu \<and> sched_inv L s \<and> baton s \<and> all_workers_idle s \<and>
     \<not> m_exit s \<and> m_tasks (sch_tasks s) = []"

text \<open>The state after the constructor and after the return of \<open>sync_init\<close> in the first worker.\<close>

definition first_run :: "'q stl \<Rightarrow> nat \<Rightarrow> nat \<Rightarrow> 'q scheduler" where
  "first_run L cpu n = snd (sync_init_resume (Scheduler_ctor L cpu n))"

definition first_sleep :: "'q stl \<Rightarrow> nat \<Rightarrow> nat \<Rightarrow> 'q scheduler" where
  "first_sleep L cpu n = (first_run L cpu n)\<lparr>sch_state := S_idle_sleep, sch_running := False\<rparr>"

text \<open>After the constructors on \<open>cpus\<close>.\<close>

definition booted :: "'q stl \<Rightarrow> nat list \<Rightarrow> 'q schedulers \<Rightarrow> bool" where
  "booted L cpus g \<longleftrightarrow> list_all2 (\<lambda>cpu s. fresh L cpu s \<and> sch_state s = S_idle_sleep) cpus (scheds g) \<and>
     idle_schedulers g = of_nat (length cpus) \<and> (cpus \<noteq> [] \<longrightarrow> check_idle g)"

lemma boot_cpus_spec:
  "boot_cpus os_mask (Options sc wps)
    = take (unat (Schedulers_count sc)) (filter (bit os_mask) [0 ..< 64])"
proof -
  have "(0xFFFFFFFFFFFFFFFF :: u64) = - 1" by simp
  then have "and os_mask CFG_allowed_cpus_mask = os_mask"
    by (simp only: CFG_allowed_cpus_mask_def and.right_neutral)
  then show ?thesis by (simp add: boot_cpus_def select_cpus_spec Options_def)
qed

context stl_laws
begin

lemma first_run_facts:
  assumes "0 < n"
  shows "fresh L cpu (first_run L cpu n)" "sch_state (first_run L cpu n) = S_initializing"
    "sch_tasks (first_run L cpu n) = Tasks_init" "yielded_worker (first_run L cpu n) = None"
    "queue_of L (first_run L cpu n) W_idle = [0 ..< n]"
proof -
  define s0 where "s0 = fold (start_worker L) [0 ..< n] (Scheduler_members L cpu)"
  have st: "started L cpu n s0" unfolding s0_def by (rule started_fold)
  have "il_front L (idle_queue s0) = 0"
    using st front [of "idle_queue s0"] assms by (simp add: started_def)
  then have e: "first_run L cpu n = upd_worker 0 Worker_notify
      (s0\<lparr>m_worker := Some 0, workers_started := True\<rparr>)"
    using st by (simp add: first_run_def Scheduler_ctor_def s0_def [symmetric] sync_init_resume_def
        started_def upd_worker_def)
  let ?s = "first_run L cpu n"
  have w: "workers ?s = (workers s0)(0 := Worker_notify (workers s0 0))" "workers_size ?s = n"
    using st by (simp_all add: e upd_worker_def started_def)
  have idle: "w_state (workers ?s v) = W_idle \<and> w_task (workers ?s v) = None" if "v < n" for v
    using st that by (auto simp: w started_def Worker_notify_def)
  have q: "queue_of L ?s x = (if x = W_idle then [0 ..< n] else [])" for x
    using st by (cases x) (simp_all add: queue_of.simps e upd_worker_def started_def)
  have "queues_wf L ?s" using idle by (auto simp: queues_wf_def q w(2))
  moreover have "load_ok ?s" using idle st by (simp add: load_ok_def w(2) e upd_worker_def started_def)
  moreover have "workers_linked ?s" using idle
    by (auto simp: workers_linked_def worker_linked_def w(2))
  moreover have "sch_tasks ?s = Tasks_init" using st by (simp add: e upd_worker_def started_def)
  ultimately have "sched_inv L ?s" by (simp add: sched_inv_def)
  moreover have "baton ?s" using st assms
    by (auto simp: baton_def w(2)) (auto simp: e upd_worker_def started_def Worker_notify_def)
  ultimately show "fresh L cpu ?s" using idle st
    by (simp add: fresh_def all_workers_idle_def w(2))
      (simp add: e upd_worker_def started_def Tasks_init_def)
  show "sch_state ?s = S_initializing" "sch_tasks ?s = Tasks_init" "yielded_worker ?s = None"
    using st by (simp_all add: e upd_worker_def started_def)
  show "queue_of L ?s W_idle = [0 ..< n]" by (simp add: q)
qed

text \<open>The passes find nothing, there is nothing to steal, and the worker goes to sleep.\<close>

lemma first_run_local:
  assumes n: "0 < n" shows "schedule_local L env (first_run L cpu n) = first_run L cpu n"
proof -
  let ?s = "first_run L cpu n"
  note f = first_run_facts [OF n, of cpu]
  have "sched_inv L ?s" "all_workers_idle ?s" using f(1) by (simp_all add: fresh_def)
  note q = all_idle_nothing [OF this]
  have "\<not> has_tasks ?s" by (simp add: has_tasks_def f Tasks_empty_def Tasks_size_def Tasks_init_def)
  then show ?thesis using q(3,4) f(4)
    by (simp add: schedule_local_def schedule_io_workers_def schedule_waiting_workers_def
        schedule_idle_workers_def schedule_yielded_workers_def queue_of.simps)
qed

lemma first_run_sleep:
  assumes n: "0 < n"
  shows "sleep_enter L t1 t2 t3 (first_run L cpu n)
    = (Sl_idle_sleep, (first_run L cpu n)\<lparr>sch_state := S_idle_sleep, sch_running := False\<rparr>)"
proof -
  let ?s = "first_run L cpu n"
  note f = first_run_facts [OF n, of cpu]
  have "sched_inv L ?s" "all_workers_idle ?s" "\<not> m_exit ?s" using f(1) by (simp_all add: fresh_def)
  note q = all_idle_nothing [OF this(1,2)] this(3)
  have "\<not> has_tasks ?s" by (simp add: has_tasks_def f Tasks_empty_def Tasks_size_def Tasks_init_def)
  moreover have "should_idle_spin L t1 t2 ?s = (False, ?s)" by (simp add: should_idle_spin_def f(2))
  ultimately show ?thesis using q by (simp add: sleep_enter_def has_simps)
qed

lemma fresh_sleeping:
  assumes "fresh L cpu s"
  shows "fresh L cpu (s\<lparr>sch_state := S_idle_sleep, sch_running := False\<rparr>)"
proof -
  have "sched_inv L (s\<lparr>idle_start_time := idle_start_time s, sch_state := S_idle_sleep,
      sch_running := False\<rparr>)"
    by (rule sched_inv_flags) (use assms in \<open>simp add: fresh_def\<close>)
  moreover have "s\<lparr>idle_start_time := idle_start_time s, sch_state := S_idle_sleep,
      sch_running := False\<rparr> = s\<lparr>sch_state := S_idle_sleep, sch_running := False\<rparr>"
    by (cases s) simp
  ultimately show ?thesis using assms
    by (simp add: fresh_def baton_def all_workers_idle_def)
qed

section \<open>All schedulers\<close>

lemma boot_scheduler_eq:
  assumes b: "booted L cpus g" and n: "0 < n" and l: "Suc (length cpus) < 2 ^ 32"
  shows "boot_scheduler L env t1 t2 t3 n cpu g = Some \<lparr>scheds = scheds g @ [first_sleep L cpu n],
      idle_schedulers = idle_schedulers g + 1, check_idle = True, cv_signalled = True\<rparr>"
proof -
  let ?s = "first_run L cpu n" and ?i = "length (scheds g)"
  define g0 where "g0 = g\<lparr>scheds := scheds g @ [?s]\<rparr>"
  note f = first_run_facts [OF n, of cpu]
  have len: "?i = length cpus" and fr: "\<And>j. j < ?i \<Longrightarrow> fresh L (cpus ! j) (scheds g ! j)"
    using b by (auto simp: booted_def list_all2_conv_all_nth)
  have l0: "length (scheds g0) = Suc ?i" "scheds g0 ! ?i = ?s" by (simp_all add: g0_def nth_append)
  have nst: "\<not> can_steal g0 ?i j" if j: "j < Suc ?i" for j
  proof (cases "j = ?i")
    case False
    then have "fresh L (cpus ! j) (scheds g0 ! j)" using j fr by (simp add: g0_def nth_append)
    then show ?thesis using stealable_has_tasks [of "scheds g0 ! j"]
      by (auto simp: can_steal_def fresh_def sched_inv_def)
  qed (simp add: can_steal_def)
  have "upd_sched ?i (schedule_local L env) g0 = g0"
    using first_run_local [OF n, of env cpu] by (simp add: upd_sched_def l0 g0_def)
  moreover have sf: "steal_from L ?i [0 ..< Suc ?i] g0 = g0"
    by (rule steal_from_none) (use nst in auto)
  have "steal_work L ?i g0 = g0" using sf by (simp add: steal_work_def l0 del: upt_Suc)
  ultimately have sw: "schedule_workers L env ?i g0 = g0" by (simp add: schedule_workers_def)
  have nr: "\<not> has_runnable_workers L ?s"
    using f(1) all_idle_nothing(2) [of ?s] by (simp add: fresh_def has_simps nothing_runnable_def)
  have u: "unat (idle_schedulers g + 1) = Suc (length cpus)"
    using b l unat_count [of "Suc (length cpus)" "Suc (length cpus)"]
    by (simp add: booted_def add.commute)
  show ?thesis
    using sw nr u
    by (simp add: boot_scheduler_def Let_def first_run_def [symmetric] g0_def [symmetric] l0
        first_run_sleep [OF n] signal_idle_def first_sleep_def) (simp add: g0_def len)
qed

lemma boot_scheduler_ok:
  assumes b: "booted L cpus g" and n: "0 < n" and l: "Suc (length cpus) < 2 ^ 32"
  shows "\<exists>g'. boot_scheduler L env t1 t2 t3 n cpu g = Some g' \<and> booted L (cpus @ [cpu]) g'"
proof -
  have "length (scheds g) = length cpus" using b by (auto simp: booted_def dest: list_all2_lengthD)
  then show ?thesis
    using boot_scheduler_eq [OF assms, of env t1 t2 t3 cpu] b
      fresh_sleeping [OF first_run_facts(1) [OF n, of cpu]]
    by (auto simp: booted_def list_all2_append add.commute first_sleep_def)
qed

lemma boot_schedulers_ok:
  assumes "booted L done g" and "0 < n" and "length done + length cpus < 2 ^ 32"
  shows "\<exists>g'. boot_schedulers L env t1 t2 t3 n cpus g = Some g' \<and> booted L (done @ cpus) g'"
  using assms
proof (induction cpus arbitrary: "done" g)
  case (Cons cpu cpus)
  have l: "Suc (length done) < 2 ^ 32" using Cons.prems(3) by simp
  obtain g1 where g1: "boot_scheduler L env t1 t2 t3 n cpu g = Some g1" "booted L (done @ [cpu]) g1"
    using boot_scheduler_ok [OF Cons.prems(1,2) l] by blast
  have "length (done @ [cpu]) + length cpus < 2 ^ 32" using Cons.prems(3) by simp
  from Cons.IH [OF g1(2) Cons.prems(2) this] g1(1) show ?case by simp
qed simp

text \<open>
  The program starts: on the selected CPUs, every scheduler asleep, and the invariant of the
  running program holds.
\<close>

lemma booted_glob_inv:
  assumes b: "booted L cpus g" and d: "distinct cpus"
  shows "glob_inv L g" "glob_bag g = {#}"
proof -
  have f: "fresh L (cpus ! i) (scheds g ! i)" and l: "length (scheds g) = length cpus"
    if "i < length (scheds g)" for i
    using b that by (auto simp: booted_def list_all2_conv_all_nth)
  have "map cpu_id (scheds g) = cpus"
    using b by (auto simp: booted_def fresh_def list_all2_conv_all_nth intro!: nth_equalityI)
  then show "glob_inv L g" using f d by (simp add: glob_inv_def fresh_def)
  have "task_bag (scheds g ! i) = {#}" if i: "i < length (scheds g)" for i
  proof -
    have "w_task (workers (scheds g ! i) v) = None" if "v < workers_size (scheds g ! i)" for v
      using f [OF i] that by (auto simp: fresh_def sched_inv_def workers_linked_def
          worker_linked_def all_workers_idle_def)
    then show ?thesis using f [OF i] by (simp add: fresh_def task_bag_def assigned_tasks_def)
  qed
  then have "task_bag s = {#}" if "s \<in> set (scheds g)" for s
    using that by (auto simp: in_set_conv_nth)
  then show "glob_bag g = {#}" by (simp add: glob_bag_def cong: map_cong)
qed

lemma booted_open_inv:
  assumes b: "booted L cpus g" and d: "distinct cpus" and n: "cpus \<noteq> []" "length cpus < 2 ^ 32"
  shows "open_inv L \<lparr>rt_g = g, rt_ph = (\<lambda>_. Ph_idle False), rt_main = Mp_async m,
    rt_sub = {#}, rt_fin = {#}\<rparr>" (is "open_inv L ?c")
proof -
  have f: "fresh L (cpus ! i) (scheds g ! i)" "sch_state (scheds g ! i) = S_idle_sleep"
    if "i < length (scheds g)" for i
    using b that by (auto simp: booted_def list_all2_conv_all_nth)
  have l: "length (scheds g) = length cpus" using b by (auto simp: booted_def dest: list_all2_lengthD)
  have "scheds_ok L ?c"
    using f n l booted_glob_inv [OF b d] by (simp add: scheds_ok_def sched_ok_def fresh_def)
  moreover have "count_ok ?c" using b l by (simp add: count_ok_def asleep_count_def booted_def)
  moreover have "bag_ok ?c" using booted_glob_inv [OF b d] by (simp add: bag_ok_def)
  moreover have "\<not> has_tasks (scheds g ! i)" if "i < length (scheds g)" for i
    using f(1) [OF that] has_tasks_imp by (auto simp: fresh_def sched_inv_def)
  then have "wakes_ok L ?c" by (simp add: wakes_ok_def)
  moreover have "main_ok (rt_main ?c) ?c" using b n by (simp add: booted_def)
  ultimately show ?thesis by (simp add: open_inv_def)
qed

lemma init_ums_ok:
  assumes "\<exists>cpu<64. bit os_mask cpu"
  shows "\<exists>c. init_ums L env t1 t2 t3 os_mask (Options sc wps) m = Some c \<and> rt_inv L c \<and>
    rt_main c = Mp_async m \<and> rt_sub c = {#} \<and> rt_fin c = {#} \<and> rt_ph c = (\<lambda>_. Ph_idle False) \<and>
    map cpu_id (scheds (rt_g c)) = boot_cpus os_mask (Options sc wps) \<and>
    booted L (boot_cpus os_mask (Options sc wps)) (rt_g c)"
proof -
  define cpus where "cpus = boot_cpus os_mask (Options sc wps)"
  have n: "0 < unat (workers_per_scheduler (Options sc wps))"
    by (simp add: Options_def Workers_per_scheduler_nat)
  have d: "distinct cpus" by (simp add: cpus_def boot_cpus_spec)
  have "length cpus \<le> unat (Schedulers_count sc)" by (simp add: cpus_def boot_cpus_spec)
  then have len: "length cpus < 2 ^ 32" by (simp add: Schedulers_count_nat)
  have ne: "cpus \<noteq> []"
    using assms by (auto simp: cpus_def boot_cpus_spec Schedulers_count_nat filter_empty_conv)
  have b0: "booted L [] \<lparr>scheds = [], idle_schedulers = 0, check_idle = False, cv_signalled = False\<rparr>" by (simp add: booted_def)
  obtain g where g: "boot_schedulers L env t1 t2 t3 (unat (workers_per_scheduler (Options sc wps))) cpus
      \<lparr>scheds = [], idle_schedulers = 0, check_idle = False, cv_signalled = False\<rparr> = Some g" "booted L cpus g"
    using boot_schedulers_ok [OF b0 n, of cpus env t1 t2 t3] len by auto
  have "map cpu_id (scheds g) = cpus"
    using g(2) by (auto simp: booted_def fresh_def list_all2_conv_all_nth intro!: nth_equalityI)
  then show ?thesis
    using g booted_open_inv [OF g(2) d ne len]
    by (simp add: init_ums_def rt_inv_def flip: cpus_def)
qed

end

section \<open>The states of the program\<close>

text \<open>What any thread can see at any time after \<open>init_ums\<close> has constructed the schedulers.\<close>

definition program_state :: "'q stl \<Rightarrow> 'q runtime \<Rightarrow> bool" where
  "program_state L c \<longleftrightarrow> (\<exists>env t1 t2 t3 os_mask sc wps m c0. (\<exists>cpu<64. bit os_mask cpu) \<and>
     init_ums L env t1 t2 t3 os_mask (Options sc wps) m = Some c0 \<and> (rt_step L)\<^sup>*\<^sup>* c0 c)"

lemma program_state_step: "program_state L c \<Longrightarrow> rt_step L c c' \<Longrightarrow> program_state L c'"
  unfolding program_state_def by (meson rtranclp.rtrancl_into_rtrancl)

lemma program_state_run:
  "program_state L c \<Longrightarrow> rt_run L as c = Some c' \<Longrightarrow> program_state L c'"
  unfolding program_state_def by (meson rt_run_sound rtranclp_trans)

context stl_laws
begin

lemma program_state_inv: "program_state L c \<Longrightarrow> rt_inv L c"
  unfolding program_state_def using init_ums_ok rt.inv_steps by (metis option.inject)

end

end
