(* ===== verification/Pool.thy ===== *)
theory Pool
  imports Boot
begin

text \<open>
  What the library promises to a program: an abstract pool of tasks, which knows only the tasks
  submitted and not yet finished, those finished, and whether it is closed. That the runtime
  implements it is a functional refinement: \<open>pool_of\<close> maps a state of the runtime to one of the
  pool, and each step of the runtime is a step of the pool or leaves it as it is.
\<close>

section \<open>The pool\<close>

record pool =
  pl_pending :: "task_id multiset"
  pl_finished :: "task_id multiset"
  pl_closed :: bool

definition pool_empty :: pool where
  "pool_empty = \<lparr>pl_pending = {#}, pl_finished = {#}, pl_closed = False\<rparr>"

inductive pool_step :: "pool \<Rightarrow> pool \<Rightarrow> bool" where
  submit: "\<not> pl_closed p \<Longrightarrow> pool_step p (p\<lparr>pl_pending := add_mset t (pl_pending p)\<rparr>)"
| finish: "\<not> pl_closed p \<Longrightarrow> t \<in># pl_pending p \<Longrightarrow>
    pool_step p (p\<lparr>pl_pending := pl_pending p - {#t#}, pl_finished := add_mset t (pl_finished p)\<rparr>)"
| close: "\<not> pl_closed p \<Longrightarrow> pl_pending p = {#} \<Longrightarrow> pool_step p (p\<lparr>pl_closed := True\<rparr>)"

inductive_cases pool_closed_step: "pool_step p p'"

lemma pool_closed_empty:
  assumes "pool_step\<^sup>*\<^sup>* p p'" and "pl_closed p \<Longrightarrow> pl_pending p = {#}" and "pl_closed p'"
  shows "pl_pending p' = {#}"
  using assms
proof (induction rule: rtranclp_induct)
  case (step q r)
  from step.hyps(2) step.IH step.prems show ?case by (cases rule: pool_step.cases) auto
qed simp

section \<open>The runtime as a pool\<close>

definition pool_of :: "'q runtime \<Rightarrow> pool" where
  "pool_of c = \<lparr>pl_pending = rt_sub c - rt_fin c, pl_finished = rt_fin c,
     pl_closed = closing (rt_main c)\<rparr>"

text \<open>What a step does to the ghosts and to the main thread.\<close>

lemma rt_act_ghosts:
  assumes "rt_act L a c = Some c'"
  shows "(\<exists>t. rt_sub c' = add_mset t (rt_sub c) \<and> rt_fin c' = rt_fin c) \<or>
    (\<exists>t. rt_sub c' = rt_sub c \<and> rt_fin c' = add_mset t (rt_fin c)) \<or>
    rt_sub c' = rt_sub c \<and> rt_fin c' = rt_fin c"
proof (cases a)
  case (A_user i op)
  then show ?thesis using assms
    by (cases op) (auto simp: count_op_def set_phase_def task_mset_def
        split: if_splits option.splits)
next
  case (A_main j)
  then show ?thesis using assms
    by (cases "(j, rt_main c, c)" rule: main_step.cases)
      (auto simp: deliver_def main_block_def split: if_splits)
next
  case (A_notify i)
  then show ?thesis using assms by (auto simp: deliver_def split: if_splits phase.splits)
next
  case (A_spurious i)
  then show ?thesis using assms by (auto split: if_splits phase.splits bool.splits)
qed (use assms in \<open>auto simp: set_phase_def split: if_splits\<close>)

context stl_laws
begin

lemma rt_inv_bag:
  assumes "rt_inv L c"
  shows "rt_fin c \<subseteq># rt_sub c" "closing (rt_main c) \<Longrightarrow> rt_fin c = rt_sub c"
  using assms by (auto simp: rt_inv_def closed_inv_def open_inv_def bag_ok_def split: if_splits)

text \<open>A step that enters or stays in the shutdown leaves the ghosts alone.\<close>

lemma closing_same:
  assumes i: "rt_inv L c" and st: "rt_act L a c = Some c'" and c': "closing (rt_main c')"
  shows "rt_sub c' = rt_sub c" "rt_fin c' = rt_fin c" "rt_fin c = rt_sub c"
proof -
  have f': "rt_fin c' = rt_sub c'" using rt_inv_bag(2) [OF rt_inv_act [OF i st] c'] .
  have "rt_sub c' = rt_sub c \<and> rt_fin c' = rt_fin c \<and> rt_fin c = rt_sub c"
  proof (cases "closing (rt_main c)")
    case True
    then show ?thesis using rt_inv_bag(2) [OF i] rt_act_ghosts [OF st] f' by auto
  next
    case False
    then obtain j where "a = A_main j" using rt_act_main [OF st] c' by auto
    then have "main_step j (rt_main c) c = Some c'" using st by simp
    from closing_entered [OF this c' False] f' show ?thesis by simp
  qed
  then show "rt_sub c' = rt_sub c" "rt_fin c' = rt_fin c" "rt_fin c = rt_sub c" by auto
qed

lemma pool_square:
  assumes i: "rt_inv L c" and st: "rt_act L a c = Some c'"
  shows "pool_of c' = pool_of c \<or> pool_step (pool_of c) (pool_of c')"
proof (cases "closing (rt_main c')")
  case True
  note s = closing_same [OF i st True]
  show ?thesis
  proof (cases "closing (rt_main c)")
    case False
    have "pool_of c' = (pool_of c)\<lparr>pl_closed := True\<rparr>" using s True by (simp add: pool_of_def)
    then show ?thesis using pool_step.close [of "pool_of c"] s False by (simp add: pool_of_def)
  qed (use s True in \<open>simp add: pool_of_def\<close>)
next
  case False
  note b = rt_inv_bag(1) [OF i] rt_inv_bag(1) [OF rt_inv_act [OF i st]]
  have nc: "\<not> closing (rt_main c)"
  proof
    assume "closing (rt_main c)"
    then have "closed_inv L c'" using i closed_act [OF _ st] by (simp add: rt_inv_def)
    then show False using closed_closing False by blast
  qed
  from rt_act_ghosts [OF st] show ?thesis
  proof (elim disjE exE conjE)
    fix t assume g: "rt_sub c' = add_mset t (rt_sub c)" "rt_fin c' = rt_fin c"
    have "add_mset t (rt_sub c) - rt_fin c = add_mset t (rt_sub c - rt_fin c)"
      using b(1) by (metis add_mset_add_single mset_subset_eq_multiset_union_diff_commute)
    then show ?thesis using pool_step.submit [of "pool_of c" t] g nc False
      by (simp add: pool_of_def)
  next
    fix t assume g: "rt_sub c' = rt_sub c" "rt_fin c' = add_mset t (rt_fin c)"
    have "t \<in># rt_sub c - rt_fin c"
      using mset_subset_eq_count [OF b(2), of t] g by (simp add: in_diff_count)
    then show ?thesis using pool_step.finish [of "pool_of c" t] g nc False
      by (simp add: pool_of_def)
  qed (use nc False in \<open>simp add: pool_of_def\<close>)
qed

end

sublocale stl_laws < rt: refinement "rt_step L" "rt_inv L" pool_of pool_step
  by unfold_locales (elim rt_step.cases, blast dest: pool_square)

context stl_laws
begin

text \<open>The traces of the program are traces of the pool.\<close>

lemma program_state_pool:
  assumes "program_state L c"
  shows "pool_step\<^sup>*\<^sup>* pool_empty (pool_of c)"
    "rt_step L c c' \<Longrightarrow> pool_of c' = pool_of c \<or> pool_step (pool_of c) (pool_of c')"
proof -
  obtain env t1 t2 t3 os_mask sc wps m c0 where c0: "\<exists>cpu<64. bit (os_mask::u64) cpu"
    "init_ums L env t1 t2 t3 os_mask (Options sc wps) m = Some c0" "(rt_step L)\<^sup>*\<^sup>* c0 c"
    using assms unfolding program_state_def by blast
  have i0: "rt_inv L c0" and e: "pool_of c0 = pool_empty"
    using init_ums_ok [OF c0(1), of env t1 t2 t3 sc wps m] c0(2)
    by (auto simp: pool_of_def pool_empty_def)
  show "pool_step\<^sup>*\<^sup>* pool_empty (pool_of c)" using rt.refine_steps [OF c0(3) i0] e by simp
  show "rt_step L c c' \<Longrightarrow> pool_of c' = pool_of c \<or> pool_step (pool_of c) (pool_of c')"
    by (rule rt.square [OF program_state_inv [OF assms]])
qed

end

end
