(* ===== verification/Runtime_Live.thy ===== *)
theory Runtime_Live
  imports Boot
begin

text \<open>
  What eventually happens: runs of the main thread from a quiescent state to the shutdown, runs of
  any threads during the shutdown, the notification that a blocked scheduler will get, and that the
  program as a whole is never stuck.
\<close>

section \<open>The main thread notices that all is done\<close>

context stl_laws
begin

lemma quiescent_run:
  assumes "open_inv L c" and "quiescent c" and "watching c"
  shows "\<exists>k c'. k \<le> wait_left (length (scheds (rt_g c))) (rt_main c) \<and>
    rt_run L (replicate k (A_main j)) c = Some c' \<and> rt_main c' = Mp_signal 0"
  using assms
proof (induction "wait_left (length (scheds (rt_g c))) (rt_main c)" arbitrary: c rule: less_induct)
  case less
  obtain c1 where c1: "main_step j (rt_main c) c = Some c1" "quiescent c1"
    "closing (rt_main c1) \<or> watching c1"
    "wait_left (length (scheds (rt_g c))) (rt_main c1) < wait_left (length (scheds (rt_g c))) (rt_main c)"
    using quiescent_main [OF less.prems, of j] by blast
  have run: "rt_run L (replicate (Suc k) (A_main j)) c = rt_run L (replicate k (A_main j)) c1" for k
    using c1(1) by simp
  have w: "in_wait_exit (rt_main c)" using less.prems(3) by (simp add: watching_def)
  then have nc: "\<not> closing (rt_main c)" by (cases "rt_main c") auto
  show ?case
  proof (cases "closing (rt_main c1)")
    case True
    then have "rt_main c1 = Mp_signal 0" using closing_entered [OF c1(1) True nc] by simp
    then show ?thesis using run [of 0] c1(4)
      by (intro exI [of _ "Suc 0"] exI [of _ c1]) auto
  next
    case False
    have st: "rt_act L (A_main j) c = Some c1" using c1(1) by simp
    have "rt_inv L c" using less.prems(1) nc by (simp add: rt_inv_def)
    then have o1: "open_inv L c1" using rt_inv_act [OF _ st] False by (simp add: rt_inv_def)
    have n: "length (scheds (rt_g c1)) = length (scheds (rt_g c))"
      using main_step_waits(1) [OF c1(1) w] by simp
    obtain k c' where "k \<le> wait_left (length (scheds (rt_g c))) (rt_main c1)"
      "rt_run L (replicate k (A_main j)) c1 = Some c'" "rt_main c' = Mp_signal 0"
      using less.hyps [of c1] c1(2,3,4) False o1 n by auto
    then show ?thesis using run [of k] c1(4) by (intro exI [of _ "Suc k"] exI [of _ c']) auto
  qed
qed

text \<open>No step of another thread disturbs it.\<close>

lemma quiescent_stays:
  assumes o: "open_inv L c" and q: "quiescent c" and w: "watching c" and st: "rt_act L a c = Some c'"
  shows "quiescent c'" "closing (rt_main c') \<or> watching c'"
proof -
  have m: "in_wait_exit (rt_main c)" using w by (simp add: watching_def)
  show "quiescent c'" by (rule quiescent_act(1) [OF o q m st])
  show "closing (rt_main c') \<or> watching c'"
  proof (cases "\<exists>j. a = A_main j")
    case True
    then obtain j where "main_step j (rt_main c) c = Some c'" using st by auto
    then show ?thesis using quiescent_main [OF o q w, of j] by auto
  next
    case False
    have "cv_signalled (rt_g c) \<longrightarrow> cv_signalled (rt_g c')"
      using quiescent_act(2) [OF o q m st] False st by (cases "a = A_spurious_main") (auto split: if_splits)
    then show ?thesis using rt_act_main [OF st] False w by (auto simp: watching_def)
  qed
qed

text \<open>A blocked main thread is signalled when everything comes to rest, a spurious wakeup helps it too.\<close>

lemma spurious_watching:
  assumes "rt_main c = Mp_blocked" and "\<not> cv_signalled (rt_g c)"
  shows "\<exists>c'. rt_act L A_spurious_main c = Some c' \<and> (quiescent c \<longrightarrow> quiescent c') \<and> watching c'"
  using assms by (auto simp: quiescent_def watching_def)

lemma becomes_watching:
  assumes o: "open_inv L c" and nq: "\<not> quiescent c" and m: "in_wait_exit (rt_main c)"
    and st: "rt_act L a c = Some c'" and q: "quiescent c'" and r: "rt_main c \<noteq> Mp_relock"
  shows "watching c'"
proof -
  have "a \<noteq> A_main j" for j
    using st main_step_waits(1,2) [OF _ m, of j c'] q nq by (auto simp: quiescent_def)
  then have "rt_main c' = rt_main c" using rt_act_main [OF st] by blast
  then show ?thesis using becomes_quiescent [OF o nq m st q] m r by (simp add: watching_def)
qed

section \<open>The shutdown ends\<close>

text \<open>A spurious wakeup adds at most one step.\<close>

lemma closed_spurious:
  assumes "rt_act L a c = Some c'" and "spurious a"
  shows "shutdown_left c' \<le> Suc (shutdown_left c)"
proof -
  consider i where "a = A_spurious i" | "a = A_spurious_main" using assms(2) by (cases a) auto
  then show ?thesis
  proof cases
    case (1 i)
    then have i: "i < length (scheds (rt_g c))" using assms(1) by (auto split: if_splits)
    obtain p where "c' = c\<lparr>rt_ph := (rt_ph c)(i := p)\<rparr>" "phase_left p \<le> Suc (phase_left (rt_ph c i))"
      using assms(1) 1 by (auto split: if_splits phase.splits bool.splits)
    then show ?thesis using sum_phase_upd [OF i, of "rt_ph c" p] by (simp add: shutdown_left_def)
  next
    case 2
    then show ?thesis using assms(1) by (auto simp: shutdown_left_def split: if_splits)
  qed
qed

lemma closed_run:
  assumes "closed_inv L c" and "rt_run L as c = Some c'"
  shows "closed_inv L c' \<and> length (filter (\<lambda>a. \<not> spurious a) as) + shutdown_left c'
    \<le> shutdown_left c + length (filter spurious as)"
  using assms
proof (induction as arbitrary: c)
  case (Cons a as)
  then obtain c1 where c1: "rt_act L a c = Some c1" "rt_run L as c1 = Some c'"
    by (auto split: option.splits)
  note ih = Cons.IH [OF closed_act [OF Cons.prems(1) c1(1)] c1(2)]
  show ?case
  proof (cases "spurious a")
    case True
    then show ?thesis using ih closed_spurious [OF c1(1)] by simp
  next
    case False
    then show ?thesis using ih closed_act_less [OF Cons.prems(1) c1(1)] by simp
  qed
qed simp

section \<open>Notifications arrive\<close>

text \<open>Whoever is about to notify can do so, and the scheduler is woken.\<close>

lemma notifying_delivers:
  assumes n: "notifying c i" and b: "\<And>j. rt_ph c i \<noteq> Ph_notify j"
  shows "\<exists>a c' k. (a = A_notify k \<or> a = A_main k) \<and> rt_act L a c = Some c' \<and>
    rt_ph c' i = wake (rt_ph c i)"
proof -
  consider (other) k where "k < length (scheds (rt_g c))" "rt_ph c k = Ph_notify i"
    | (first) "rt_main c = Mp_notify i" | (last) "rt_main c = Mp_wake i"
    using n by (auto simp: notifying_def)
  then show ?thesis
  proof cases
    case other
    then have "k \<noteq> i" using b by auto
    then show ?thesis using other by (intro exI [of _ "A_notify k"]) (auto simp: deliver_def)
  next
    case first
    then show ?thesis by (intro exI [of _ "A_main 0"]) (auto simp: deliver_def)
  next
    case last
    then show ?thesis by (intro exI [of _ "A_main 0"]) (auto simp: deliver_def)
  qed
qed

text \<open>Why scheduler \<open>i\<close> should not stay blocked.\<close>

lemma blocked_notifying:
  assumes inv: "rt_inv L c" and i: "i < length (scheds (rt_g c))"
  shows "rt_ph c i = Ph_idle False \<Longrightarrow> has_tasks (scheds (rt_g c) ! i) \<or> m_exit (scheds (rt_g c) ! i) \<Longrightarrow>
      notifying c i"
    "rt_ph c i = Ph_wait tp False \<Longrightarrow> wait_reason L (scheds (rt_g c) ! i) \<Longrightarrow> notifying c i"
proof -
  let ?s = "scheds (rt_g c) ! i"
  have closed: "sched_closed L (rt_main c) i ?s (rt_ph c i)" if "closing (rt_main c)"
    using inv i that by (simp add: rt_inv_def closed_inv_def)
  have opn: "wake_ok L (notifying c i) ?s (rt_ph c i)" "\<not> m_exit ?s" if "\<not> closing (rt_main c)"
  proof -
    have o: "open_inv L c" using inv that by (simp add: rt_inv_def)
    show "wake_ok L (notifying c i) ?s (rt_ph c i)"
      using open_invD(4) [OF o] i by (simp add: wakes_ok_def)
    show "\<not> m_exit ?s" by (rule scheds_okD(4) [OF open_invD(1) [OF o] i])
  qed
  show "notifying c i" if ph: "rt_ph c i = Ph_idle False" and r: "has_tasks ?s \<or> m_exit ?s"
  proof (cases "closing (rt_main c)")
    case True
    note d = sched_closedD [OF closed [OF True]]
    have "\<not> has_tasks ?s" using d(1) has_tasks_imp by (auto simp: no_work_def)
    then have "rt_main c = Mp_wake i" using r d(4) ph by simp
    then show ?thesis by (simp add: notifying_def)
  next
    case False
    then show ?thesis using opn [OF False] ph r by simp
  qed
  show "notifying c i" if ph: "rt_ph c i = Ph_wait tp False" and r: "wait_reason L ?s"
  proof (cases "closing (rt_main c)")
    case True
    then show ?thesis using sched_closedD(3) [OF closed [OF True]] ph by simp
  next
    case False
    then show ?thesis using opn(1) [OF False] ph r by auto
  qed
qed

end

section \<open>No deadlock\<close>

text \<open>
  The steps that threads of the library can make at time \<open>t\<close>: not those of a task that executes, and
  not a spurious wakeup.
\<close>

fun own_step :: "time_point \<Rightarrow> action \<Rightarrow> bool" where
  "own_step t (A_sched i env t1 t2 t3) \<longleftrightarrow> t1 = t \<and> t2 = t \<and> t3 = t"
| "own_step t (A_notify i) \<longleftrightarrow> True"
| "own_step t (A_main j) \<longleftrightarrow> True"
| "own_step t a \<longleftrightarrow> False"

definition goes_on :: "'q stl \<Rightarrow> time_point \<Rightarrow> 'q runtime \<Rightarrow> bool" where
  "goes_on L t c \<longleftrightarrow> (\<exists>a c'. own_step t a \<and> rt_act L a c = Some c')"

lemma goes_on_main: "main_step j (rt_main c) c \<noteq> None \<Longrightarrow> goes_on L t c"
  unfolding goes_on_def by (intro exI [of _ "A_main j"]) auto

lemma goes_on_sched:
  assumes "i < length (scheds (rt_g c))" and "sched_step L env t t t i (rt_ph c i) (rt_g c) \<noteq> None"
  shows "goes_on L t c"
  using assms unfolding goes_on_def by (intro exI [of _ "A_sched i env t t t"]) auto

lemma sched_step_enabled:
  assumes "\<And>j. p \<noteq> Ph_notify j" and "p \<noteq> Ph_exec" and "p \<noteq> Ph_idle False" and "p \<noteq> Ph_exited"
    and "p \<noteq> Ph_assert" and "\<And>tp. p = Ph_wait tp False \<Longrightarrow> tp \<le> t"
  shows "sched_step L env t t t i p g \<noteq> None"
proof (cases p)
  case (Ph_steal js)
  then show ?thesis by (cases js) auto
next
  case (Ph_grab j js)
  then show ?thesis by (auto split: prod.split option.split)
qed (use assms in \<open>auto simp: Let_def\<close>)

text \<open>
  The one way to be stuck: all work is done and \<open>m_check_idle\<close> is set, but the main thread is blocked
  and was not blocked when it was signalled.
\<close>

definition signal_missed :: "'q runtime \<Rightarrow> bool" where
  "signal_missed c \<longleftrightarrow> quiescent c \<and> check_idle (rt_g c) \<and>
     rt_main c = Mp_blocked \<and> \<not> cv_signalled (rt_g c)"

context stl_laws
begin

text \<open>In this state all tasks are finished, and only a spurious wakeup of the main thread leads on.\<close>

lemma signal_missed_stays:
  assumes o: "open_inv L c" and s: "signal_missed c" and st: "rt_act L a c = Some c'"
    and a: "a \<noteq> A_spurious_main"
  shows "signal_missed c'"
proof -
  have q: "quiescent c" and b: "rt_main c = Mp_blocked" "\<not> cv_signalled (rt_g c)"
    using s by (simp_all add: signal_missed_def)
  then have m: "in_wait_exit (rt_main c)" by simp
  have n: "a \<noteq> A_main j" for j using st b by auto
  then show ?thesis
    using s quiescent_act [OF o q m st] rt_act_main [OF st] a by (simp add: signal_missed_def)
qed

lemma quiescent_done:
  assumes o: "open_inv L c" and q: "quiescent c" and m: "in_wait_exit (rt_main c)"
  shows "rt_fin c = rt_sub c"
proof -
  have "open_inv L (c\<lparr>rt_main := Mp_locked\<rparr>)"
    using m by (intro open_main_same [OF o]) auto
  from closed_enter [OF this] have "closed_inv L (c\<lparr>rt_main := Mp_signal 0\<rparr>)"
    using quiescent_facts(3) [OF o q] by simp
  then show ?thesis by (simp add: closed_inv_def)
qed

lemma open_progress:
  assumes o: "open_inv L c"
    and x: "\<And>i. i < length (scheds (rt_g c)) \<Longrightarrow> rt_ph c i \<noteq> Ph_exec"
    and w: "\<And>i tp. i < length (scheds (rt_g c)) \<Longrightarrow> rt_ph c i = Ph_wait tp False \<Longrightarrow> tp \<le> t"
    and nm: "\<not> signal_missed c"
  shows "goes_on L t c"
proof (rule ccontr)
  assume stuck: "\<not> goes_on L t c"
  let ?n = "length (scheds (rt_g c))"
  note ok = open_invD [OF o]
  note d = scheds_okD [OF ok(1)]
  have idle: "rt_ph c i = Ph_idle False" if i: "i < ?n" for i
  proof (rule ccontr)
    assume ni: "rt_ph c i \<noteq> Ph_idle False"
    have "rt_ph c i \<noteq> Ph_notify j" for j
    proof
      assume "rt_ph c i = Ph_notify j"
      then have "goes_on L t c" using i unfolding goes_on_def by (intro exI [of _ "A_notify i"]) auto
      then show False using stuck by blast
    qed
    moreover have "rt_ph c i \<noteq> Ph_exited" "rt_ph c i \<noteq> Ph_assert" using d(3) [OF i] by auto
    ultimately show False
      using sched_step_enabled [of "rt_ph c i" t L undefined i "rt_g c"] ni x [OF i] w [OF i]
        goes_on_sched [OF i, of L undefined t] stuck by blast
  qed
  have none: "m_tasks (sch_tasks (scheds (rt_g c) ! i)) = []" if i: "i < ?n" for i
  proof (rule ccontr)
    assume "m_tasks (sch_tasks (scheds (rt_g c) ! i)) \<noteq> []"
    then have "has_tasks (scheds (rt_g c) ! i)" using scheds_ok_has_tasks [OF ok(1) i] by blast
    then have "notifying c i" using ok(4) [unfolded wakes_ok_def, rule_format, OF i] idle [OF i] by simp
    moreover have "rt_ph c i \<noteq> Ph_notify j" for j using idle [OF i] by simp
    ultimately obtain a c' k where a: "a = A_notify k \<or> a = A_main k" "rt_act L a c = Some c'"
      using notifying_delivers [of c i] by blast
    then have "own_step t a" by auto
    then show False using stuck a(2) by (auto simp: goes_on_def)
  qed
  have q: "quiescent c" using idle none by (simp add: quiescent_def)
  have "main_step 0 (rt_main c) c \<noteq> None"
  proof (cases "in_wait_exit (rt_main c)")
    case True
    show ?thesis
    proof (cases "watching c")
      case True
      then show ?thesis using quiescent_main [OF o q True, of 0] by auto
    next
      case False
      then have "rt_main c = Mp_relock \<or> signal_missed c"
        using True q ok(5) by (auto simp: watching_def signal_missed_def)
      then show ?thesis using nm by auto
    qed
  next
    case False
    have "0 < ?n" using ok(1) by (simp add: scheds_ok_def)
    then have "can_push (rt_g c) 0" using none [of 0] by (simp add: can_push_def)
    then show ?thesis using False ok(5) by (cases "rt_main c") auto
  qed
  then show False using goes_on_main stuck by blast
qed

lemma closed_goes_on:
  assumes c: "closed_inv L c" and nd: "rt_main c \<noteq> Mp_done"
  shows "goes_on L t c"
proof -
  obtain a c' where a: "\<not> spurious a" "rt_act L a c = Some c'" using closed_progress [OF c nd] by blast
  show ?thesis
  proof (cases a)
    case (A_sched i env t1 t2 t3)
    then have i: "i < length (scheds (rt_g c))" using a(2) by (auto split: if_splits)
    then have p: "phase_closed (m_exit (scheds (rt_g c) ! i)) (rt_ph c i)"
      using c by (auto simp: closed_inv_def dest: sched_closedD(3))
    have "sched_step L env t1 t2 t3 i (rt_ph c i) (rt_g c) \<noteq> None"
      using a(2) A_sched by (auto split: if_splits)
    then have "sched_step L env t t t i (rt_ph c i) (rt_g c) \<noteq> None"
      using p by (cases "rt_ph c i") auto
    then show ?thesis by (rule goes_on_sched [OF i])
  next
    case (A_user i op)
    then have i: "i < length (scheds (rt_g c))" using a(2) by (auto split: if_splits)
    then have "phase_closed (m_exit (scheds (rt_g c) ! i)) (rt_ph c i)"
      using c by (auto simp: closed_inv_def dest: sched_closedD(3))
    then have "rt_ph c i \<noteq> Ph_exec" by auto
    then show ?thesis using a(2) A_user by (auto simp: current_worker_def split: if_splits)
  next
    case (A_notify i)
    then show ?thesis using a(2) unfolding goes_on_def by (intro exI [of _ a]) auto
  next
    case (A_main j)
    then show ?thesis using a(2) unfolding goes_on_def by (intro exI [of _ a]) auto
  qed (use a in simp_all)
qed

end

end
