(* ===== verification/Runtime_Seq.thy ===== *)
theory Runtime_Seq
  imports Runtime_Close
begin

text \<open>
  The steps of the theory Runtime against the sequential definition of \<open>schedule_workers\<close> in the
  theory Schedulers: a scheduler that takes the steps of an iteration without interruption
  computes the same.
\<close>

section \<open>A scheduler that runs alone\<close>

definition alone :: "'q stl \<Rightarrow> sched_env \<Rightarrow> time_point \<Rightarrow> time_point \<Rightarrow> time_point \<Rightarrow> nat \<Rightarrow> 'q runtime \<Rightarrow>
  phase \<times> 'q schedulers \<Rightarrow> phase \<times> 'q schedulers \<Rightarrow> bool" where
  "alone L env t1 t2 t3 i c r r' \<longleftrightarrow>
     (\<exists>k. rt_run L (replicate k (A_sched i env t1 t2 t3)) (set_phase i r c) = Some (set_phase i r' c))"

lemma alone_refl: "alone L env t1 t2 t3 i c r r"
  by (auto simp: alone_def intro: exI [of _ 0])

lemma set_phase_twice: "set_phase i r' (set_phase i r c) = set_phase i r' c"
  by (simp add: set_phase_def)

lemma alone_step:
  assumes "i < length (scheds g)" and "sched_step L env t1 t2 t3 i p g = Some r"
    and "alone L env t1 t2 t3 i c r r'"
  shows "alone L env t1 t2 t3 i c (p, g) r'"
proof -
  from assms(3) obtain k where
    "rt_run L (replicate k (A_sched i env t1 t2 t3)) (set_phase i r c) = Some (set_phase i r' c)"
    by (auto simp: alone_def)
  then have "rt_run L (replicate (Suc k) (A_sched i env t1 t2 t3)) (set_phase i (p, g) c)
      = Some (set_phase i r' c)"
    using assms(1,2) set_phase_twice [of i r "(p, g)" c] by (simp add: set_phase_def)
  then show ?thesis unfolding alone_def by blast
qed

lemma steal_from_length: "length (scheds (steal_from L i js g)) = length (scheds g)"
  by (induction L i js g rule: steal_from.induct)
    (auto simp: Let_def split: prod.splits option.splits)

lemma alone_steal:
  "i < length (scheds g) \<Longrightarrow> alone L env t1 t2 t3 i c (Ph_choose, steal_from L i js g) r \<Longrightarrow>
    alone L env t1 t2 t3 i c (Ph_steal js, g) r"
proof (induction js arbitrary: g)
  case Nil
  then show ?case using alone_step [OF Nil.prems(1), of L env t1 t2 t3 "Ph_steal []"] by simp
next
  case (Cons j js)
  let ?s = "scheds g ! i" and ?o = "scheds g ! j"
  show ?case
  proof (cases "cpu_id ?s \<noteq> cpu_id ?o \<and> has_stealable_work ?o")
    case False
    then have "alone L env t1 t2 t3 i c (Ph_steal js, g) r"
      using Cons by (auto simp: Let_def)
    then show ?thesis
      using alone_step [OF Cons.prems(1), of L env t1 t2 t3 "Ph_steal (j # js)"] False by simp
  next
    case True
    obtain t o' where o: "next_task ?o = (t, o')" by fastforce
    have "alone L env t1 t2 t3 i c (Ph_grab j js, g) r"
    proof (cases t)
      case None
      have "alone L env t1 t2 t3 i c (Ph_steal js, upd_sched j (\<lambda>_. o') g) r"
        using Cons True o None by (simp add: Let_def)
      then show ?thesis
        using alone_step [OF Cons.prems(1), of L env t1 t2 t3 "Ph_grab j js"] o None by simp
    next
      case (Some u)
      then show ?thesis
        using alone_step [OF Cons.prems(1), of L env t1 t2 t3 "Ph_grab j js"] o Cons.prems(2) True
        by (simp add: Let_def)
    qed
    then show ?thesis
      using alone_step [OF Cons.prems(1), of L env t1 t2 t3 "Ph_steal (j # js)"] True by simp
  qed
qed

lemma upd_sched_same: "f (scheds g ! i) = scheds g ! i \<Longrightarrow> upd_sched i f g = g"
  by (simp add: upd_sched_def)

lemma upd_sched_twice:
  "i < length (scheds g) \<Longrightarrow> upd_sched i f (upd_sched i h g) = upd_sched i (\<lambda>s. f (h s)) g"
  by (simp add: upd_sched_def)

lemma upd_sched_eval: "upd_sched i (\<lambda>_. f (scheds g ! i)) g = upd_sched i f g"
  by (simp add: upd_sched_def)

lemma alone_schedule_workers:
  assumes i: "i < length (scheds g)"
    and r: "alone L env t1 t2 t3 i c (Ph_choose, schedule_workers L env i g) r"
  shows "alone L env t1 t2 t3 i c (Ph_io, g) r"
proof -
  define g2 where "g2 = upd_sched i (schedule_waiting_workers L env)
    (upd_sched i (schedule_io_workers L env) g)"
  define g3 where "g3 = upd_sched i (schedule_idle_workers L) g2"
  define g4 where "g4 = upd_sched i (schedule_yielded_workers L) g3"
  have i2: "i < length (scheds g2)" "i < length (scheds g3)" "i < length (scheds g4)"
    using i by (simp_all add: g2_def g3_def g4_def)
  have g4: "upd_sched i (schedule_local L env) g = g4"
    using i by (simp add: g4_def g3_def g2_def upd_sched_twice schedule_local_def [abs_def])
  have "alone L env t1 t2 t3 i c (Ph_choose, steal_work L i g4) r"
    using r by (simp add: schedule_workers_def g4)
  then have 4: "alone L env t1 t2 t3 i c (if \<not> FS_work_stealing_allowed \<or>
      has_runnable_workers L (scheds g4 ! i) \<or> \<not> has_idle_workers L (scheds g4 ! i)
      then Ph_choose else Ph_steal [0 ..< length (scheds g4)], g4) r"
    using alone_steal [OF i2(3)]
    by (cases "has_runnable_workers L (scheds g4 ! i) \<or> \<not> has_idle_workers L (scheds g4 ! i)")
      (simp_all add: steal_work_def split: if_splits)
  have 3: "alone L env t1 t2 t3 i c (Ph_yielded, g3) r"
    using alone_step [OF i2(2), of L env t1 t2 t3 Ph_yielded, OF _ 4] i2(2)
    by (simp add: Let_def g4_def upd_sched_eval)
  have "alone L env t1 t2 t3 i c (Ph_new, g2) r"
  proof (cases "\<not> has_runnable_workers L (scheds g2 ! i) \<and> has_idle_workers L (scheds g2 ! i) \<and>
      has_tasks (scheds g2 ! i)")
    case True
    have "g3 = upd_sched i (schedule_idle_worker L None) g2"
      using True by (simp add: g3_def upd_sched_def schedule_idle_workers_def)
    then have "alone L env t1 t2 t3 i c (Ph_take, g2) r"
      using alone_step [OF i2(1), of L env t1 t2 t3 Ph_take, OF _ 3] by simp
    then show ?thesis
      using alone_step [OF i2(1), of L env t1 t2 t3 Ph_new "(Ph_take, g2)"] True
      by (simp add: Let_def)
  next
    case False
    have "g3 = g2"
      unfolding g3_def by (rule upd_sched_same) (use False in \<open>auto simp: schedule_idle_workers_def\<close>)
    then show ?thesis
      using alone_step [OF i2(1), of L env t1 t2 t3 Ph_new, OF _ 3] False by (simp add: Let_def)
  qed
  then have "alone L env t1 t2 t3 i c (Ph_waiting, upd_sched i (schedule_io_workers L env) g) r"
    using alone_step [of i "upd_sched i (schedule_io_workers L env) g" L env t1 t2 t3 Ph_waiting] i
    by (simp add: g2_def)
  then show ?thesis using alone_step [OF i, of L env t1 t2 t3 Ph_io] by simp
qed

text \<open>A whole iteration of the loop, up to the point where the scheduler runs a worker or blocks.\<close>

fun iter_phase :: "iter_result \<Rightarrow> phase" where
  "iter_phase It_run = Ph_exec"
| "iter_phase It_exit = Ph_exited"
| "iter_phase It_again = Ph_io"
| "iter_phase (It_wait_until tp) = Ph_wait tp False"
| "iter_phase It_idle_sleep = Ph_idle False"
| "iter_phase It_assert = Ph_assert"

definition iter_state ::
  "'q stl \<Rightarrow> sched_env \<Rightarrow> nat \<Rightarrow> 'q schedulers \<Rightarrow> iter_result \<times> 'q schedulers \<Rightarrow> 'q schedulers" where
  "iter_state L env i g r =
     (if fst r = It_run then upd_sched i (run_next L) (schedule_workers L env i g) else snd r)"

lemma alone_iter:
  assumes i: "i < length (scheds g)"
  shows "alone L env t1 t2 t3 i c (Ph_io, g)
    (iter_phase (fst (schedule_iter L env t1 t2 t3 i g)),
     iter_state L env i g (schedule_iter L env t1 t2 t3 i g))"
proof (rule alone_schedule_workers [OF i])
  define g1 where "g1 = schedule_workers L env i g"
  have len: "length (scheds g1) = length (scheds g)"
    by (simp add: g1_def schedule_workers_def steal_work_def steal_from_length)
  then have i1: "i < length (scheds g1)" using i by simp
  let ?r = "schedule_iter L env t1 t2 t3 i g"
  let ?e = "(iter_phase (fst ?r), iter_state L env i g ?r)"
  show "alone L env t1 t2 t3 i c (Ph_choose, schedule_workers L env i g) ?e"
    unfolding g1_def [symmetric]
  proof (cases "has_runnable_workers L (scheds g1 ! i)")
    case True
    then have "?e = (Ph_exec, upd_sched i (run_next L) g1)"
      by (simp add: schedule_iter_def iter_state_def flip: g1_def)
    then show "alone L env t1 t2 t3 i c (Ph_choose, g1) ?e"
      using alone_step [OF i1, of L env t1 t2 t3 Ph_choose, OF _ alone_refl] True by simp
  next
    case False
    obtain r s2 where e: "sleep_enter L t1 t2 t3 (scheds g1 ! i) = (r, s2)" by fastforce
    have "alone L env t1 t2 t3 i c (Ph_sleep, g1) ?e"
    proof (cases r)
      case Sl_return
      obtain x s3 where a: "after_sleep L s2 = (x, s3)" by fastforce
      have "?e = (iter_phase x, upd_sched i (\<lambda>_. s3) g1)"
        using False e Sl_return a
        by (auto simp: schedule_iter_def iter_state_def after_sleep_def Let_def
            split: option.splits bool.splits simp flip: g1_def)
      moreover have "sched_step L env t1 t2 t3 i Ph_check (upd_sched i (\<lambda>_. s2) g1)
          = Some (iter_phase x, upd_sched i (\<lambda>_. s3) g1)"
        using a i1 by (auto simp: after_sleep_def upd_sched_twice split: option.splits bool.splits)
      ultimately have "alone L env t1 t2 t3 i c (Ph_check, upd_sched i (\<lambda>_. s2) g1) ?e"
        using alone_step [OF _ _ alone_refl] i1 by (metis upd_sched_simps(1))
      then show ?thesis using alone_step [OF i1, of L env t1 t2 t3 Ph_sleep] e Sl_return by simp
    next
      case (Sl_wait_until tp)
      then have "?e = (Ph_wait tp False, upd_sched i (\<lambda>_. s2) g1)"
        using False e by (simp add: schedule_iter_def iter_state_def flip: g1_def)
      then show ?thesis
        using alone_step [OF i1, of L env t1 t2 t3 Ph_sleep, OF _ alone_refl] e Sl_wait_until by simp
    next
      case Sl_idle_sleep
      then have "?e = (Ph_idle False, signal_idle (upd_sched i (\<lambda>_. s2) g1))"
        using False e by (simp add: schedule_iter_def iter_state_def flip: g1_def)
      then show ?thesis
        using alone_step [OF i1, of L env t1 t2 t3 Ph_sleep, OF _ alone_refl] e Sl_idle_sleep by simp
    qed
    then show "alone L env t1 t2 t3 i c (Ph_choose, g1) ?e"
      using alone_step [OF i1, of L env t1 t2 t3 Ph_choose] False by simp
  qed
qed

end
