(* ===== verification/Scheduler_Props.thy ===== *)
theory Scheduler_Props
  imports Sleep
begin

text \<open>
  The properties of the scheduler, stated over the model's definitions for every list library
  that satisfies the laws, each with a witness at a concrete pair of schedulers.
\<close>

section \<open>Concrete schedulers for the witnesses\<close>

definition ex_worker :: "worker_state \<Rightarrow> task_id option \<Rightarrow> bool \<Rightarrow> worker" where
  "ex_worker st t c = \<lparr>w_state = st, w_running = False, w_cond = c, w_sleep_tp = 1000,
     w_task = t, w_io = None\<rparr>"

text \<open>Worker 0 waits, worker 1 is idle, worker 2 has yielded, one task is queued.\<close>

definition ex_a :: "nat list scheduler" where
  "ex_a = (Scheduler_members list_stl 0)\<lparr>m_worker := Some 2, idle_queue := [1],
     waiting_queue := [0], yielded_worker := Some 2,
     sch_tasks := \<lparr>m_tasks = [40], m_size = 1\<rparr>, sch_state := S_running,
     workers_started := True, m_state_load := 11,
     workers := (\<lambda>w. if w = 0 then ex_worker W_waiting (Some 10) False
       else if w = 1 then ex_worker W_idle None False
       else ex_worker W_yielded (Some 12) False), workers_size := 3\<rparr>"

text \<open>Worker 0 executes, worker 1 is idle, two tasks are queued.\<close>

definition ex_b :: "nat list scheduler" where
  "ex_b = (Scheduler_members list_stl 1)\<lparr>m_worker := Some 0, idle_queue := [1],
     sch_tasks := \<lparr>m_tasks = [30, 31], m_size = 2\<rparr>, sch_state := S_running,
     workers_started := True, m_state_load := 10,
     workers := (\<lambda>w. if w = 0 then ex_worker W_running (Some 20) False
       else ex_worker W_idle None False), workers_size := 2\<rparr>"

text \<open>One worker waits, the other is idle, nothing is queued.\<close>

definition ex_c :: "nat list scheduler" where
  "ex_c = (Scheduler_members list_stl 2)\<lparr>m_worker := Some 0, idle_queue := [1],
     waiting_queue := [0], sch_state := S_running, workers_started := True, m_state_load := 1,
     workers := (\<lambda>w. if w = 0 then ex_worker W_waiting (Some 10) False
       else ex_worker W_idle None False), workers_size := 2\<rparr>"

definition ex_env :: sched_env where
  "ex_env = \<lparr>env_clock = (\<lambda>_. 0), env_io = (\<lambda>_ r. r)\<rparr>"

definition ex_g :: "nat list schedulers" where
  "ex_g = \<lparr>scheds = [ex_a, ex_b, ex_c], idle_schedulers = 0, check_idle = False, cv_signalled = False\<rparr>"

lemma all_worker_state:
  "(\<forall>st. P st) \<longleftrightarrow> P W_initializing \<and> P W_idle \<and> P W_waiting \<and> P W_pending_io \<and>
    P W_yielded \<and> P W_runnable \<and> P W_running \<and> P W_exiting"
  by (metis worker_state.exhaust)

lemmas ex_defs = ex_a_def ex_b_def ex_c_def ex_worker_def Scheduler_members_def

lemma ex_inv: "sched_inv list_stl ex_a" "sched_inv list_stl ex_b" "sched_inv list_stl ex_c"
  by (auto simp: sched_inv_def queues_wf_def all_worker_state queue_of.simps load_ok_def
      workers_linked_def worker_linked_def tasks_inv_def Tasks_init_def ex_defs
      numeral_3_eq_3 numeral_2_eq_2 less_Suc_eq)

lemma ex_glob_inv: "glob_inv list_stl ex_g"
  using ex_inv by (auto simp: glob_inv_def ex_g_def numeral_3_eq_3 less_Suc_eq
      ex_a_def ex_b_def ex_c_def Scheduler_members_def)

section \<open>Scheduling passes\<close>

text \<open>
  C10: A call of \<open>schedule_workers\<close> (all passes and stealing) keeps every scheduler well formed:
  each worker stays in exactly the queue of its state, so its list node is linked at most
  once; the load equals the sum over the workers' states; a runnable or suspended worker has a
  task, an idle one none. And no task is lost or duplicated: the bag of all queued and assigned
  tasks of all schedulers is unchanged.
\<close>

theorem schedule_workers_sound:
  assumes "stl_laws L" and "glob_inv L g" and "i < length (scheds g)"
  shows "glob_inv L (schedule_workers L env i g) \<and>
    glob_bag (schedule_workers L env i g) = glob_bag g"
  using stl_laws.schedule_workers_inv [OF assms] by simp

theorem schedule_workers_sound_witness:
  "glob_inv list_stl (schedule_workers list_stl ex_env 0 ex_g) \<and>
    glob_bag (schedule_workers list_stl ex_env 0 ex_g) = glob_bag ex_g"
  by (rule schedule_workers_sound [OF list_il.stl_laws_axioms ex_glob_inv])
    (simp add: ex_g_def)

text \<open>
  C13: The order of the runnable queue after the passes of one scheduler: the workers that were
  runnable, then those whose I/O has finished, then the waiting ones whose condition is set or
  whose time has come, each group in the order of its queue; if there is none of these, the
  front idle worker with the oldest queued task; last the worker that yielded. All other
  workers stay where they are, in order.
\<close>

theorem schedule_local_order:
  assumes "stl_laws L" and "sched_inv L s" and "s' = schedule_local L env s"
    and "ready = queue_of L s W_runnable
      @ filter (io_done env s) (queue_of L s W_pending_io)
      @ filter (wait_done env s) (queue_of L s W_waiting)"
    and "new = (if ready = [] \<and> queue_of L s W_idle \<noteq> [] \<and> has_tasks s
      then [hd (queue_of L s W_idle)] else [])"
  shows "queue_of L s' W_runnable = ready @ new @ queue_of L s W_yielded \<and>
    queue_of L s' W_idle = drop (length new) (queue_of L s W_idle) \<and>
    m_tasks (sch_tasks s') = drop (length new) (m_tasks (sch_tasks s)) \<and>
    queue_of L s' W_pending_io
      = filter (\<lambda>w. \<not> io_done env s w) (queue_of L s W_pending_io) \<and>
    queue_of L s' W_waiting
      = filter (\<lambda>w. \<not> wait_done env s w) (queue_of L s W_waiting) \<and>
    queue_of L s' W_yielded = []"
  using stl_laws.schedule_local_correct [OF assms] by simp

text \<open>
  In the example the queued task 40 is given to the idle worker 1, ahead of the worker 2 that
  has yielded.
\<close>

theorem schedule_local_order_witness:
  "queue_of list_stl (schedule_local list_stl ex_env ex_a) W_runnable = [1, 2]"
proof -
  have "queue_of list_stl ex_a W_runnable
      @ filter (io_done ex_env ex_a) (queue_of list_stl ex_a W_pending_io)
      @ filter (wait_done ex_env ex_a) (queue_of list_stl ex_a W_waiting) = []"
    by (simp add: queue_of.simps ex_defs wait_done_def ex_env_def wait_info_defs)
  moreover have "has_tasks ex_a" "queue_of list_stl ex_a W_idle = [1]"
    "queue_of list_stl ex_a W_yielded = [2]"
    by (simp_all add: has_tasks_def Tasks_defs queue_of.simps ex_a_def)
  ultimately show ?thesis
    using schedule_local_order [OF list_il.stl_laws_axioms ex_inv(1) refl refl refl, of ex_env]
    by simp
qed

text \<open>
  C12: Work conservation: if \<open>schedule_workers\<close> leaves scheduler \<open>i\<close> without a runnable worker,
  then no worker was runnable or had yielded, no pending request had finished, no waiting
  worker's condition was set and no sleep had expired, and if the scheduler has an idle worker
  then its own queue was empty and no other scheduler had work to be stolen.
\<close>

theorem work_conserving:
  assumes "stl_laws L" and "glob_inv L g" and "i < length (scheds g)"
    and "\<not> has_runnable_workers L (scheds (schedule_workers L env i g) ! i)"
  shows "queue_of L (scheds g ! i) W_runnable = [] \<and> queue_of L (scheds g ! i) W_yielded = [] \<and>
    (\<forall>w\<in>set (queue_of L (scheds g ! i) W_pending_io). \<not> io_done env (scheds g ! i) w) \<and>
    (\<forall>w\<in>set (queue_of L (scheds g ! i) W_waiting). \<not> wait_done env (scheds g ! i) w) \<and>
    (queue_of L (scheds g ! i) W_idle = [] \<or>
     \<not> has_tasks (scheds g ! i) \<and> (\<forall>j<length (scheds g). \<not> can_steal g i j))"
  using stl_laws.schedule_workers_nothing [OF assms(1-3) refl assms(4)] by blast

definition ex_quiet :: "nat list schedulers" where
  "ex_quiet = \<lparr>scheds = [ex_c], idle_schedulers = 0, check_idle = False, cv_signalled = False\<rparr>"

lemma ex_quiet_inv: "glob_inv list_stl ex_quiet"
  using ex_inv(3) by (simp add: glob_inv_def ex_quiet_def)

lemma ex_quiet_none: "\<not> has_runnable_workers list_stl
    (scheds (schedule_workers list_stl ex_env 0 ex_quiet) ! 0)"
  by (simp add: schedule_workers_def upd_sched_def ex_quiet_def schedule_local_def
      schedule_io_workers_def schedule_waiting_workers_def ex_env_def wait_info_defs
      schedule_idle_workers_def schedule_yielded_workers_def ex_defs has_runnable_workers_def
      has_idle_workers_def has_tasks_def Tasks_defs Tasks_init_def steal_work_def
      FS_work_stealing_allowed_def)

theorem work_conserving_witness:
  "queue_of list_stl (scheds ex_quiet ! 0) W_runnable = []"
  using work_conserving [OF list_il.stl_laws_axioms ex_quiet_inv _ ex_quiet_none]
  by (simp add: ex_quiet_def)

section \<open>Stealing\<close>

text \<open>
  A scheduler that has a runnable worker or no idle worker steals nothing. Otherwise, if
  some other scheduler has stealable work, exactly one task moves: the oldest of one such
  scheduler is given to the front idle worker, which becomes runnable; every other scheduler,
  and the thief's own queue of tasks, is untouched, and no task is lost.
\<close>

theorem steal_one_task:
  assumes "stl_laws L" and "glob_inv L g" and "i < length (scheds g)"
    and "g' = steal_work L i g"
  shows "(if queue_of L (scheds g ! i) W_runnable = [] \<and> queue_of L (scheds g ! i) W_idle \<noteq> [] \<and>
        (\<exists>j<length (scheds g). can_steal g i j)
     then \<exists>j t. j < length (scheds g) \<and> can_steal g i j \<and>
        m_tasks (sch_tasks (scheds g ! j)) = t # m_tasks (sch_tasks (scheds g' ! j)) \<and>
        queue_of L (scheds g' ! i) W_runnable = [hd (queue_of L (scheds g ! i) W_idle)] \<and>
        w_task (workers (scheds g' ! i) (hd (queue_of L (scheds g ! i) W_idle))) = Some t \<and>
        queue_of L (scheds g' ! i) W_idle = tl (queue_of L (scheds g ! i) W_idle) \<and>
        sch_tasks (scheds g' ! i) = sch_tasks (scheds g ! i) \<and>
        (\<forall>k. k \<noteq> i \<and> k \<noteq> j \<longrightarrow> scheds g' ! k = scheds g ! k)
     else g' = g) \<and> glob_bag g' = glob_bag g"
proof (cases rule: stl_laws.steal_work_cases [OF assms(1-3)])
  case 1
  then show ?thesis using assms(4) by auto
next
  case (2 j w idle t other)
  have ij: "cpu_id (scheds g ! i) \<noteq> cpu_id (scheds g ! j)" using 2(2) by (simp add: can_steal_def)
  note c = stl_laws.steal_step_correct [OF assms(1-3) 2(1) ij 2(4,5) assms(4) [unfolded 2(6)]]
  have "m_tasks (sch_tasks (scheds g ! j)) = t # m_tasks (sch_tasks other)"
    using 2(5) by (auto simp: next_task_def dest: Tasks_deque_SomeD split: prod.splits)
  then have body: "j < length (scheds g) \<and> can_steal g i j \<and>
      m_tasks (sch_tasks (scheds g ! j)) = t # m_tasks (sch_tasks (scheds g' ! j)) \<and>
      queue_of L (scheds g' ! i) W_runnable = [hd (queue_of L (scheds g ! i) W_idle)] \<and>
      w_task (workers (scheds g' ! i) (hd (queue_of L (scheds g ! i) W_idle))) = Some t \<and>
      queue_of L (scheds g' ! i) W_idle = tl (queue_of L (scheds g ! i) W_idle) \<and>
      sch_tasks (scheds g' ! i) = sch_tasks (scheds g ! i) \<and>
      (\<forall>k. k \<noteq> i \<and> k \<noteq> j \<longrightarrow> scheds g' ! k = scheds g ! k)"
    using 2(1,2,3,4) c(3,4,6,7,8,9) by simp
  have cond: "queue_of L (scheds g ! i) W_runnable = [] \<and> queue_of L (scheds g ! i) W_idle \<noteq> [] \<and>
      (\<exists>j<length (scheds g). can_steal g i j)"
    using 2(1,2,3,4) by auto
  show ?thesis unfolding if_P [OF cond] using body c(2) by blast
qed

text \<open>Scheduler 1 is idle in this example and steals task 30 of scheduler 0.\<close>

definition ex_thief :: "nat list schedulers" where
  "ex_thief = \<lparr>scheds = [ex_b, ex_c], idle_schedulers = 0, check_idle = False, cv_signalled = False\<rparr>"

lemma ex_thief_inv: "glob_inv list_stl ex_thief"
  using ex_inv(2,3) by (auto simp: glob_inv_def ex_thief_def numeral_2_eq_2 less_Suc_eq
      ex_b_def ex_c_def Scheduler_members_def)

theorem steal_one_task_witness:
  "m_tasks (sch_tasks (scheds (steal_work list_stl 1 ex_thief) ! 0)) = [31] \<and>
    glob_bag (steal_work list_stl 1 ex_thief) = glob_bag ex_thief"
proof -
  have i: "1 < length (scheds ex_thief)" by (simp add: ex_thief_def)
  have "can_steal ex_thief 1 0"
    by (simp add: can_steal_def ex_thief_def has_stealable_work_def Tasks_size_def ex_b_def
        ex_c_def Scheduler_members_def)
  moreover have "\<not> can_steal ex_thief 1 1" by (simp add: can_steal_def)
  moreover have "queue_of list_stl (scheds ex_thief ! 1) W_runnable = []"
    "queue_of list_stl (scheds ex_thief ! 1) W_idle = [1]"
    "m_tasks (sch_tasks (scheds ex_thief ! 0)) = [30, 31]" "length (scheds ex_thief) = 2"
    by (simp_all add: ex_thief_def queue_of.simps ex_b_def ex_c_def Scheduler_members_def)
  ultimately show ?thesis
    using steal_one_task [OF list_il.stl_laws_axioms ex_thief_inv i refl]
    by (auto simp: numeral_2_eq_2 less_Suc_eq split: if_splits)
qed

section \<open>Suspending a worker and resuming the next\<close>

text \<open>
  C11: A full cycle of \<open>sync\<close>: when the current worker, executing alone on its scheduler, is
  parked (idle with its task released, or yielded, waiting or in I/O with its task) and the
  main loop finds work, then the scheduler is well formed again with exactly one executing
  worker, the new \<open>m_worker\<close>, which has a task; no worker is left in the yielded slot and no
  task is lost.
\<close>

theorem sync_cycle:
  assumes L: "stl_laws L" and inv: "glob_inv L g" and i: "i < length (scheds g)"
    and ex: "executing w (scheds g ! i)" "yielded_worker (scheds g ! i) = None"
    and ok: "ctx_ok ctx (workers (scheds g ! i) w)"
    and run: "schedule_iter L env t1 t2 t3 i (upd_sched i (park_worker L ctx w) g) = (It_run, g')"
  shows "glob_inv L g' \<and> glob_bag g' = glob_bag g \<and> yielded_worker (scheds g' ! i) = None \<and>
    (\<exists>w'. executing w' (scheds g' ! i) \<and> w_task (workers (scheds g' ! i) w') \<noteq> None)"
  using stl_laws.schedule_iter_run [OF L stl_laws.park_glob(1) [OF L inv i ex ok] run]
    stl_laws.park_glob(2) [OF L inv i ex ok]
  by auto

text \<open>In the example worker 0 of the first scheduler yields.\<close>

lemma ex_cycle_runs: "fst (schedule_iter list_stl ex_env 0 0 0 0
    (upd_sched 0 (park_worker list_stl Ctx_yield 0) ex_thief)) = It_run"
  by (simp add: schedule_iter_def schedule_workers_def upd_sched_def ex_thief_def
      park_worker_def park_defs schedule_local_def schedule_io_workers_def
      schedule_waiting_workers_def schedule_idle_workers_def schedule_idle_worker_def
      schedule_yielded_workers_def next_task_def Let_def has_runnable_workers_def
      has_idle_workers_def has_tasks_def Tasks_defs steal_work_def ex_b_def ex_worker_def
      Scheduler_members_def)

theorem sync_cycle_witness:
  "glob_bag (snd (schedule_iter list_stl ex_env 0 0 0 0
    (upd_sched 0 (park_worker list_stl Ctx_yield 0) ex_thief))) = glob_bag ex_thief"
proof -
  have "schedule_iter list_stl ex_env 0 0 0 0
      (upd_sched 0 (park_worker list_stl Ctx_yield 0) ex_thief)
    = (It_run, snd (schedule_iter list_stl ex_env 0 0 0 0
      (upd_sched 0 (park_worker list_stl Ctx_yield 0) ex_thief)))"
    by (simp add: prod_eq_iff ex_cycle_runs)
  moreover have "0 < length (scheds ex_thief)" "executing 0 (scheds ex_thief ! 0)"
    "yielded_worker (scheds ex_thief ! 0) = None"
    "ctx_ok Ctx_yield (workers (scheds ex_thief ! 0) 0)"
    by (auto simp: ex_thief_def executing_def ctx_ok_def ex_b_def ex_worker_def
        Scheduler_members_def numeral_2_eq_2 less_Suc_eq)
  ultimately show ?thesis
    using sync_cycle [OF list_il.stl_laws_axioms ex_thief_inv, of 0 0 Ctx_yield ex_env 0 0 0]
    by blast
qed

section \<open>Sleeping\<close>

text \<open>
  C15: A scheduler that blocks in \<open>sleep\<close> has nothing it could do. If it sleeps until a time
  point (\<open>idle_wait\<close>), no I/O is pending, it does not have both a task and an idle worker, no
  waiting worker's condition is set, the time is not reached, and it lies at least the
  threshold of 20 ms before the end of the sleep of every waiting worker, so no sleeper is
  overslept.
\<close>

theorem timed_sleep_safe:
  assumes "stl_laws L" and "sleep_enter L t1 t2 t3 s = (Sl_wait_until tp, s')"
  shows "queue_of L s W_pending_io = [] \<and> queue_of L s W_waiting \<noteq> [] \<and>
    \<not> (has_tasks s \<and> queue_of L s W_idle \<noteq> []) \<and> t3 < tp \<and>
    (\<forall>w\<in>set (queue_of L s W_waiting). \<not> w_cond (workers s w) \<and>
      tp + CFG_idle_sleep_threshold \<le> w_sleep_tp (workers s w)) \<and>
    sch_state s' = S_idle_wait \<and> \<not> sch_running s'"
proof -
  note f = sleep_enter_facts [OF assms(2), simplified]
  have s': "s' = s\<lparr>idle_start_time := idle_start_time s', sch_state := S_idle_wait,
      sch_running := False\<rparr>"
    using sleep_enter_state [OF assms(2)] by simp
  have "sch_state s' = S_idle_wait \<and> \<not> sch_running s'" by (subst (1 2) s') simp
  then show ?thesis
    using f stl_laws.has_simps [OF assms(1)] waiters_info_le [of _ L s]
    by (auto simp: waiters_info_cond)
qed

definition ex_sleeper :: "nat list scheduler" where
  "ex_sleeper = ex_c\<lparr>workers := (workers ex_c)(0 := (workers ex_c 0)\<lparr>w_sleep_tp := 50000000\<rparr>)\<rparr>"

lemma ex_sleeps: "fst (sleep_enter list_stl 0 200000 200000 (ex_sleeper\<lparr>idle_start_time := 0\<rparr>))
    = Sl_wait_until 30000000"
  by (simp add: sleep_enter_def has_pending_io_workers_def should_idle_spin_def Let_def
      FS_idle_spinning_allowed_def CFG_idle_spin_threshold_def CFG_idle_sleep_threshold_def
      has_tasks_def Tasks_defs Tasks_init_def has_idle_workers_def has_waiting_workers_def
      waiters_info_def check_cond_def ex_sleeper_def ex_defs)

theorem timed_sleep_safe_witness:
  "(30000000 :: int) + CFG_idle_sleep_threshold \<le> w_sleep_tp (workers ex_sleeper 0)"
proof -
  define s where "s = ex_sleeper\<lparr>idle_start_time := 0\<rparr>"
  obtain s' where e: "sleep_enter list_stl 0 200000 200000 s = (Sl_wait_until 30000000, s')"
    using ex_sleeps by (cases "sleep_enter list_stl 0 200000 200000 s") (simp add: s_def)
  have "0 \<in> set (queue_of list_stl s W_waiting)"
    by (simp add: s_def queue_of.simps ex_sleeper_def ex_c_def)
  then show ?thesis
    using timed_sleep_safe [OF list_il.stl_laws_axioms e] by (auto simp: s_def)
qed

text \<open>
  C14: A scheduler goes to \<open>idle_sleep\<close> only when it is quiescent: called inside the main loop
  with no runnable worker, \<open>sleep\<close> blocks in \<open>idle_sleep\<close> only if every worker is idle, there
  is no task and no exit was signalled. This is what lets \<open>all_idle\<close> conclude from the states
  that there is no work left.
\<close>

theorem idle_sleep_only_when_quiescent:
  assumes "stl_laws L" and "sched_inv L s" and "no_running s" and "nothing_runnable L s"
    and "0 < workers_size s" and "sleep_enter L t1 t2 t3 s = (Sl_idle_sleep, s')"
  shows "all_workers_idle s' \<and> \<not> has_tasks s' \<and> \<not> m_exit s' \<and> sch_state s' = S_idle_sleep"
  using stl_laws.idle_sleep_quiescent [OF assms] by simp

definition ex_empty :: "nat list scheduler" where
  "ex_empty = (Scheduler_members list_stl 3)\<lparr>m_worker := Some 0, idle_queue := [0],
     workers := (\<lambda>w. ex_worker W_idle None False), workers_size := 1\<rparr>"

theorem idle_sleep_only_when_quiescent_witness:
  "all_workers_idle (snd (sleep_enter list_stl 0 0 0 ex_empty))"
proof -
  have e: "sleep_enter list_stl 0 0 0 ex_empty
      = (Sl_idle_sleep, snd (sleep_enter list_stl 0 0 0 ex_empty))"
    by (simp add: sleep_enter_def has_pending_io_workers_def should_idle_spin_def Let_def
        FS_idle_spinning_allowed_def has_tasks_def Tasks_defs Tasks_init_def has_idle_workers_def
        has_waiting_workers_def ex_empty_def Scheduler_members_def)
  have "sched_inv list_stl ex_empty" "no_running ex_empty" "nothing_runnable list_stl ex_empty"
    "0 < workers_size ex_empty"
    by (auto simp: sched_inv_def queues_wf_def all_worker_state queue_of.simps load_ok_def
      workers_linked_def worker_linked_def tasks_inv_def Tasks_init_def ex_worker_def
      Scheduler_members_def ex_empty_def no_running_def nothing_runnable_def)
  then show ?thesis
    using idle_sleep_only_when_quiescent [OF list_il.stl_laws_axioms _ _ _ _ e] by blast
qed

section \<open>Load\<close>

text \<open>
  C16: For a well-formed scheduler with at most 256 workers (the configured limit) the 32-bit
  counter \<open>m_state_load\<close>, maintained incrementally at each change of a worker's state, never
  wraps: read as a signed number it is the sum of the loads of the workers' states, between 0
  and 2560; and as long as fewer than 214748108 tasks are queued, \<open>load\<close> is that sum plus ten
  per task.
\<close>

theorem load_exact:
  assumes "sched_inv L s" and "workers_size s \<le> 256"
    and "length (m_tasks (sch_tasks s)) < 214748108"
  shows "sint (state_load s) = (\<Sum>w<workers_size s. int (unat (Loads (w_state (workers s w))))) \<and>
    0 \<le> sint (state_load s) \<and> sint (state_load s) \<le> 2560 \<and>
    sint (load s) = sint (state_load s) + 10 * int (length (m_tasks (sch_tasks s)))"
  using load_sum [OF assms] by simp

theorem load_exact_witness:
  "sint (load ex_a) = 21 \<and> sint (state_load ex_a) = 11"
proof -
  have n: "workers_size ex_a \<le> 256" "length (m_tasks (sch_tasks ex_a)) < 214748108"
    by (simp_all add: ex_a_def)
  have "sint (state_load ex_a) = 11" "length (m_tasks (sch_tasks ex_a)) = 1"
    by (simp_all add: state_load_def ex_a_def)
  then show ?thesis using load_exact [OF ex_inv(1) n] by simp
qed

text \<open>
  Beyond that bound the load is wrong: the product of the number of tasks and 10 is
  truncated to 32 bits, so a scheduler with 214748365 queued tasks has a negative load and is
  preferred to an idle one by the comparison of \<open>min_load_scheduler\<close>.
\<close>

theorem tasks_load_truncates:
  assumes "Tasks_size (sch_tasks s) = 214748365" and "state_load s = 0"
    and "Tasks_size (sch_tasks idle) = 0" and "state_load idle = 0"
  shows "load s <s load idle \<and> sint (load s) < 0"
  using assms by (simp add: load_def tasks_load_def Load_task_def word_sless_alt)

theorem tasks_load_truncates_witness:
  "load ((Scheduler_members list_stl 0)\<lparr>sch_tasks := \<lparr>m_tasks = [], m_size = 214748365\<rparr>\<rparr>)
    <s load (Scheduler_members list_stl 1)"
  using tasks_load_truncates
    [of "(Scheduler_members list_stl 0)\<lparr>sch_tasks := \<lparr>m_tasks = [], m_size = 214748365\<rparr>\<rparr>"
        "Scheduler_members list_stl 1"]
  by (simp add: Tasks_size_def Scheduler_members_def Tasks_init_def state_load_def)

section \<open>Choosing a scheduler, choosing the CPUs\<close>

text \<open>
  \<open>min_load_scheduler\<close> returns the first scheduler of least (signed) load: none is below it
  and every earlier one is strictly above it; it fails exactly when there is no scheduler.
\<close>

theorem min_load_scheduler_first_minimum:
  "case min_load_scheduler g of
     None \<Rightarrow> scheds g = []
   | Some k \<Rightarrow> k < length (scheds g) \<and>
       (\<forall>j<length (scheds g). load (scheds g ! k) \<le>s load (scheds g ! j)) \<and>
       (\<forall>j<k. load (scheds g ! k) <s load (scheds g ! j))"
proof (cases "scheds g")
  case Nil
  then show ?thesis by (simp add: min_load_scheduler_def)
next
  case (Cons s ss)
  define k where "k = min_element_from load 0 (load s) 1 ss"
  have m: "min_load_scheduler g = Some k" by (simp add: min_load_scheduler_def Cons k_def)
  from min_element_from_correct [OF k_def [symmetric]] show ?thesis
  proof (elim disjE conjE)
    assume "k = 0" and "\<forall>x\<in>set ss. load s \<le>s load x"
    then show ?thesis by (auto simp: m Cons nth_Cons' word_sle_eq)
  next
    assume k: "1 \<le> k" "k < 1 + length ss" "load (ss ! (k - 1)) <s load s"
      "\<forall>x\<in>set ss. load (ss ! (k - 1)) \<le>s load x"
      "\<forall>j<k - 1. load (ss ! (k - 1)) <s load (ss ! j)"
    have e: "(s # ss) ! k = ss ! (k - 1)" using k(1) by (simp add: nth_Cons')
    have "load (ss ! (k - 1)) \<le>s load ((s # ss) ! j)" if "j < Suc (length ss)" for j
      using that k(3,4) by (cases j) (auto simp: word_sle_eq word_sless_alt)
    moreover have "load (ss ! (k - 1)) <s load ((s # ss) ! j)" if "j < k" for j
      using that k(3,5) by (cases j) auto
    ultimately show ?thesis using k(2) by (simp add: m Cons e)
  qed
qed

text \<open>In the example the third scheduler, with one waiting worker and no task, has least load.\<close>

theorem min_load_scheduler_first_minimum_witness:
  "min_load_scheduler ex_g = Some 2 \<and> load (scheds ex_g ! 2) <s load (scheds ex_g ! 0)"
proof -
  have "min_load_scheduler ex_g = Some 2"
    by (simp add: min_load_scheduler_def ex_g_def load_def state_load_def tasks_load_def
        Tasks_size_def ex_a_def ex_b_def ex_c_def Scheduler_members_def Load_task_def
        Tasks_init_def word_sless_alt)
  with min_load_scheduler_first_minimum [of ex_g] show ?thesis by simp
qed

lemma ctor_cpu_ids:
  "map cpu_id (scheds (Schedulers_ctor L os_mask (Options sc wps)))
    = take (unat (Schedulers_count sc)) (filter (bit os_mask) [0 ..< 64])"
proof -
  have c: "cpu_id (Scheduler_ctor L cpu k) = cpu" for cpu k
  proof -
    have "cpu_id (fold (start_worker L) ws s) = cpu_id s" for ws s
      by (induction ws arbitrary: s)
        (simp_all add: start_worker_def sync_init_enter_def park_worker_def park_defs)
    then show ?thesis
      by (simp add: Scheduler_ctor_def Let_def upd_worker_def Scheduler_members_def)
  qed
  have "(0xFFFFFFFFFFFFFFFF :: u64) = - 1" by simp
  then have "and os_mask CFG_allowed_cpus_mask = os_mask"
    by (simp only: CFG_allowed_cpus_mask_def and.right_neutral)
  then show ?thesis
    by (simp add: Schedulers_ctor_def Let_def c select_cpus_spec Options_def comp_def)
qed

text \<open>
  The constructor of \<open>Schedulers\<close> creates one scheduler for each of the first CPUs, in
  ascending order, that are both available and allowed, and as many as the options ask for
  (clamped to 1 .. 64), if that many are available.
\<close>

theorem Schedulers_ctor_cpus:
  "map cpu_id (scheds (Schedulers_ctor L os_mask (Options sc wps)))
     = take (unat (Schedulers_count sc)) (filter (bit os_mask) [0 ..< 64]) \<and>
   length (scheds (Schedulers_ctor L os_mask (Options sc wps)))
     = min (length (filter (bit os_mask) [0 ..< 64])) (max 1 (min 64 (unat sc)))"
proof -
  note e = ctor_cpu_ids [of L os_mask sc wps]
  have "length (scheds (Schedulers_ctor L os_mask (Options sc wps)))
      = length (take (unat (Schedulers_count sc)) (filter (bit os_mask) [0 ..< 64]))"
    using e by (metis length_map)
  with e show ?thesis by (simp add: Schedulers_count_nat)
qed

end
