(* ===== verification/Runtime_Example.thy ===== *)
theory Runtime_Example
  imports Pool Runtime_Live Runtime_Seq Scheduler_Props
begin

text \<open>
  A run of the whole program, evaluated step by step: two schedulers with one worker each on the
  CPUs 0 and 1; the task with number 7 is submitted, runs on the first scheduler and ends; the main
  thread finds everything idle and shuts the schedulers down. The theorems of the theory
  Runtime_Props are applied to the states of this run.
\<close>

lemmas run_defs = upd_sched_def park_worker_def park_defs schedule_io_workers_def
  schedule_waiting_workers_def schedule_idle_worker_def schedule_yielded_workers_def
  next_task_def Let_def has_runnable_workers_def has_idle_workers_def has_waiting_workers_def
  has_pending_io_workers_def has_tasks_def Tasks_defs upd_worker_def sleep_enter_def
  should_idle_spin_def signal_idle_def signal_running_def manage_load_def Tasks_init_def
  first_sleep_def first_run_def Scheduler_ctor_def start_worker_def sync_init_enter_def
  Scheduler_members_def Worker_init_def Worker_wait_def Worker_notify_def sync_init_resume_def
  can_push_def push_task_def deliver_def notify_sched_def set_phase_def current_worker_def
  count_op_def resume_def finish_task_def run_next_def prepare_exec_def prepare_next_worker_def
  invalidate_idle_timer_def sync_finish_def context_switch_def idle_sleep_ready_def
  idle_sleep_done_def should_exit_def exit_sched_def signal_exit_def Worker_dtor_def set_state_def
  FS_work_stealing_allowed_def FS_idle_spinning_allowed_def CFG_idle_spin_threshold_def
  set_worker_state_def has_work_def has_yielded_workers_def sched_idle_def has_stealable_work_def

definition ex_start :: "nat list runtime" where
  "ex_start = \<lparr>rt_g = \<lparr>scheds = [first_sleep list_stl 0 1, first_sleep list_stl 1 1],
       idle_schedulers = 2, check_idle = True, cv_signalled = True\<rparr>,
     rt_ph = (\<lambda>_. Ph_idle False), rt_main = Mp_async 7, rt_sub = {#}, rt_fin = {#}\<rparr>"

lemma ex_cpus: "boot_cpus 3 (Options 2 1) = [0, 1]"
  by code_simp

lemma ex_size: "unat (workers_per_scheduler (Options 2 1)) = 1"
  by code_simp

lemma ex_start_init: "init_ums list_stl ex_env 0 0 0 3 (Options 2 1) 7 = Some ex_start"
proof -
  let ?g = "\<lparr>scheds = [], idle_schedulers = 0, check_idle = False, cv_signalled = False\<rparr>"
  have b0: "booted list_stl [] ?g" by (simp add: booted_def)
  note b1 = list_il.boot_scheduler_eq [OF b0, of 1 ex_env 0 0 0 0]
  have "booted list_stl [0]
      \<lparr>scheds = [first_sleep list_stl 0 1], idle_schedulers = 1, check_idle = True, cv_signalled = True\<rparr>"
    using list_il.boot_scheduler_ok [OF b0, of 1 ex_env 0 0 0 0] b1 by simp
  from list_il.boot_scheduler_eq [OF this, of 1 ex_env 0 0 0 1] b1 show ?thesis
    by (simp add: init_ums_def ex_cpus ex_size ex_start_def)
qed

text \<open>Scheduler \<open>i\<close> goes on; it does not spin.\<close>

definition ex_go :: "nat \<Rightarrow> action" where
  "ex_go i = A_sched i ex_env 0 (CFG_idle_spin_threshold + 1) 0"

definition ex_begin :: "action list" where
  "ex_begin = [A_main 0, A_main 0, ex_go 0, ex_go 0, ex_go 0, ex_go 0, ex_go 0, ex_go 0, ex_go 0, ex_go 0]"

definition ex_end :: "action list" where
  "ex_end = [A_user 0 U_done, ex_go 0, ex_go 0, ex_go 0, ex_go 0, ex_go 0, ex_go 0, ex_go 0, ex_go 0, ex_go 0]"

definition ex_close :: "action list" where
  "ex_close = [A_main 0, A_main 0, A_main 0, A_main 0, A_main 0, A_main 0]"

definition ex_shut :: "action list" where
  "ex_shut = [A_main 0, A_main 0, A_main 0, ex_go 0, ex_go 0, A_main 0, A_main 0,
     A_main 0, A_main 0, A_main 0, ex_go 1, ex_go 1, A_main 0, A_main 0, A_main 0]"

text \<open>Five states of the run: the task is queued but the scheduler not notified; a task executes; nothing is left to do; the shutdown begins; it ends.\<close>

definition ex_busy :: "nat list runtime" where
  "ex_busy = the (rt_run list_stl ex_begin ex_start)"

definition ex_pushed :: "nat list runtime" where
  "ex_pushed = the (rt_run list_stl [A_main 0] ex_start)"

definition ex_quiet :: "nat list runtime" where
  "ex_quiet = the (rt_run list_stl ex_end ex_busy)"

definition ex_closing :: "nat list runtime" where
  "ex_closing = the (rt_run list_stl ex_close ex_quiet)"

definition ex_finished :: "nat list runtime" where
  "ex_finished = the (rt_run list_stl ex_shut ex_closing)"

lemma ex_pushed_facts:
  "rt_run list_stl [A_main 0] ex_start = Some ex_pushed"
  "rt_ph ex_pushed 0 = Ph_idle False" "has_tasks (scheds (rt_g ex_pushed) ! 0)"
  "length (scheds (rt_g ex_pushed)) = 2"
  by (simp_all add: ex_pushed_def ex_start_def run_defs)

lemma ex_busy_facts:
  "rt_run list_stl ex_begin ex_start = Some ex_busy"
  "rt_ph ex_busy 0 = Ph_exec" "rt_main ex_busy = Mp_wait" "length (scheds (rt_g ex_busy)) = 2"
  "rt_sub ex_busy = {#7#}" "rt_fin ex_busy = {#}"
  by (simp_all add: ex_busy_def ex_start_def run_defs ex_go_def ex_begin_def)

lemma ex_quiet_facts:
  "rt_run list_stl ex_end ex_busy = Some ex_quiet"
  "quiescent ex_quiet" "rt_main ex_quiet = Mp_wait" "length (scheds (rt_g ex_quiet)) = 2"
  by (simp_all add: ex_quiet_def ex_busy_def ex_start_def run_defs ex_go_def ex_begin_def ex_end_def
      quiescent_def All_less_Suc)

lemma ex_closing_facts:
  "rt_run list_stl ex_close ex_quiet = Some ex_closing"
  "rt_main ex_closing = Mp_signal 0" "shutdown_left ex_closing = 19"
  "length (scheds (rt_g ex_closing)) = 2"
  by (simp_all add: ex_closing_def ex_quiet_def ex_busy_def ex_start_def run_defs ex_go_def
      ex_begin_def ex_end_def ex_close_def shutdown_left_def dtors_left_def lessThan_nat_numeral
      lessThan_Suc)

lemma ex_finished_facts:
  "rt_run list_stl ex_shut ex_closing = Some ex_finished"
  "rt_main ex_finished = Mp_done" "length (scheds (rt_g ex_finished)) = 2"
  "rt_sub ex_finished = {#7#}"
  by (simp_all add: ex_finished_def ex_closing_def ex_quiet_def ex_busy_def ex_start_def run_defs
      ex_go_def ex_begin_def ex_end_def ex_close_def ex_shut_def)

text \<open>
  Another continuation: while the task executes, the main thread reads the counter of idle schedulers
  and gives up; the task ends, and the last scheduler signals, before the main thread blocks.
\<close>

definition ex_miss :: "action list" where
  "ex_miss = [A_main 0, A_main 0] @ ex_end @ [A_main 0]"

definition ex_missed :: "nat list runtime" where
  "ex_missed = the (rt_run list_stl ex_miss ex_busy)"

lemma ex_missed_facts:
  "rt_run list_stl ex_miss ex_busy = Some ex_missed"
  "signal_missed ex_missed" "rt_sub ex_missed = {#7#}"
  by (simp_all add: ex_missed_def ex_miss_def ex_busy_def ex_start_def run_defs main_block_def ex_go_def
      ex_begin_def ex_end_def signal_missed_def quiescent_def All_less_Suc)

text \<open>All are states of the program.\<close>

lemma ex_start_state: "program_state list_stl ex_start"
proof -
  have "bit (3::u64) 0" by simp
  then have "\<exists>cpu<64. bit (3::u64) cpu" by (intro exI [of _ 0]) simp
  then show ?thesis using ex_start_init unfolding program_state_def by blast
qed

lemma ex_pushed_state: "program_state list_stl ex_pushed"
  by (rule program_state_run [OF ex_start_state ex_pushed_facts(1)])

lemma ex_states:
  "program_state list_stl ex_busy" "program_state list_stl ex_quiet"
  "program_state list_stl ex_closing" "program_state list_stl ex_finished"
  "program_state list_stl ex_missed"
proof -
  show b: "program_state list_stl ex_busy"
    by (rule program_state_run [OF ex_start_state ex_busy_facts(1)])
  show q: "program_state list_stl ex_quiet"
    by (rule program_state_run [OF b ex_quiet_facts(1)])
  show c: "program_state list_stl ex_closing"
    by (rule program_state_run [OF q ex_closing_facts(1)])
  show "program_state list_stl ex_finished"
    by (rule program_state_run [OF c ex_finished_facts(1)])
  show "program_state list_stl ex_missed"
    by (rule program_state_run [OF b ex_missed_facts(1)])
qed

end
