(* ===== verification/Runtime_Props.thy ===== *)
theory Runtime_Props
  imports Runtime_Example
begin

text \<open>
  The properties of the whole program: safety of every interleaving of the threads, the refinement
  of the task pool, that no notification is lost, and that the main thread shuts the program down
  exactly when all tasks are done. Each has a witness on the run of the theory Runtime_Example.
\<close>

section \<open>The start\<close>

text \<open>
  C18: Whatever the options and the clock, if at least one CPU is available \<open>init_ums\<close> gets to the
  submission of its task, in a well-formed state: one scheduler on each selected CPU, all in
  \<open>idle_sleep\<close> and counted as such, and the invariant of the running program holds.
\<close>

theorem init_ums_well_formed:
  assumes "stl_laws L" and "\<exists>cpu<64. bit os_mask cpu"
  shows "\<exists>c. init_ums L env t1 t2 t3 os_mask (Options sc wps) m = Some c \<and> rt_inv L c \<and>
    map cpu_id (scheds (rt_g c))
      = take (max 1 (min 64 (unat sc))) (filter (bit os_mask) [0 ..< 64]) \<and>
    rt_main c = Mp_async m \<and> quiescent c \<and>
    unat (idle_schedulers (rt_g c)) = length (scheds (rt_g c))"
proof -
  obtain c where c: "init_ums L env t1 t2 t3 os_mask (Options sc wps) m = Some c" "rt_inv L c"
    "rt_main c = Mp_async m" "rt_ph c = (\<lambda>_. Ph_idle False)"
    "map cpu_id (scheds (rt_g c)) = boot_cpus os_mask (Options sc wps)"
    "booted L (boot_cpus os_mask (Options sc wps)) (rt_g c)"
    using stl_laws.init_ums_ok [OF assms] by blast
  have o: "open_inv L c" using c(2,3) by (simp add: rt_inv_def)
  have "quiescent c"
    using c(4,6) by (simp add: quiescent_def booted_def fresh_def list_all2_conv_all_nth)
  moreover have "unat (idle_schedulers (rt_g c)) = length (scheds (rt_g c))"
    using count_all_asleep(1) [of c L] o c(4) by (simp add: open_inv_def)
  ultimately show ?thesis using c(1-3,5) by (auto simp: boot_cpus_spec Schedulers_count_nat)
qed

theorem init_ums_well_formed_witness:
  "map_option (\<lambda>c. map cpu_id (scheds (rt_g c)))
     (init_ums list_stl ex_env 0 0 0 9 (Options 7 64) 1) = Some [0, 3]"
proof -
  have "bit (9::u64) 0" by simp
  then have "\<exists>cpu<64. bit (9::u64) cpu" by (intro exI [of _ 0]) simp
  moreover have "take (max 1 (min 64 (unat (7::u64)))) (filter (bit (9::u64)) [0 ..< 64]) = [0, 3]"
    by code_simp
  ultimately show ?thesis
    using init_ums_well_formed [OF list_il.stl_laws_axioms, of 9 ex_env 0 0 0 7 64 1] by auto
qed

section \<open>Safety\<close>

text \<open>
  C1: In every state that any interleaving of the threads reaches: the assertion in \<open>should_exit\<close>
  has not failed; no task has finished more often than it was submitted; and until the shutdown
  all schedulers are well formed, exactly one worker of each holds the baton, a scheduler that
  executes has an executing worker with a task, the counter of idle schedulers is exact, and every
  task that was submitted is queued, assigned to a worker, or finished.
\<close>

theorem Runtime_safe:
  assumes "stl_laws L" and "program_state L c"
  shows "(\<forall>i<length (scheds (rt_g c)). rt_ph c i \<noteq> Ph_assert) \<and> rt_fin c \<subseteq># rt_sub c \<and>
    (\<not> closing (rt_main c) \<longrightarrow>
       glob_inv L (rt_g c) \<and> rt_sub c = glob_bag (rt_g c) + rt_fin c \<and>
       unat (idle_schedulers (rt_g c)) = asleep_count (length (scheds (rt_g c))) (rt_ph c) \<and>
       (\<forall>i<length (scheds (rt_g c)). baton (scheds (rt_g c) ! i) \<and>
          (rt_ph c i = Ph_exec \<longrightarrow> runs_task (scheds (rt_g c) ! i))))"
proof -
  have inv: "rt_inv L c" by (rule stl_laws.program_state_inv [OF assms(1,2)])
  note fin = stl_laws.rt_inv_bag(1) [OF assms(1) inv]
  show ?thesis
  proof (cases "closing (rt_main c)")
    case True
    then have "phase_closed (m_exit (scheds (rt_g c) ! i)) (rt_ph c i)"
      if "i < length (scheds (rt_g c))" for i
      using inv that by (auto simp: rt_inv_def closed_inv_def dest: sched_closedD(3))
    then show ?thesis using True fin by force
  next
    case False
    then have o: "open_inv L c" using inv by (simp add: rt_inv_def)
    note ok = open_invD [OF o]
    note d = scheds_okD [OF ok(1)]
    have "unat (idle_schedulers (rt_g c)) = asleep_count (length (scheds (rt_g c))) (rt_ph c)"
      using ok(1,2) unat_count [OF asleep_count_le, of "length (scheds (rt_g c))" "rt_ph c"]
      by (simp add: count_ok_def scheds_ok_def)
    moreover have "rt_ph c i \<noteq> Ph_assert" "rt_ph c i = Ph_exec \<longrightarrow> runs_task (scheds (rt_g c) ! i)"
      if "i < length (scheds (rt_g c))" for i using d(3) [OF that] by auto
    moreover have "glob_inv L (rt_g c)" using ok(1) by (simp add: scheds_ok_def)
    ultimately show ?thesis
      using False ok(3) d(2) fin by (simp add: bag_ok_def)
  qed
qed

text \<open>In the state \<open>ex_busy\<close> the task has been submitted and runs on the first scheduler.\<close>

theorem Runtime_safe_witness:
  "glob_bag (rt_g ex_busy) = {#7#} \<and> runs_task (scheds (rt_g ex_busy) ! 0)"
  using Runtime_safe [OF list_il.stl_laws_axioms ex_states(1)] by (simp add: ex_busy_facts(2-6))

text \<open>
  C2: The program implements the pool of tasks: its submissions, the ends of its tasks and the
  begin of the shutdown are the steps of the pool, in which only a pending task can finish and only
  a pool with nothing pending can be closed; every other step of any thread is invisible.
\<close>

theorem Runtime_refines_pool:
  assumes "stl_laws L" and "program_state L c" and "rt_step L c c'"
  shows "pool_step\<^sup>*\<^sup>* pool_empty (pool_of c) \<and>
    (pool_of c' = pool_of c \<or> pool_step (pool_of c) (pool_of c')) \<and>
    (pl_closed (pool_of c) \<longrightarrow> pl_pending (pool_of c) = {#})"
proof -
  note p = stl_laws.program_state_pool [OF assms(1,2)]
  have "pl_closed (pool_of c) \<Longrightarrow> pl_pending (pool_of c) = {#}"
    using pool_closed_empty [OF p(1)] by (simp add: pool_empty_def)
  then show ?thesis using p(1) p(2) [OF assms(3)] by blast
qed

theorem Runtime_refines_pool_witness:
  "pool_step\<^sup>*\<^sup>* pool_empty (pool_of ex_closing) \<and> pl_pending (pool_of ex_closing) = {#}"
proof -
  have "\<exists>c'. rt_act list_stl (A_main 0) ex_closing = Some c'"
    by (simp add: ex_closing_facts)
  then obtain c' where "rt_step list_stl ex_closing c'" using rt_step.act by blast
  from Runtime_refines_pool [OF list_il.stl_laws_axioms ex_states(3) this] show ?thesis
    by (metis closing.simps(1) ex_closing_facts(2) pool.select_convs(3) pool_of_def)
qed

text \<open>
  C3: The program is shut down only when all is done. Once \<open>wait_exit\<close> has returned, every task
  that was submitted has finished, no task is queued and no scheduler executes one; when the main
  thread is done, every scheduler has left \<open>schedule\<close>, and all its workers are exiting and not
  blocked, so that they can be joined.
\<close>

theorem Shutdown_only_when_done:
  assumes "stl_laws L" and "program_state L c" and "closing (rt_main c)"
  shows "rt_fin c = rt_sub c \<and>
    (\<forall>i<length (scheds (rt_g c)). m_tasks (sch_tasks (scheds (rt_g c) ! i)) = [] \<and>
       rt_ph c i \<noteq> Ph_exec \<and> (\<forall>j. rt_ph c i \<noteq> Ph_notify j)) \<and>
    (rt_main c = Mp_done \<longrightarrow>
       (\<forall>i<length (scheds (rt_g c)). rt_ph c i = Ph_exited \<and>
          (\<forall>w<workers_size (scheds (rt_g c) ! i).
             w_state (workers (scheds (rt_g c) ! i) w) = W_exiting \<and>
             w_running (workers (scheds (rt_g c) ! i) w))))"
proof -
  have "closed_inv L c"
    using stl_laws.program_state_inv [OF assms(1,2)] assms(3) by (simp add: rt_inv_def)
  then have f: "rt_fin c = rt_sub c" and s: "\<And>i. i < length (scheds (rt_g c)) \<Longrightarrow>
      sched_closed L (rt_main c) i (scheds (rt_g c) ! i) (rt_ph c i)"
    by (simp_all add: closed_inv_def)
  have "m_tasks (sch_tasks (scheds (rt_g c) ! i)) = []" "rt_ph c i \<noteq> Ph_exec"
    "rt_ph c i \<noteq> Ph_notify j" if "i < length (scheds (rt_g c))" for i j
    using sched_closedD(1,3) [OF s [OF that]] by (auto simp: no_work_def)
  moreover have "rt_ph c i = Ph_exited"
    "w < workers_size (scheds (rt_g c) ! i) \<Longrightarrow> w_state (workers (scheds (rt_g c) ! i) w) = W_exiting \<and>
       w_running (workers (scheds (rt_g c) ! i) w)"
    if "i < length (scheds (rt_g c))" "rt_main c = Mp_done" for i w
    using sched_closedD(1,5,6) [OF s [OF that(1)]] that(2)
    by (auto simp: no_work_def destructed_def)
  ultimately show ?thesis using f by blast
qed

theorem Shutdown_only_when_done_witness:
  "rt_fin ex_finished = {#7#} \<and> rt_ph ex_finished 0 = Ph_exited \<and> rt_ph ex_finished 1 = Ph_exited"
  using Shutdown_only_when_done [OF list_il.stl_laws_axioms ex_states(4)]
  by (simp add: ex_finished_facts(2-4))

text \<open>
  C4: No notification is lost. A scheduler blocked in \<open>idle_sleep\<close> that has a task or the exit
  signal, or blocked in a timed wait with the condition of a waiting worker set or with both a task
  and an idle worker, is about to be notified: some thread can at once make the step that wakes it.
\<close>

theorem No_lost_notification:
  assumes "stl_laws L" and "program_state L c" and i: "i < length (scheds (rt_g c))"
    and b: "rt_ph c i = Ph_idle False \<and> (has_tasks (scheds (rt_g c) ! i) \<or> m_exit (scheds (rt_g c) ! i)) \<or>
      rt_ph c i = Ph_wait tp False \<and> wait_reason L (scheds (rt_g c) ! i)"
  shows "\<exists>a c' k. (a = A_notify k \<or> a = A_main k) \<and> rt_act L a c = Some c' \<and>
    (rt_ph c' i = Ph_idle True \<or> rt_ph c' i = Ph_wait tp True)"
proof -
  note n = stl_laws.blocked_notifying
    [OF assms(1) stl_laws.program_state_inv [OF assms(1,2)] i]
  have "notifying c i" using n(1) n(2) [of tp] b by blast
  moreover have "rt_ph c i \<noteq> Ph_notify j" for j using b by auto
  ultimately show ?thesis using stl_laws.notifying_delivers [OF assms(1), of c i] b by fastforce
qed

theorem No_lost_notification_witness:
  "\<exists>a c' k. (a = A_notify k \<or> a = A_main k) \<and> rt_act list_stl a ex_pushed = Some c' \<and>
    (rt_ph c' 0 = Ph_idle True \<or> rt_ph c' 0 = Ph_wait 0 True)"
  using No_lost_notification [OF list_il.stl_laws_axioms ex_pushed_state, of 0 0]
  by (simp add: ex_pushed_facts(2-4))

section \<open>Liveness\<close>

text \<open>
  C5: The end of the last task is noticed, unless it comes at the wrong moment. When all schedulers
  sleep and no task is queued while the main thread evaluates \<open>all_idle\<close> or is going to (\<open>watching\<close>),
  the main thread alone gets to the shutdown in at most \<open>n + 5\<close> steps for \<open>n\<close> schedulers, and no
  step of any other thread, spurious wakeups included, takes the program out of this situation. And
  this situation is reached whenever everything comes to rest, except by a step that is made while
  \<open>all_idle\<close> has returned false and the main thread has not yet blocked.
\<close>

theorem Shutdown_not_missed:
  assumes "stl_laws L" and "program_state L c" and m: "in_wait_exit (rt_main c)"
  shows "(quiescent c \<and> watching c \<longrightarrow>
      (\<exists>k c'. k \<le> wait_left (length (scheds (rt_g c))) (rt_main c) \<and>
        rt_run L (replicate k (A_main j)) c = Some c' \<and> rt_main c' = Mp_signal 0) \<and>
      (\<forall>a c'. rt_act L a c = Some c' \<longrightarrow> quiescent c' \<and> (closing (rt_main c') \<or> watching c'))) \<and>
    (\<not> quiescent c \<and> rt_main c \<noteq> Mp_relock \<longrightarrow>
      (\<forall>a c'. rt_act L a c = Some c' \<and> quiescent c' \<longrightarrow> watching c'))"
proof -
  have "\<not> closing (rt_main c)" using m by (cases "rt_main c") auto
  then have o: "open_inv L c"
    using stl_laws.program_state_inv [OF assms(1,2)] by (simp add: rt_inv_def)
  show ?thesis
    using stl_laws.quiescent_run [OF assms(1) o] stl_laws.quiescent_stays [OF assms(1) o]
      stl_laws.becomes_watching [OF assms(1) o _ m] by blast
qed

theorem Shutdown_not_missed_witness:
  "\<exists>k c'. k \<le> 6 \<and> rt_run list_stl (replicate k (A_main 0)) ex_quiet = Some c' \<and>
    rt_main c' = Mp_signal 0"
proof -
  have "in_wait_exit (rt_main ex_quiet)" "watching ex_quiet" by (simp_all add: watching_def ex_quiet_facts(3))
  then show ?thesis
    using Shutdown_not_missed [OF list_il.stl_laws_axioms ex_states(2), of 0] ex_quiet_facts(2)
    by (simp add: ex_quiet_facts(3,4))
qed

text \<open>
  C6: The wake-up of the main thread can be lost. When all schedulers sleep, nothing is queued and
  \<open>m_check_idle\<close> is set, but the main thread blocks in \<open>wait_exit\<close> after the signal (\<open>signal_missed\<close>),
  every task has finished and yet the program does not end: no step of any thread leads out of this
  situation, except a spurious wakeup of the main thread. The witness is a run of the program that
  gets there: the predicate of the wait evaluates \<open>all_idle\<close> with the mutex unlocked, and the last
  scheduler signals after the counter has been read and before the thread blocks.
\<close>

theorem Shutdown_can_be_missed:
  assumes "stl_laws L" and "program_state L c" and s: "signal_missed c"
  shows "rt_fin c = rt_sub c \<and> \<not> closing (rt_main c) \<and>
    (\<forall>a c'. rt_act L a c = Some c' \<and> a \<noteq> A_spurious_main \<longrightarrow> signal_missed c')"
proof -
  have m: "in_wait_exit (rt_main c)" "quiescent c" using s by (simp_all add: signal_missed_def)
  then have nc: "\<not> closing (rt_main c)" by (cases "rt_main c") auto
  then have o: "open_inv L c"
    using stl_laws.program_state_inv [OF assms(1,2)] by (simp add: rt_inv_def)
  then show ?thesis
    using nc stl_laws.quiescent_done [OF assms(1) o m(2,1)] stl_laws.signal_missed_stays [OF assms(1) o s]
    by blast
qed

theorem Shutdown_can_be_missed_witness:
  "program_state list_stl ex_missed \<and> signal_missed ex_missed \<and> rt_fin ex_missed = {#7#}"
  using Shutdown_can_be_missed [OF list_il.stl_laws_axioms ex_states(5) ex_missed_facts(2)]
    ex_states(5) ex_missed_facts(2,3) by simp

text \<open>
  C8: The shutdown ends. From the moment it begins, a run of any threads makes at most
  \<open>shutdown_left\<close> steps, and one more for each spurious wakeup, and as long as the main thread is
  not done some thread can go on: no thread waits for ever for a scheduler or a worker.
\<close>

theorem Shutdown_completes:
  assumes "stl_laws L" and "program_state L c" and "closing (rt_main c)"
    and "rt_run L as c = Some c'"
  shows "length (filter (\<lambda>a. \<not> spurious a) as) \<le> shutdown_left c + length (filter spurious as) \<and>
    (rt_main c' = Mp_done \<or> (\<exists>a c''. \<not> spurious a \<and> rt_act L a c' = Some c''))"
proof -
  have "closed_inv L c"
    using stl_laws.program_state_inv [OF assms(1,2)] assms(3) by (simp add: rt_inv_def)
  then have "closed_inv L c' \<and> length (filter (\<lambda>a. \<not> spurious a) as) + shutdown_left c'
      \<le> shutdown_left c + length (filter spurious as)"
    by (rule stl_laws.closed_run [OF assms(1) _ assms(4)])
  then show ?thesis using stl_laws.closed_progress [OF assms(1)] by fastforce
qed

text \<open>The example needs 15 of at most 19 steps.\<close>

theorem Shutdown_completes_witness:
  "length (filter (\<lambda>a. \<not> spurious a) ex_shut) \<le> 19"
proof -
  have "filter spurious ex_shut = []" by (simp add: ex_shut_def ex_go_def)
  then show ?thesis
    using Shutdown_completes [OF list_il.stl_laws_axioms ex_states(3) _ ex_finished_facts(1)]
    by (simp add: ex_closing_facts(2,3))
qed

text \<open>
  C7: But for a missed signal to the main thread (\<open>signal_missed\<close>, when all is done) the program is
  never stuck. At any time \<open>t\<close>, until the main thread is done, some thread of the library can make a
  step at once, or a worker executes a task, or a scheduler is in its timed wait for a later time. In
  particular there is no deadlock among the schedulers.
\<close>

theorem Runtime_never_stuck:
  assumes "stl_laws L" and "program_state L c" and "rt_main c \<noteq> Mp_done"
    and "\<not> signal_missed c"
  shows "(\<exists>a c'. own_step t a \<and> rt_act L a c = Some c') \<or>
    (\<exists>i<length (scheds (rt_g c)). rt_ph c i = Ph_exec \<and> runs_task (scheds (rt_g c) ! i)) \<or>
    (\<exists>i<length (scheds (rt_g c)). \<exists>tp>t. rt_ph c i = Ph_wait tp False \<and>
       sch_state (scheds (rt_g c) ! i) = S_idle_wait)"
proof (cases "closing (rt_main c)")
  case True
  then have "closed_inv L c"
    using stl_laws.program_state_inv [OF assms(1,2)] by (simp add: rt_inv_def)
  then show ?thesis using stl_laws.closed_goes_on [OF assms(1) _ assms(3), of t]
    unfolding goes_on_def by blast
next
  case False
  then have o: "open_inv L c"
    using stl_laws.program_state_inv [OF assms(1,2)] by (simp add: rt_inv_def)
  note d = scheds_okD(3) [OF open_invD(1) [OF o]]
  have x: "runs_task (scheds (rt_g c) ! i)" if "i < length (scheds (rt_g c))" "rt_ph c i = Ph_exec" for i
    using d [OF that(1)] that(2) by simp
  have w: "sch_state (scheds (rt_g c) ! i) = S_idle_wait"
    if "i < length (scheds (rt_g c))" "rt_ph c i = Ph_wait tp False" for i tp
    using d [OF that(1)] that(2) by simp
  from stl_laws.open_progress [OF assms(1) o, of t] show ?thesis
    unfolding goes_on_def using x w assms(4) by (meson linorder_not_le)
qed

text \<open>In \<open>ex_quiet\<close> all schedulers sleep, and it is the main thread that goes on.\<close>

theorem Runtime_never_stuck_witness:
  "\<exists>a c'. own_step 0 a \<and> rt_act list_stl a ex_quiet = Some c'"
proof -
  have "rt_ph ex_quiet i \<noteq> Ph_exec" "rt_ph ex_quiet i \<noteq> Ph_wait tp False"
    if "i < length (scheds (rt_g ex_quiet))" for i tp
    using ex_quiet_facts(2) that by (auto simp: quiescent_def)
  moreover have "rt_main ex_quiet \<noteq> Mp_done" using ex_quiet_facts(3,4) by auto
  moreover have "\<not> signal_missed ex_quiet" by (simp add: signal_missed_def ex_quiet_facts(3))
  ultimately show ?thesis
    using Runtime_never_stuck [OF list_il.stl_laws_axioms ex_states(2), of 0] by blast
qed

section \<open>Equivalence with the sequential definition\<close>

text \<open>
  The steps of a scheduler are a faithful division of the loop in \<open>schedule\<close>: a scheduler that
  is at the head of the loop and takes its steps without interruption from others gets, from
  any state, exactly to the result of \<open>schedule_iter\<close>, which is the code written as one function:
  the passes over the queues, stealing, the choice of the next worker or \<open>sleep\<close> and \<open>should_exit\<close>.
\<close>

theorem schedule_steps_equivalent:
  assumes "i < length (scheds (rt_g c))" and "rt_ph c i = Ph_io"
  shows "\<exists>k. rt_run L (replicate k (A_sched i env t1 t2 t3)) c = Some (set_phase i
    (iter_phase (fst (schedule_iter L env t1 t2 t3 i (rt_g c))),
     iter_state L env i (rt_g c) (schedule_iter L env t1 t2 t3 i (rt_g c))) c)"
proof -
  have "c = set_phase i (Ph_io, rt_g c) c" using assms(2) by (cases c) (auto simp: set_phase_def)
  then show ?thesis using alone_iter [OF assms(1), of L env t1 t2 t3 c] by (simp add: alone_def)
qed

text \<open>The first scheduler has just received the task, and runs its worker.\<close>

definition ex_awake :: "nat list runtime" where
  "ex_awake = the (rt_run list_stl [A_main 0, A_main 0, ex_go 0, ex_go 0] ex_start)"

theorem schedule_steps_equivalent_witness:
  "\<exists>k c'. rt_run list_stl (replicate k (A_sched 0 ex_env 0 0 0)) ex_awake = Some c' \<and>
     rt_ph c' 0 = Ph_exec"
proof -
  have a: "0 < length (scheds (rt_g ex_awake))" "rt_ph ex_awake 0 = Ph_io"
    by (simp_all add: ex_awake_def ex_start_def run_defs ex_go_def)
  have "fst (schedule_iter list_stl ex_env 0 0 0 0 (rt_g ex_awake)) = It_run"
    by (simp add: ex_awake_def ex_start_def run_defs ex_go_def schedule_iter_def
        schedule_workers_def schedule_local_def schedule_idle_workers_def steal_work_def)
  then obtain k g where "rt_run list_stl (replicate k (A_sched 0 ex_env 0 0 0)) ex_awake
      = Some (set_phase 0 (Ph_exec, g) ex_awake)"
    using schedule_steps_equivalent [OF a, of list_stl ex_env 0 0 0] by (metis iter_phase.simps(1))
  moreover have "rt_ph (set_phase 0 (Ph_exec, g) ex_awake) 0 = Ph_exec" by (simp add: set_phase_def)
  ultimately show ?thesis by blast
qed

end
