(* ===== verification/Runtime_Cost.thy ===== *)
theory Runtime_Cost
  imports Runtime_Example
begin

text \<open>
  How many steps the library makes. A potential of the whole program pays for every step of a
  scheduler, a notification or the main thread; only events from outside add to it: what tasks do,
  spurious wakeups, timed waits that are over, and rounds of \<open>schedule\<close> in which a scheduler polls.
  It polls, that is its \<open>sleep\<close> returns without blocking, when I/O is pending, for a while after it
  got idle, and shortly before a sleeping worker is due. When \<open>sleep\<close> returns because there is work
  after all, a task to start or a condition that is set, this is not an event from outside: it is
  paid for by the call that queued the task or set the condition, which can make a scheduler do one
  round too many at most.
\<close>

section \<open>Events from outside\<close>

text \<open>The three reasons to poll; the clock is read as in \<open>sleep_enter\<close>.\<close>

definition polls ::
  "'q stl \<Rightarrow> time_point \<Rightarrow> time_point \<Rightarrow> time_point \<Rightarrow> 'q scheduler \<Rightarrow> bool" where
  "polls L t1 t2 t3 s \<longleftrightarrow> has_pending_io_workers L s \<or> fst (should_idle_spin L t1 t2 s) \<or>
     has_waiting_workers L s \<and>
       t3 \<ge> wi_earliest_wait (waiters_info L s) - CFG_idle_sleep_threshold"

text \<open>A step out of a timed wait that has not been signalled: its time has come.\<close>

fun outside_phase ::
  "'q stl \<Rightarrow> time_point \<Rightarrow> time_point \<Rightarrow> time_point \<Rightarrow> 'q scheduler \<Rightarrow> phase \<Rightarrow> bool" where
  "outside_phase L t1 t2 t3 s Ph_sleep \<longleftrightarrow> polls L t1 t2 t3 s"
| "outside_phase L t1 t2 t3 s (Ph_wait tp woken) \<longleftrightarrow> \<not> woken"
| "outside_phase L t1 t2 t3 s _ \<longleftrightarrow> False"

fun outside :: "'q stl \<Rightarrow> action \<Rightarrow> 'q runtime \<Rightarrow> bool" where
  "outside L (A_sched i env t1 t2 t3) c \<longleftrightarrow> outside_phase L t1 t2 t3 (scheds (rt_g c) ! i) (rt_ph c i)"
| "outside L (A_user i op) c \<longleftrightarrow> True"
| "outside L (A_spurious i) c \<longleftrightarrow> True"
| "outside L A_spurious_main c \<longleftrightarrow> True"
| "outside L (A_notify i) c \<longleftrightarrow> False"
| "outside L (A_main j) c \<longleftrightarrow> False"

text \<open>The steps of a run, those of the library and those from outside.\<close>

fun count_steps :: "'q stl \<Rightarrow> action list \<Rightarrow> 'q runtime \<Rightarrow> nat \<times> nat" where
  "count_steps L [] c = (0, 0)"
| "count_steps L (a # as) c = (case rt_act L a c of
     None \<Rightarrow> (0, 0)
   | Some c' \<Rightarrow> (let (l, x) = count_steps L as c'
       in if outside L a c then (l, Suc x) else (Suc l, x)))"

section \<open>What a round of \<open>schedule\<close> has passed by\<close>

text \<open>
  A task that is queued, or a condition that is set, after the pass that looks for it makes \<open>sleep\<close>
  return. \<open>late_task\<close> and \<open>late_cond\<close> are the phases after these passes.
\<close>

fun late_task :: "phase \<Rightarrow> bool" where
  "late_task Ph_yielded = True"
| "late_task (Ph_steal js) = True"
| "late_task (Ph_grab j js) = True"
| "late_task Ph_choose = True"
| "late_task Ph_sleep = True"
| "late_task _ = False"

definition late_cond :: "phase \<Rightarrow> bool" where
  "late_cond p \<longleftrightarrow> late_task p \<or> p = Ph_new \<or> p = Ph_take"

definition passed_by :: "'q stl \<Rightarrow> phase \<Rightarrow> 'q scheduler \<Rightarrow> bool" where
  "passed_by L p s \<longleftrightarrow>
     late_task p \<and> m_tasks (sch_tasks s) \<noteq> [] \<and> queue_of L s W_idle \<noteq> [] \<and>
       queue_of L s W_runnable = [] \<or>
     late_cond p \<and> cond_set L s"

lemma passed_by_touched:
  assumes "touched s s'" and "passed_by L p s'"
    and "m_tasks (sch_tasks s') \<noteq> [] \<Longrightarrow> m_tasks (sch_tasks s) \<noteq> []"
    and "\<And>v. w_cond (workers s' v) \<Longrightarrow> w_cond (workers s v)"
  shows "passed_by L p s"
  using assms(2-4) unfolding passed_by_def cond_set_def touched_queue [OF assms(1)] by auto

lemma cond_kept:
  assumes "queue_of L s' W_waiting = queue_of L s W_waiting"
    and "\<And>v. w_cond (workers s' v) = w_cond (workers s v)"
  shows "cond_set L s' = cond_set L s"
  using assms by (simp add: cond_set_def)

context stl_laws
begin

lemma passed_by_waiting:
  assumes "sched_inv L s"
  shows "\<not> cond_set L (schedule_waiting_workers L env s)"
proof -
  note c = schedule_waiting_correct [OF assms refl, of env]
  have "w_cond (workers (schedule_waiting_workers L env s) w) = w_cond (workers s w)" for w
    using c(2) by (simp add: pass_frame_def)
  then show ?thesis by (auto simp: cond_set_def c(4) wait_done_def wait_info_defs)
qed

lemma idle_worker_runnable:
  assumes inv: "sched_inv L s" and "queue_of L s W_idle \<noteq> []"
    and "case t of Some x \<Rightarrow> True | None \<Rightarrow> m_tasks (sch_tasks s) \<noteq> []"
  shows "queue_of L (schedule_idle_worker L t s) W_runnable \<noteq> []"
    "cond_set L (schedule_idle_worker L t s) = cond_set L s"
proof -
  obtain w idle where idle: "queue_of L s W_idle = w # idle"
    using assms(2) by (cases "queue_of L s W_idle") auto
  obtain tk rest where t: "case t of Some x \<Rightarrow> tk = x \<and> rest = m_tasks (sch_tasks s)
      | None \<Rightarrow> m_tasks (sch_tasks s) = tk # rest"
    using assms(3) by (cases t; cases "m_tasks (sch_tasks s)") auto
  note c = schedule_idle_worker_correct [OF inv idle t refl]
  show "queue_of L (schedule_idle_worker L t s) W_runnable \<noteq> []" by (simp add: c(2))
  show "cond_set L (schedule_idle_worker L t s) = cond_set L s"
    by (rule cond_kept) (simp_all add: c(4,6))
qed

lemma yielded_kept:
  assumes "sched_inv L s"
  shows "cond_set L (schedule_yielded_workers L s) = cond_set L s"
    "m_tasks (sch_tasks (schedule_yielded_workers L s)) = m_tasks (sch_tasks s)"
proof -
  note c = schedule_yielded_correct [OF assms refl]
  have "w_cond (workers (schedule_yielded_workers L s) v) = w_cond (workers s v)" for v
    by (auto simp: schedule_yielded_workers_def park_defs split: option.splits)
  then show "cond_set L (schedule_yielded_workers L s) = cond_set L s"
    by (intro cond_kept) (simp_all add: c(4))
  show "m_tasks (sch_tasks (schedule_yielded_workers L s)) = m_tasks (sch_tasks s)"
    by (auto simp: schedule_yielded_workers_def park_defs split: option.splits)
qed

text \<open>A scheduler passes by nothing by its own steps, and \<open>sleep\<close> returns only for a reason.\<close>

lemma passed_by_own:
  assumes inv: "sched_inv L (scheds g ! i)" and i: "i < length (scheds g)"
    and ph: "phase_ok L (length (scheds g)) i (scheds g ! i) p"
    and l: "length (m_tasks (sch_tasks (scheds g ! i))) < 2 ^ 64"
    and st: "sched_step L env t1 t2 t3 i p g = Some (p', g')"
    and "passed_by L p' (scheds g' ! i)"
  shows "passed_by L p (scheds g ! i)"
proof (cases p)
  case Ph_waiting
  then show ?thesis using st assms(6) passed_by_waiting [OF inv, of env] i
    by (auto simp: passed_by_def)
next
  case Ph_new
  have "has_tasks (scheds g ! i) \<longleftrightarrow> m_tasks (sch_tasks (scheds g ! i)) \<noteq> []"
    using has_tasks_iff [of "scheds g ! i"] inv l by (simp add: sched_inv_def)
  then show ?thesis using Ph_new st assms(6)
    by (auto simp: passed_by_def late_cond_def has_simps Let_def split: if_splits)
next
  case Ph_take
  show ?thesis
  proof (cases "m_tasks (sch_tasks (scheds g ! i))")
    case Nil
    then have "schedule_idle_worker L None (scheds g ! i) = scheds g ! i"
      by (simp add: schedule_idle_worker_def next_task_def Tasks_deque_Nil)
    then show ?thesis using Ph_take st assms(6) i Nil by (auto simp: passed_by_def late_cond_def)
  next
    case (Cons t ts)
    have "queue_of L (scheds g ! i) W_idle \<noteq> []" using ph Ph_take by (simp add: may_assign_def)
    from idle_worker_runnable [OF inv this, of None] Cons show ?thesis
      using Ph_take st assms(6) i by (auto simp: passed_by_def late_cond_def)
  qed
next
  case Ph_yielded
  note c = schedule_yielded_correct [OF inv refl] yielded_kept [OF inv]
  show ?thesis using Ph_yielded st assms(6) i c(2,4,6,7)
    by (auto simp: passed_by_def late_cond_def Let_def split: if_splits)
next
  case (Ph_steal js)
  then show ?thesis using st assms(6) by (cases js) (auto simp: passed_by_def late_cond_def split: if_splits)
next
  case (Ph_grab j js)
  then have j: "j \<noteq> i" "queue_of L (scheds g ! i) W_idle \<noteq> []" using ph by (auto simp: may_assign_def)
  show ?thesis
  proof (cases "fst (next_task (scheds g ! j))")
    case None
    then have "p' = Ph_steal js" "scheds g' ! i = scheds g ! i"
      using Ph_grab st i j by (auto split: prod.splits)
    then show ?thesis using Ph_grab assms(6) by (auto simp: passed_by_def late_cond_def)
  next
    case (Some x)
    then have "scheds g' ! i = schedule_idle_worker L (Some x) (scheds g ! i)"
      using Ph_grab st i j by (auto split: prod.splits)
    with idle_worker_runnable [OF inv j(2), of "Some x"] show ?thesis
      using Ph_grab assms(6) by (auto simp: passed_by_def late_cond_def)
  qed
next
  case Ph_choose
  then show ?thesis using st assms(6) by (auto simp: passed_by_def late_cond_def split: if_splits)
next
  case Ph_sleep
  then show ?thesis using st assms(6)
    by (auto simp: passed_by_def late_cond_def split: prod.splits sleep_result.splits)
next
  case Ph_check
  then show ?thesis using st assms(6)
    by (auto simp: passed_by_def late_cond_def split: option.splits bool.splits)
qed (use st assms(6) in \<open>auto simp: passed_by_def late_cond_def split: if_splits\<close>)

lemma sleep_returns:
  assumes inv: "sched_inv L s" and "nothing_runnable L s" and "\<not> m_exit s"
    and e: "sleep_enter L t1 t2 t3 s = (Sl_return, s')" and np: "\<not> polls L t1 t2 t3 s"
  shows "passed_by L Ph_sleep s"
proof -
  obtain s1 where sp: "should_idle_spin L t1 t2 s = (False, s1)"
    using np by (cases "should_idle_spin L t1 t2 s") (simp add: polls_def)
  then obtain tp where s1: "s1 = s\<lparr>idle_start_time := tp\<rparr>" by (rule should_idle_spin_cases)
  have f: "has_tasks s1 = has_tasks s" "has_idle_workers L s1 = has_idle_workers L s"
    "has_waiting_workers L s1 = has_waiting_workers L s" "m_exit s1 = m_exit s"
    "waiters_info L s1 = waiters_info L s"
    by (simp_all add: s1 has_tasks_def has_idle_workers_def has_waiting_workers_def waiters_info_def)
  have "has_tasks s \<and> has_idle_workers L s \<or> wi_cond (waiters_info L s)"
    using e [unfolded sleep_enter_def sp Let_def prod.case f] np assms(3)
    by (auto simp: polls_def split: if_split_asm)
  then show ?thesis using assms(2) has_tasks_imp [of s] inv
    by (auto simp: passed_by_def late_cond_def nothing_runnable_def has_simps waiters_info_cond
        cond_set_def sched_inv_def)
qed

end

section \<open>The potential\<close>

text \<open>\<open>n\<close> is the number of schedulers. One that executes, or is blocked, does nothing by itself.\<close>

fun phase_pot :: "nat \<Rightarrow> phase \<Rightarrow> nat" where
  "phase_pot n Ph_exec = 0"
| "phase_pot n (Ph_notify j) = 3 * n + 17"
| "phase_pot n Ph_io = 3 * n + 14"
| "phase_pot n Ph_waiting = 3 * n + 13"
| "phase_pot n Ph_new = 3 * n + 12"
| "phase_pot n Ph_take = 3 * n + 11"
| "phase_pot n Ph_yielded = 3 * n + 10"
| "phase_pot n (Ph_steal js) = n + 9 + 2 * length js"
| "phase_pot n (Ph_grab j js) = n + 10 + 2 * length js"
| "phase_pot n Ph_choose = n + 8"
| "phase_pot n Ph_sleep = n + 7"
| "phase_pot n (Ph_wait tp woken) = (if woken then 3 * n + 16 else 0)"
| "phase_pot n (Ph_idle woken) = (if woken then 3 * n + 16 else 0)"
| "phase_pot n Ph_check = 3 * n + 15"
| "phase_pot n Ph_exited = 0"
| "phase_pot n Ph_assert = 0"

text \<open>One that has passed something by will do another round.\<close>

definition sched_pot :: "'q stl \<Rightarrow> nat \<Rightarrow> phase \<Rightarrow> 'q scheduler \<Rightarrow> nat" where
  "sched_pot L n p s = phase_pot n p + (if passed_by L p s then 2 * n + 9 else 0)"

fun main_pot :: "nat \<Rightarrow> main_phase \<Rightarrow> nat" where
  "main_pot n (Mp_async t) = 5 * n + 28"
| "main_pot n (Mp_notify j) = 3 * n + 18"
| "main_pot n Mp_wait = 1"
| "main_pot n Mp_count = n + 4"
| "main_pot n (Mp_scan ks) = length ks + 3"
| "main_pot n Mp_locked = 2"
| "main_pot n Mp_relock = 1"
| "main_pot n p = 0"

text \<open>What the main thread has been told: another round of \<open>all_idle\<close>, and the end of its wait.\<close>

definition check_pot :: "'q schedulers \<Rightarrow> nat" where
  "check_pot g = (if check_idle g then length (scheds g) + 4 else 0) + (if cv_signalled g then 2 else 0)"

definition potential :: "'q stl \<Rightarrow> 'q runtime \<Rightarrow> nat" where
  "potential L c = (let n = length (scheds (rt_g c))
     in (\<Sum>i<n. sched_pot L n (rt_ph c i) (scheds (rt_g c) ! i)) + main_pot n (rt_main c) +
       check_pot (rt_g c))"

text \<open>What one event from outside can add.\<close>

definition event_pot :: "'q runtime \<Rightarrow> nat" where
  "event_pot c = 5 * length (scheds (rt_g c)) + 26"

lemma sum_all_but:
  fixes f f' :: "nat \<Rightarrow> nat"
  assumes "i < n" and "\<And>k. k < n \<Longrightarrow> k \<noteq> i \<Longrightarrow> f' k \<le> f k"
  shows "(\<Sum>k<n. f' k) + f i \<le> (\<Sum>k<n. f k) + f' i"
proof -
  have "(\<Sum>k\<in>{..<n} - {i}. f' k) \<le> (\<Sum>k\<in>{..<n} - {i}. f k)" by (rule sum_mono) (use assms(2) in auto)
  moreover have "(\<Sum>k<n. f k) = f i + (\<Sum>k\<in>{..<n} - {i}. f k)"
    "(\<Sum>k<n. f' k) = f' i + (\<Sum>k\<in>{..<n} - {i}. f' k)"
    using assms(1) by (simp_all add: sum.remove)
  ultimately show ?thesis by simp
qed

text \<open>A step that changes one scheduler, and leaves no other worse off.\<close>

lemma potential_step:
  assumes "i < length (scheds (rt_g c))" and "length (scheds (rt_g c')) = length (scheds (rt_g c))"
    and "rt_main c' = rt_main c"
    and "\<And>k. k < length (scheds (rt_g c)) \<Longrightarrow> k \<noteq> i \<Longrightarrow>
      sched_pot L (length (scheds (rt_g c))) (rt_ph c' k) (scheds (rt_g c') ! k)
      \<le> sched_pot L (length (scheds (rt_g c))) (rt_ph c k) (scheds (rt_g c) ! k)"
  shows "potential L c' + sched_pot L (length (scheds (rt_g c))) (rt_ph c i) (scheds (rt_g c) ! i) +
      check_pot (rt_g c)
    \<le> potential L c + sched_pot L (length (scheds (rt_g c))) (rt_ph c' i) (scheds (rt_g c') ! i) +
      check_pot (rt_g c')"
  using sum_all_but [OF assms(1), of
      "\<lambda>k. sched_pot L (length (scheds (rt_g c))) (rt_ph c' k) (scheds (rt_g c') ! k)"
      "\<lambda>k. sched_pot L (length (scheds (rt_g c))) (rt_ph c k) (scheds (rt_g c) ! k)"] assms(2-4)
  by (simp add: potential_def Let_def)

section \<open>Every step is paid for\<close>

lemma signal_simps [simp]:
  "scheds (signal_idle g) = scheds g" "scheds (signal_running g) = scheds g"
  "check_idle (signal_running g) = check_idle g" "cv_signalled (signal_running g) = cv_signalled g"
  "cv_signalled (upd_sched i f g) = cv_signalled g"
  by (simp_all add: signal_idle_def signal_running_def Let_def upd_sched_def)

lemma check_pot_upd [simp]:
  "check_pot (upd_sched i f g) = check_pot g" "check_pot (signal_running g) = check_pot g"
  by (simp_all add: check_pot_def)

lemma check_pot_signal_idle: "check_pot (signal_idle g) \<le> length (scheds g) + 6"
  by (simp add: check_pot_def)

text \<open>\<open>sleep\<close> has returned at once, or the time of a wait has come.\<close>

definition comes_back :: "phase \<Rightarrow> phase \<Rightarrow> bool" where
  "comes_back p p' \<longleftrightarrow> p = Ph_sleep \<and> p' = Ph_check \<or> (\<exists>tp. p = Ph_wait tp False)"

lemma phase_step_pot:
  assumes "sched_step L env t1 t2 t3 i p g = Some (p', g')"
  shows "\<not> comes_back p p' \<Longrightarrow>
      phase_pot (length (scheds g)) p' + check_pot g' + 1 \<le> phase_pot (length (scheds g)) p + check_pot g"
    and "comes_back p p' \<Longrightarrow> p' = Ph_check \<and> check_pot g' = check_pot g \<and>
      (p = Ph_sleep \<longrightarrow> (\<exists>s'. sleep_enter L t1 t2 t3 (scheds g ! i) = (Sl_return, s')))"
  using assms check_pot_signal_idle [of "upd_sched i (\<lambda>_. snd (sleep_enter L t1 t2 t3 (scheds g ! i))) g"]
  by (induction L env t1 t2 t3 i p g rule: sched_step.induct)
    (auto simp: Let_def comes_back_def split: if_splits prod.splits option.splits sleep_result.splits bool.splits)

lemma passed_by_wake [simp]: "passed_by L (wake p) s = passed_by L p s"
  by (cases p) (simp_all add: passed_by_def late_cond_def)

lemma passed_by_notify [simp]: "passed_by L p (notify_sched s) = passed_by L p s"
  by (simp add: passed_by_def cond_set_def notify_sched_def touched_queue [OF touched_notify, of L s,
        unfolded notify_sched_def])

lemma wake_pot: "sched_pot L n (wake p) (notify_sched s) \<le> sched_pot L n p s + (3 * n + 16)"
  by (cases p) (simp_all add: sched_pot_def passed_by_def late_cond_def)

lemma potential_deliver:
  "potential L (deliver j c) \<le> potential L c + (3 * length (scheds (rt_g c)) + 16)"
proof (cases "j < length (scheds (rt_g c))")
  case True
  have "potential L (deliver j c) +
      sched_pot L (length (scheds (rt_g c))) (rt_ph c j) (scheds (rt_g c) ! j) + check_pot (rt_g c)
    \<le> potential L c + sched_pot L (length (scheds (rt_g c))) (rt_ph (deliver j c) j)
        (scheds (rt_g (deliver j c)) ! j) + check_pot (rt_g (deliver j c))"
    by (rule potential_step [OF True]) (simp_all add: deliver_def)
  then show ?thesis using wake_pot [of L "length (scheds (rt_g c))" "rt_ph c j" "scheds (rt_g c) ! j"] True
    by (simp add: deliver_def)
next
  case False
  then have "upd_sched j notify_sched (rt_g c) = rt_g c"
    by (simp add: upd_sched_def list_update_beyond)
  then show ?thesis using False by (simp add: potential_def deliver_def Let_def)
qed

lemma count_op_simps [simp]:
  "rt_g (count_op op x c) = rt_g c" "rt_ph (count_op op x c) = rt_ph c"
  "potential L (count_op op x c) = potential L c"
  by (simp_all add: count_op_def potential_def split: user_op.splits)

lemma set_phase_simps [simp]:
  "rt_g (set_phase i r c) = snd r" "rt_ph (set_phase i r c) = (rt_ph c)(i := fst r)"
  "rt_main (set_phase i r c) = rt_main c"
  by (simp_all add: set_phase_def)

text \<open>Queuing a task or setting a condition makes the scheduler do one more round at most.\<close>

lemma sched_pot_any: "sched_pot L n p s \<le> sched_pot L n p s' + (2 * n + 9)"
  by (simp add: sched_pot_def)

lemma user_step_pot:
  assumes "user_step L i w op (rt_g c) = Some r" and i: "i < length (scheds (rt_g c))"
  shows "potential L (set_phase i r c) \<le> potential L c + event_pot c"
    "length (scheds (snd r)) = length (scheds (rt_g c))"
proof -
  let ?n = "length (scheds (rt_g c))"
  show len: "length (scheds (snd r)) = ?n"
    using assms(1) by (cases op) (auto simp: resume_def split: if_splits)
  have ck: "check_pot (snd r) = check_pot (rt_g c)"
    using assms(1) by (cases op) (auto simp: resume_def split: if_splits)
  have own: "sched_pot L ?n (fst r) s \<le> 3 * ?n + 17" for s
    using assms(1) by (cases op)
      (auto simp: resume_def sched_pot_def passed_by_def late_cond_def split: if_splits)
  obtain j f where g': "snd r = upd_sched j f (rt_g c)"
    using assms(1) by (cases op) (auto simp: resume_def split: if_splits)
  let ?c1 = "c\<lparr>rt_ph := (rt_ph c)(i := fst r)\<rparr>"
  have "potential L ?c1 \<le> potential L c + (3 * ?n + 17)"
    using potential_step [OF i, of ?c1 L] own [of "scheds (rt_g c) ! i"] by simp
  moreover have "potential L (set_phase i r c) \<le> potential L ?c1 + (2 * ?n + 9)"
  proof (cases "j < ?n")
    case True
    then have "potential L (set_phase i r c) + sched_pot L ?n (rt_ph ?c1 j) (scheds (rt_g ?c1) ! j) +
        check_pot (rt_g ?c1) \<le> potential L ?c1 + sched_pot L ?n (rt_ph (set_phase i r c) j)
          (scheds (rt_g (set_phase i r c)) ! j) + check_pot (rt_g (set_phase i r c))"
      using potential_step [of j ?c1 "set_phase i r c" L] by (simp add: g')
    then show ?thesis
      using ck sched_pot_any [of L ?n "((rt_ph c)(i := fst r)) j" "scheds (snd r) ! j" "scheds (rt_g c) ! j"]
      by simp
  next
    case False
    then have "snd r = rt_g c" using g' by (simp add: upd_sched_def list_update_beyond)
    then show ?thesis by (simp add: set_phase_def)
  qed
  ultimately show "potential L (set_phase i r c) \<le> potential L c + event_pot c"
    by (simp add: event_pot_def)
qed

lemma main_step_pot:
  assumes "main_step j (rt_main c) c = Some c'" and "\<not> closing (rt_main c)"
  shows "length (scheds (rt_g c')) = length (scheds (rt_g c)) \<and> potential L c' + 1 \<le> potential L c"
proof (cases "rt_main c")
  case (Mp_notify k)
  then have c': "c' = (deliver k c)\<lparr>rt_main := Mp_wait\<rparr>" using assms(1) by simp
  have "potential L ((deliver k c)\<lparr>rt_main := Mp_wait\<rparr>) + (3 * length (scheds (rt_g c)) + 17)
      = potential L (deliver k c)"
    using Mp_notify by (simp add: potential_def deliver_def Let_def)
  then show ?thesis using potential_deliver [of L k c] by (simp add: c' deliver_def)
next
  case (Mp_async t)
  let ?n = "length (scheds (rt_g c))" and ?g = "upd_sched j (push_task t) (rt_g c)"
  have j: "j < ?n" and c': "c' = c\<lparr>rt_g := ?g, rt_main := Mp_notify j, rt_sub := add_mset t (rt_sub c)\<rparr>"
    using assms(1) Mp_async by (auto simp: can_push_def split: if_splits)
  have "potential L (c\<lparr>rt_g := ?g\<rparr>) \<le> potential L c + (2 * ?n + 9)"
    using potential_step [OF j, of "c\<lparr>rt_g := ?g\<rparr>" L]
      sched_pot_any [of L ?n "rt_ph c j" "scheds ?g ! j" "scheds (rt_g c) ! j"] by simp
  moreover have "potential L c' + (5 * ?n + 28) = potential L (c\<lparr>rt_g := ?g\<rparr>) + (3 * ?n + 18)"
    using Mp_async by (simp add: c' potential_def Let_def)
  ultimately show ?thesis by (simp add: c')
next
  case (Mp_scan ks)
  then show ?thesis using assms
    by (cases ks) (auto simp: potential_def Let_def split: if_splits)
qed (use assms in \<open>auto simp: potential_def check_pot_def main_block_def Let_def split: if_splits\<close>)

context stl_laws
begin

lemma sched_step_pot:
  assumes o: "open_inv L c" and i: "i < length (scheds (rt_g c))"
    and st: "sched_step L env t1 t2 t3 i (rt_ph c i) (rt_g c) = Some (p', g')"
  shows "length (scheds g') = length (scheds (rt_g c)) \<and>
    potential L (set_phase i (p', g') c) +
      (if outside_phase L t1 t2 t3 (scheds (rt_g c) ! i) (rt_ph c i) then 0 else 1)
    \<le> potential L c +
      (if outside_phase L t1 t2 t3 (scheds (rt_g c) ! i) (rt_ph c i) then event_pot c else 0)"
proof -
  let ?n = "length (scheds (rt_g c))" and ?s = "scheds (rt_g c) ! i" and ?p = "rt_ph c i"
  let ?out = "outside_phase L t1 t2 t3 ?s ?p"
  note d = scheds_okD [OF open_invD(1) [OF o] i]
  note m = sched_step_moves [OF d(1) i d(2,3,4) st, unfolded sched_moves_def]
  have len: "length (scheds g') = ?n" using m by blast
  have oth: "sched_pot L ?n (rt_ph c k) (scheds g' ! k) \<le> sched_pot L ?n (rt_ph c k) (scheds (rt_g c) ! k)"
    if k: "k < ?n" "k \<noteq> i" for k
  proof -
    have t: "touched (scheds (rt_g c) ! k) (scheds g' ! k)"
      and l: "length (m_tasks (sch_tasks (scheds g' ! k))) \<le> length (m_tasks (sch_tasks (scheds (rt_g c) ! k)))"
      and w: "\<And>v. w_cond (workers (scheds g' ! k) v) = w_cond (workers (scheds (rt_g c) ! k) v)"
      using m k by blast+
    have "passed_by L (rt_ph c k) (scheds g' ! k) \<Longrightarrow> passed_by L (rt_ph c k) (scheds (rt_g c) ! k)"
      by (rule passed_by_touched [OF t]) (use l w in auto)
    then show ?thesis by (simp add: sched_pot_def)
  qed
  have own: "sched_pot L ?n p' (scheds g' ! i) + check_pot g' + (if ?out then 0 else 1)
      \<le> sched_pot L ?n ?p ?s + check_pot (rt_g c) + (if ?out then event_pot c else 0)"
  proof (cases "comes_back ?p p'")
    case False
    from passed_by_own [OF d(6) i d(3,5) st] phase_step_pot(1) [OF st False] show ?thesis
      by (auto simp: sched_pot_def)
  next
    case True
    note b = phase_step_pot(2) [OF st True]
    then have *: "sched_pot L ?n p' (scheds g' ! i) = 3 * ?n + 15" "check_pot g' = check_pot (rt_g c)"
      by (simp_all add: sched_pot_def passed_by_def late_cond_def)
    show ?thesis
    proof (cases ?out)
      case False
      then have s: "?p = Ph_sleep" using True by (auto simp: comes_back_def)
      then have "passed_by L ?p ?s"
        using sleep_returns [OF d(6) _ d(4)] b False d(3) by auto
      then show ?thesis using * False s by (simp add: sched_pot_def)
    qed (use * in \<open>simp add: event_pot_def\<close>)
  qed
  have "potential L (set_phase i (p', g') c) + sched_pot L ?n ?p ?s + check_pot (rt_g c)
      \<le> potential L c + sched_pot L ?n p' (scheds g' ! i) + check_pot g'"
    using potential_step [OF i, of "set_phase i (p', g') c" L] oth len by simp
  then show ?thesis using own len by auto
qed

lemma rt_act_pot:
  assumes o: "open_inv L c" and st: "rt_act L a c = Some c'" and nc: "\<not> closing (rt_main c)"
  shows "length (scheds (rt_g c')) = length (scheds (rt_g c)) \<and>
    potential L c' + (if outside L a c then 0 else 1)
      \<le> potential L c + (if outside L a c then event_pot c else 0)"
proof (cases a)
  case (A_sched i env t1 t2 t3)
  then obtain p' g' where i: "i < length (scheds (rt_g c))" and c': "c' = set_phase i (p', g') c"
    and s: "sched_step L env t1 t2 t3 i (rt_ph c i) (rt_g c) = Some (p', g')"
    using st by (auto split: if_splits)
  show ?thesis using sched_step_pot [OF o i s] by (simp add: A_sched c')
next
  case (A_user i op)
  then obtain w r where i: "i < length (scheds (rt_g c))"
    and c': "c' = count_op op (workers (scheds (rt_g c) ! i) w) (set_phase i r c)"
    and s: "user_step L i w op (rt_g c) = Some r"
    using st by (auto split: if_splits option.splits)
  show ?thesis using user_step_pot [OF s i] by (simp add: c' A_user)
next
  case (A_spurious i)
  then obtain p' where i: "i < length (scheds (rt_g c))" and c': "c' = c\<lparr>rt_ph := (rt_ph c)(i := p')\<rparr>"
    and p: "sched_pot L (length (scheds (rt_g c))) p' (scheds (rt_g c) ! i) = 3 * length (scheds (rt_g c)) + 16"
    using st by (auto simp: sched_pot_def passed_by_def late_cond_def split: if_splits phase.splits bool.splits)
  show ?thesis using potential_step [OF i, of c' L] p
    by (simp add: c' A_spurious event_pot_def)
next
  case A_spurious_main
  then show ?thesis using st
    by (auto simp: potential_def check_pot_def event_pot_def Let_def split: if_splits)
next
  case (A_notify i)
  then obtain k where i: "i < length (scheds (rt_g c))" and k: "rt_ph c i = Ph_notify k"
    and c': "c' = deliver k (c\<lparr>rt_ph := (rt_ph c)(i := Ph_exec)\<rparr>)"
    using st by (auto split: if_splits phase.splits)
  let ?c1 = "c\<lparr>rt_ph := (rt_ph c)(i := Ph_exec)\<rparr>"
  have "potential L ?c1 + (3 * length (scheds (rt_g c)) + 17) \<le> potential L c"
    using potential_step [OF i, of ?c1 L] k by (simp add: sched_pot_def passed_by_def late_cond_def)
  then show ?thesis using potential_deliver [of L k ?c1] by (simp add: c' A_notify) (simp add: deliver_def)
next
  case (A_main j)
  then show ?thesis using main_step_pot [OF _ nc, of j c' L] st by simp
qed

end

lemma main_block_main [simp]: "rt_main (main_block c) = Mp_blocked"
  by (simp add: main_block_def)

lemma main_step_closing:
  "main_step j (rt_main c) c = Some c' \<Longrightarrow> closing (rt_main c) \<Longrightarrow> closing (rt_main c')"
  by (cases "(j, rt_main c, c)" rule: main_step.cases) (auto split: if_splits)

lemma closing_stays:
  assumes "rt_act L a c = Some c'" and "closing (rt_main c)" shows "closing (rt_main c')"
proof (cases "\<exists>j. a = A_main j")
  case True
  then show ?thesis using assms main_step_closing by auto
next
  case False
  then show ?thesis using rt_act_main [OF assms(1)] assms(2) by auto
qed

lemma closing_run: "rt_run L as c = Some c' \<Longrightarrow> closing (rt_main c) \<Longrightarrow> closing (rt_main c')"
  by (induction as arbitrary: c) (auto split: option.splits dest: closing_stays)

context stl_laws
begin

lemma count_steps_bound:
  assumes "open_inv L c" and "rt_run L as c = Some c'" and "\<not> closing (rt_main c')"
  shows "fst (count_steps L as c) + potential L c' \<le> potential L c + event_pot c * snd (count_steps L as c)"
  using assms
proof (induction as arbitrary: c)
  case (Cons a as)
  then obtain c1 where c1: "rt_act L a c = Some c1" "rt_run L as c1 = Some c'"
    by (auto split: option.splits)
  have nc1: "\<not> closing (rt_main c1)" using closing_run [OF c1(2)] Cons.prems(3) by blast
  then have nc: "\<not> closing (rt_main c)" using closing_stays [OF c1(1)] by blast
  obtain l x where lx: "count_steps L as c1 = (l, x)" by fastforce
  note pot = rt_act_pot [OF Cons.prems(1) c1(1) nc]
  have "event_pot c1 = event_pot c" using pot by (simp add: event_pot_def)
  then have "l + potential L c' \<le> potential L c1 + event_pot c * x"
    using Cons.IH [OF open_act [OF Cons.prems(1) c1(1) nc1] c1(2) Cons.prems(3)] lx by simp
  then show ?case using pot c1(1) lx by (auto split: if_splits)
qed simp

end

section \<open>The bound\<close>

lemma potential_start:
  assumes "init_ums L env t1 t2 t3 os_mask opt m = Some c"
  shows "potential L c \<le> 6 * length (scheds (rt_g c)) + 34" "\<not> closing (rt_main c)"
  using assms by (auto simp: init_ums_def potential_def check_pot_def sched_pot_def passed_by_def
      late_cond_def Let_def)

text \<open>
  C9: The schedulers do not keep themselves or each other busy. In every run of the program with
  \<open>n\<close> schedulers, up to the shutdown and however the threads interleave, the library makes at most
  \<open>5 * n + 26\<close> steps for each event from outside, and \<open>6 * n + 34\<close> steps besides. Events from outside
  are the operations of tasks, spurious wakeups, timed waits that are over, and the rounds in which a
  scheduler polls; it polls only while I/O of one of its workers is pending, for a bounded time after
  it got idle, and within the threshold before one of its sleeping workers is due. In particular
  \<open>sleep\<close> blocks otherwise: that it returns because a task is queued or a condition is set is part
  of the steps that are bounded. So when no more such events come, the program comes to rest.
\<close>

theorem Runtime_steps_bounded:
  assumes "stl_laws L" and "\<exists>cpu<64. bit os_mask cpu"
    and "init_ums L env t1 t2 t3 os_mask (Options sc wps) m = Some c0"
    and "rt_run L as c0 = Some c" and "\<not> closing (rt_main c)"
  shows "fst (count_steps L as c0) \<le> 6 * length (scheds (rt_g c0)) + 34 +
    (5 * length (scheds (rt_g c0)) + 26) * snd (count_steps L as c0)"
proof -
  have "program_state L c0" using assms(2,3) unfolding program_state_def by blast
  then have "open_inv L c0"
    using stl_laws.program_state_inv [OF assms(1)] potential_start(2) [OF assms(3)]
    by (auto simp: rt_inv_def)
  from stl_laws.count_steps_bound [OF assms(1) this assms(4,5)] potential_start(1) [OF assms(3)]
  show ?thesis by (simp add: event_pot_def)
qed

text \<open>The example starts a task in ten steps, with no event from outside: at most 46 are possible.\<close>

theorem Runtime_steps_bounded_witness:
  "length ex_begin = 10 \<and> fst (count_steps list_stl ex_begin ex_start)
     \<le> 46 + 36 * snd (count_steps list_stl ex_begin ex_start)"
proof -
  have "length (scheds (rt_g ex_start)) = 2" by (simp add: ex_start_def)
  moreover have "\<not> closing (rt_main ex_busy)" by (simp add: ex_busy_facts(3))
  moreover have "\<exists>cpu<64. bit (3::u64) cpu" by (rule exI [of _ 0]) simp
  ultimately show ?thesis
    using Runtime_steps_bounded [OF list_il.stl_laws_axioms _ ex_start_init ex_busy_facts(1)]
    by (simp add: ex_begin_def)
qed

end
