(* ===== verification/Os.thy ===== *)
theory Os
  imports Prelude
begin

unbundle bit_operations_syntax

text \<open>
  The parts of \<open>os_specific.cpp\<close> that deal with CPUs and files, on Linux and on Windows. The number
  of CPUs and the affinity set are parameters, as are the results of the calls that open and close
  files. The expression \<open>1U << i\<close> shifts a 32-bit value: for \<open>i\<close> of 32 and more it is undefined in C++,
  which is \<open>None\<close> here.
\<close>

section \<open>CPU masks\<close>

definition one_shl :: "nat \<Rightarrow> u32" where
  "one_shl i = push_bit i 1"

definition shl_1U :: "nat \<Rightarrow> u32 option" where
  "shl_1U i = (if i < 32 then Some (one_shl i) else None)"

fun avail_loop :: "(nat \<Rightarrow> bool) \<Rightarrow> nat list \<Rightarrow> u64 \<Rightarrow> u64 option" where
  "avail_loop isset [] cpu_mask = Some cpu_mask"
| "avail_loop isset (i # is) cpu_mask =
     (if isset i then (case shl_1U i of
          None \<Rightarrow> None
        | Some b \<Rightarrow> avail_loop isset is (cpu_mask OR ucast b))
      else avail_loop isset is cpu_mask)"

text \<open>\<open>None\<close> for the affinity is the failure of \<open>sched_getaffinity\<close>.\<close>

definition cpus_avail_mask :: "(nat \<Rightarrow> bool) option \<Rightarrow> nat \<Rightarrow> u64 option" where
  "cpus_avail_mask affinity cpus = (case affinity of
       None \<Rightarrow> Some (- 1)
     | Some isset \<Rightarrow> avail_loop isset [0 ..< cpus] 0)"

text \<open>The set of CPUs that is passed to \<open>pthread_setaffinity_np\<close>.\<close>

fun bind_loop :: "u64 \<Rightarrow> nat list \<Rightarrow> nat set \<Rightarrow> nat set option" where
  "bind_loop cpu_mask [] chosen = Some chosen"
| "bind_loop cpu_mask (i # is) chosen = (case shl_1U i of
       None \<Rightarrow> None
     | Some b \<Rightarrow> bind_loop cpu_mask is (if cpu_mask AND ucast b \<noteq> 0 then insert i chosen else chosen))"

definition bind_thread :: "u64 \<Rightarrow> nat \<Rightarrow> nat set option" where
  "bind_thread cpu_mask cpus = bind_loop cpu_mask [0 ..< cpus] {}"

text \<open>
  \<open>cpus_count\<close> converts the result of \<open>sysconf\<close> to 32 bits without looking at it: the failure -1
  becomes 4294967295 CPUs. On Windows the masks are passed through; the mask is 0 if the call fails.
\<close>

definition os_cpus_count :: "u64 \<Rightarrow> u32" where
  "os_cpus_count sysconf_ret = ucast sysconf_ret"

definition win_cpus_avail_mask :: "u64 option \<Rightarrow> u64" where
  "win_cpus_avail_mask proc_cpu_mask = (case proc_cpu_mask of None \<Rightarrow> 0 | Some m \<Rightarrow> m)"

definition win_bind_thread :: "u64 \<Rightarrow> nat set" where
  "win_bind_thread cpu_mask = {i. bit cpu_mask i}"

lemma bit_shifted: "i < 32 \<Longrightarrow> bit (ucast (one_shl i) :: u64) n \<longleftrightarrow> n = i"
  unfolding one_shl_def by (auto simp: bit_simps bit_1_iff)

lemma and_shifted:
  assumes "i < 32" shows "(m :: u64) AND ucast (one_shl i) \<noteq> 0 \<longleftrightarrow> bit m i"
proof -
  have "bit (m AND ucast (one_shl i)) n \<longleftrightarrow> n = i \<and> bit m i" for n
    using bit_shifted [OF assms] by (auto simp: bit_and_iff)
  then show ?thesis by (metis bit_0_eq bot_apply bot_bool_def bit_eqI)
qed

lemma avail_loop_ok:
  "\<forall>i\<in>set is. isset i \<longrightarrow> i < 32 \<Longrightarrow>
    \<exists>m. avail_loop isset is m0 = Some m \<and> (\<forall>n. bit m n \<longleftrightarrow> bit m0 n \<or> n \<in> set is \<and> isset n)"
proof (induction isset "is" m0 rule: avail_loop.induct)
  case (2 isset i "is" m0)
  show ?case
  proof (cases "isset i")
    case False
    then obtain m where "avail_loop isset is m0 = Some m"
      "\<forall>n. bit m n \<longleftrightarrow> bit m0 n \<or> n \<in> set is \<and> isset n"
      using 2(2) 2(3) by auto
    then show ?thesis using False by (intro exI [of _ m]) auto
  next
    case True
    then have i: "i < 32" "shl_1U i = Some (one_shl i)" using 2(3) by (simp_all add: shl_1U_def)
    then obtain m where m: "avail_loop isset is (m0 OR ucast (one_shl i)) = Some m"
      "\<forall>n. bit m n \<longleftrightarrow> bit (m0 OR ucast (one_shl i)) n \<or> n \<in> set is \<and> isset n"
      using 2(1) [OF True i(2)] 2(3) by auto
    have "bit m n \<longleftrightarrow> bit m0 n \<or> n \<in> set (i # is) \<and> isset n" for n
      using spec [OF m(2), of n] True bit_shifted [OF i(1), of n] by (auto simp: bit_or_iff)
    then show ?thesis using True i m(1) by simp
  qed
qed simp

lemma avail_loop_undefined:
  "avail_loop isset is m0 = None \<longleftrightarrow> (\<exists>i\<in>set is. isset i \<and> 32 \<le> i)"
  by (induction isset "is" m0 rule: avail_loop.induct) (auto simp: shl_1U_def)

lemma bind_loop_ok:
  "\<forall>i\<in>set is. i < 32 \<Longrightarrow> bind_loop m is S = Some (S \<union> {i \<in> set is. bit m i})"
  by (induction m "is" S rule: bind_loop.induct) (auto simp: shl_1U_def and_shifted insert_absorb)

lemma bind_loop_undefined: "bind_loop m is S = None \<longleftrightarrow> (\<exists>i\<in>set is. 32 \<le> i)"
  by (induction m "is" S rule: bind_loop.induct) (auto simp: shl_1U_def)

lemma os_cpus_count_failure: "unat (os_cpus_count (- 1)) = 2 ^ 32 - 1"
proof -
  have "os_cpus_count (- 1) = - 1" unfolding os_cpus_count_def by (rule bit_word_eqI) (simp add: bit_simps)
  then show ?thesis by (simp add: unsigned_minus_1_eq_mask mask_eq_exp_minus_1)
qed

lemma bind_thread_large:
  assumes "32 < cpus" shows "bind_thread bmask cpus = None"
proof -
  have "\<exists>i\<in>set [0 ..< cpus]. 32 \<le> i" using assms by (intro bexI [of _ 32]) auto
  then show ?thesis by (simp add: bind_thread_def bind_loop_undefined)
qed

text \<open>
  C38: On a machine with at most 32 CPUs, \<open>cpus_avail_mask\<close> is exactly the affinity set, and
  \<open>bind_thread\<close> binds to exactly the CPUs of its mask. On a larger one \<open>bind_thread\<close> always
  executes an undefined shift, and \<open>cpus_avail_mask\<close> does as soon as a CPU of number 32 or more is
  available, although up to 64 are supported. A failure of \<open>sysconf\<close> counts as 4294967295 CPUs.
\<close>

theorem cpu_masks:
  "(if cpus \<le> 32
    then (\<exists>m. cpus_avail_mask (Some isset) cpus = Some m \<and>
            (\<forall>n. bit m n \<longleftrightarrow> n < cpus \<and> isset n)) \<and>
         bind_thread bmask cpus = Some {i. i < cpus \<and> bit bmask i}
    else bind_thread bmask cpus = None \<and>
         (cpus_avail_mask (Some isset) cpus = None \<longleftrightarrow> (\<exists>i. 32 \<le> i \<and> i < cpus \<and> isset i))) \<and>
   bind_thread bmask (unat (os_cpus_count (- 1))) = None"
proof (intro conjI)
  show "bind_thread bmask (unat (os_cpus_count (- 1))) = None"
    by (rule bind_thread_large) (simp add: os_cpus_count_failure)
  have "\<exists>i\<in>set [0 ..< cpus]. 32 \<le> i" if "32 < cpus" using that by (intro bexI [of _ 32]) auto
  then show "if cpus \<le> 32
    then (\<exists>m. cpus_avail_mask (Some isset) cpus = Some m \<and>
            (\<forall>n. bit m n \<longleftrightarrow> n < cpus \<and> isset n)) \<and>
         bind_thread bmask cpus = Some {i. i < cpus \<and> bit bmask i}
    else bind_thread bmask cpus = None \<and>
         (cpus_avail_mask (Some isset) cpus = None \<longleftrightarrow> (\<exists>i. 32 \<le> i \<and> i < cpus \<and> isset i))"
    using avail_loop_ok [of "[0 ..< cpus]" isset 0] bind_loop_ok [of "[0 ..< cpus]" bmask "{}"]
      bind_thread_large [of cpus bmask]
    by (auto simp: cpus_avail_mask_def bind_thread_def avail_loop_undefined)
qed

section \<open>Files\<close>

text \<open>
  The memory cells that hold file descriptors: \<open>open_file\<close> allocates one, at an address that the
  allocator chooses, and \<open>close_file\<close> frees it. \<open>File_error\<close> is the exception.
\<close>

type_synonym fd_cells = "nat \<Rightarrow> i32 option"

datatype 'a file_result = File_ok 'a | File_error

definition open_file :: "nat \<Rightarrow> i32 \<Rightarrow> fd_cells \<Rightarrow> nat file_result \<times> fd_cells" where
  "open_file new_cell open_ret cells =
     (let cells1 = cells(new_cell \<mapsto> open_ret)
      in if open_ret = - 1 then (File_error, cells1(new_cell := None))
         else (File_ok new_cell, cells1))"

definition close_file :: "nat \<Rightarrow> i32 \<Rightarrow> fd_cells \<Rightarrow> unit file_result \<times> fd_cells" where
  "close_file handle close_ret cells =
     (if close_ret = - 1 then (File_error, cells) else (File_ok (), cells(handle := None)))"

text \<open>Without io_uring both functions only throw.\<close>

definition open_file_build :: "bool \<Rightarrow> nat \<Rightarrow> i32 \<Rightarrow> fd_cells \<Rightarrow> nat file_result \<times> fd_cells" where
  "open_file_build uring_enabled new_cell open_ret cells =
     (if \<not> uring_enabled then (File_error, cells) else open_file new_cell open_ret cells)"

definition close_file_build :: "bool \<Rightarrow> nat \<Rightarrow> i32 \<Rightarrow> fd_cells \<Rightarrow> unit file_result \<times> fd_cells" where
  "close_file_build uring_enabled handle close_ret cells =
     (if \<not> uring_enabled then (File_error, cells) else close_file handle close_ret cells)"

text \<open>
  The constructor of \<open>File_handle\<close> passes the path with fixed flags and the mode 0666 (438) to the system's
  \<open>open\<close>, here \<open>sys_open\<close>; the value of the flags is the system's.
\<close>

definition File_handle_ctor ::
  "bool \<Rightarrow> ('p \<Rightarrow> u64 \<Rightarrow> u64 \<Rightarrow> i32) \<Rightarrow> u64 \<Rightarrow> 'p \<Rightarrow> nat \<Rightarrow> fd_cells \<Rightarrow> nat file_result \<times> fd_cells" where
  "File_handle_ctor uring_enabled sys_open x_file_access file_path new_cell cells =
     open_file_build uring_enabled new_cell (sys_open file_path x_file_access 438) cells"

text \<open>The destructor of \<open>File_handle\<close> on Linux swallows the exception.\<close>

definition File_handle_dtor :: "bool \<Rightarrow> nat \<Rightarrow> i32 \<Rightarrow> fd_cells \<Rightarrow> fd_cells" where
  "File_handle_dtor uring_enabled handle close_ret cells =
     snd (close_file_build uring_enabled handle close_ret cells)"

text \<open>
  On Windows a handle is a pointer, \<open>INVALID_HANDLE_VALUE\<close> is -1, and \<open>CloseHandle\<close> returns 0 if it
  fails. The destructor does not catch the exception and is implicitly \<open>noexcept\<close>: \<open>None\<close> is the end
  of the process.
\<close>

definition win_open_file :: "u64 \<Rightarrow> u64 file_result" where
  "win_open_file create_ret = (if create_ret = - 1 then File_error else File_ok create_ret)"

definition win_close_file :: "i32 \<Rightarrow> unit file_result" where
  "win_close_file close_ret = (if close_ret = 0 then File_error else File_ok ())"

definition win_File_handle_dtor :: "i32 \<Rightarrow> unit option" where
  "win_File_handle_dtor close_ret =
     (case win_close_file close_ret of File_error \<Rightarrow> None | File_ok u \<Rightarrow> Some u)"

lemmas file_defs = open_file_def close_file_def open_file_build_def close_file_build_def
  File_handle_ctor_def File_handle_dtor_def win_open_file_def win_close_file_def
  win_File_handle_dtor_def

text \<open>
  C40: A \<open>File_handle\<close>. On Linux the constructor throws exactly when \<open>open\<close> fails or io_uring is not
  built, and no cell remains; otherwise the handle designates the descriptor, and the destructor
  gives the cell back exactly when \<open>close\<close> succeeds: after a failed \<open>close\<close> it is leaked. On Windows
  the handle is the system's, and a failed \<open>CloseHandle\<close> in the destructor ends the process.
\<close>

theorem File_handle_life:
  assumes "cells p = None"
  shows "(case File_handle_ctor uring_enabled sys_open flags path p cells of
      (File_error, cells') \<Rightarrow> (\<not> uring_enabled \<or> sys_open path flags 438 = - 1) \<and> cells' = cells
    | (File_ok h, cells') \<Rightarrow> uring_enabled \<and> sys_open path flags 438 \<noteq> - 1 \<and>
        cells' h = Some (sys_open path flags 438) \<and>
        (File_handle_dtor uring_enabled h cret cells' = cells \<longleftrightarrow> cret \<noteq> - 1)) \<and>
    (win_open_file wret = (if wret = - 1 then File_error else File_ok wret)) \<and>
    (win_File_handle_dtor cret = None \<longleftrightarrow> cret = 0)"
  using assms by (auto simp: file_defs fun_eq_iff Let_def split: if_splits)

theorem File_handle_life_witness:
  "File_handle_dtor True 7 0 (snd (File_handle_ctor True (\<lambda>_ _ _. 3) 0 () 7 (\<lambda>_. None))) = (\<lambda>_. None)"
  using File_handle_life [where cells = "\<lambda>_. None" and p = 7 and uring_enabled = True and
    sys_open = "\<lambda>_ _ _. 3" and flags = 0 and path = "()" and cret = 0]
  by (simp add: File_handle_ctor_def open_file_build_def open_file_def)

end
