(* ===== verification/Binding.thy ===== *)
theory Binding
  imports Os Scheduler_Props
begin

text \<open>
  From the affinity of the process to the CPUs on which the workers run: \<open>cpus_avail_mask\<close> turns
  the affinity into a mask, the constructor of \<open>Schedulers\<close> creates a scheduler for bits of that
  mask, the constructor of \<open>CPU\<close> turns the number of the bit into a mask again, and the entry point
  of each worker thread binds the thread to the CPUs of that mask.
\<close>

section \<open>Definitions\<close>

text \<open>\<open>Cpu_Mask{}.set(cpu_id)\<close>; \<open>None\<close> is the exception \<open>std::out_of_range\<close>.\<close>

definition CPU_mask :: "nat \<Rightarrow> u64 option" where
  "CPU_mask cpu = (if cpu < 64 then Some (push_bit cpu 1) else None)"

text \<open>The CPUs that the thread of a worker may use after \<open>entry_point\<close> has bound it.\<close>

definition entry_point_bind :: "nat \<Rightarrow> nat set \<Rightarrow> 'q scheduler \<Rightarrow> nat set option" where
  "entry_point_bind cpus current s =
     (if FS_thread_binding_allowed
      then Option.bind (CPU_mask (cpu_id s)) (\<lambda>m. bind_thread m cpus)
      else Some current)"

section \<open>The round trip\<close>

lemma mask_round_trip:
  assumes "cpus \<le> 32"
  shows "\<exists>m. cpus_avail_mask (Some isset) cpus = Some m \<and>
    (\<forall>n. bit m n \<longleftrightarrow> n < cpus \<and> isset n) \<and> bind_thread m cpus = Some {i. i < cpus \<and> isset i}"
proof -
  have l: "\<forall>i\<in>set [0 ..< cpus]. i < 32" using assms by auto
  then have "\<forall>i\<in>set [0 ..< cpus]. isset i \<longrightarrow> i < 32" by blast
  from avail_loop_ok [OF this, of 0] obtain m where m: "cpus_avail_mask (Some isset) cpus = Some m"
    "\<And>n. bit m n \<longleftrightarrow> n < cpus \<and> isset n" by (auto simp: cpus_avail_mask_def)
  have "bind_thread m cpus = Some {i. i < cpus \<and> isset i}"
    using bind_loop_ok [OF l, of m "{}"] m(2) by (auto simp: bind_thread_def)
  with m show ?thesis by blast
qed

lemma entry_point_own_cpu:
  assumes "cpus \<le> 32" and "cpu_id s < cpus"
  shows "entry_point_bind cpus current s = Some {cpu_id s}"
proof -
  have l: "\<forall>i\<in>set [0 ..< cpus]. i < 32" using assms by auto
  have "bit (push_bit (cpu_id s) 1 :: u64) i \<longleftrightarrow> i = cpu_id s" if "i < 32" for i
    using that assms by (auto simp: bit_simps bit_1_iff)
  then show ?thesis
    using bind_loop_ok [OF l, of "push_bit (cpu_id s) 1" "{}"] assms
    by (auto simp: entry_point_bind_def CPU_mask_def bind_thread_def FS_thread_binding_allowed_def)
qed

text \<open>
  When Windows does not tell the affinity, the mask is 0 and no scheduler is created; when Linux does
  not, all CPUs are assumed to be available.
\<close>

lemma no_affinity:
  "scheds (Schedulers_ctor L (win_cpus_avail_mask None) opt) = []"
  "cpus_avail_mask None cpus = Some m \<Longrightarrow> bit m i \<longleftrightarrow> i < 64"
  by (auto simp: Schedulers_ctor_def win_cpus_avail_mask_def select_cpus_spec cpus_avail_mask_def)

text \<open>
  C39: On a machine with up to 32 CPUs, turning the affinity of the process into a mask and binding
  to that mask gives the affinity back, and each worker of each scheduler that the constructor
  creates from the mask is bound to exactly one CPU, that of its scheduler, which belongs to the
  affinity of the process.
\<close>

theorem cpu_binding_roundtrip:
  assumes "cpus \<le> 32"
  shows "\<exists>m. cpus_avail_mask (Some isset) cpus = Some m \<and>
    bind_thread m cpus = Some {i. i < cpus \<and> isset i} \<and>
    (\<forall>s\<in>set (scheds (Schedulers_ctor L m (Options sc wps))).
       entry_point_bind cpus current s = Some {cpu_id s} \<and> cpu_id s < cpus \<and> isset (cpu_id s))"
proof -
  obtain m where m: "cpus_avail_mask (Some isset) cpus = Some m"
    "\<forall>n. bit m n \<longleftrightarrow> n < cpus \<and> isset n" "bind_thread m cpus = Some {i. i < cpus \<and> isset i}"
    using mask_round_trip [OF assms] by blast
  have "entry_point_bind cpus current s = Some {cpu_id s} \<and> cpu_id s < cpus \<and> isset (cpu_id s)"
    if "s \<in> set (scheds (Schedulers_ctor L m (Options sc wps)))" for s
  proof -
    have "cpu_id s \<in> set (map cpu_id (scheds (Schedulers_ctor L m (Options sc wps))))"
      using that by simp
    then have "bit m (cpu_id s)"
      unfolding ctor_cpu_ids by (auto dest: in_set_takeD)
    then show ?thesis using m(2) by (simp add: entry_point_own_cpu [OF assms])
  qed
  with m show ?thesis by blast
qed

theorem cpu_binding_roundtrip_witness:
  "\<exists>m. cpus_avail_mask (Some (\<lambda>i. i = 1 \<or> i = 3)) 4 = Some m \<and> bind_thread m 4 = Some {1, 3}"
proof -
  have "{i. i < 4 \<and> (i = 1 \<or> i = 3)} = {1, 3 :: nat}" by auto
  then show ?thesis
    using cpu_binding_roundtrip [of 4 "\<lambda>i. i = 1 \<or> i = 3" list_stl 2 1 "{}"] by auto
qed

end
