(* ===== verification/Condition_variable.thy ===== *)
theory Condition_variable
  imports Threads
begin

text \<open>
  \<open>Condition_variable\<close> of \<open>mutex.hpp\<close> and \<open>condition_variable.cpp\<close>, and the memory its users
  share: the \<open>Mutex\<close> that protects their data (one step to lock it, one to unlock it; that this is
  exclusive is shown in the theory Mutex), the lists of waiters, and the wait info of each worker.
  One step is one operation on one of these. A worker that waits is resumed by its scheduler only
  when \<open>check_wait_info\<close> holds (theory Scheduler), which is the step \<open>Cv_park\<close> here.

  Workers are threads, so a waiter is named by its thread. \<open>None\<close> is \<open>Time_point::max()\<close>, which
  the clock does not reach. A class may have several condition variables; they are numbered.
\<close>

record cv_mem =
  cv_owner :: "tid option"
  cv_waiters :: "nat \<Rightarrow> tid list"
  cv_cond :: "tid \<Rightarrow> bool"
  cv_time :: "tid \<Rightarrow> time_point option"
  cv_now :: time_point

definition cv_init :: cv_mem where
  "cv_init = \<lparr>cv_owner = None, cv_waiters = (\<lambda>_. []), cv_cond = (\<lambda>_. False),
     cv_time = (\<lambda>_. None), cv_now = 0\<rparr>"

section \<open>The protecting mutex\<close>

text \<open>
  The three outcomes of an attempt: the mutex is taken, the deadlock error, or it must be tried
  again. In \<open>try_lock\<close> the second and third are the result false.
\<close>

datatype cv_attempt = Cv_got | Cv_error | Cv_busy

definition cv_lock :: "tid \<Rightarrow> 'a cv_mem_scheme \<Rightarrow> cv_attempt \<times> 'a cv_mem_scheme" where
  "cv_lock t m = (if cv_owner m = None then (Cv_got, m\<lparr>cv_owner := Some t\<rparr>)
     else if cv_owner m = Some t then (Cv_error, m) else (Cv_busy, m))"

definition cv_unlock :: "'a cv_mem_scheme \<Rightarrow> 'a cv_mem_scheme" where
  "cv_unlock m = m\<lparr>cv_owner := None\<rparr>"

section \<open>Waiters\<close>

definition add_waiter :: "nat \<Rightarrow> tid \<Rightarrow> 'a cv_mem_scheme \<Rightarrow> 'a cv_mem_scheme" where
  "add_waiter g t m = m\<lparr>cv_waiters := (cv_waiters m)(g := cv_waiters m g @ [t])\<rparr>"

definition remove_waiter :: "nat \<Rightarrow> tid \<Rightarrow> 'a cv_mem_scheme \<Rightarrow> 'a cv_mem_scheme" where
  "remove_waiter g t m = m\<lparr>cv_waiters := (cv_waiters m)(g := remove1 t (cv_waiters m g))\<rparr>"

definition cv_set_wait_info ::
  "tid \<Rightarrow> bool \<Rightarrow> time_point option \<Rightarrow> 'a cv_mem_scheme \<Rightarrow> 'a cv_mem_scheme" where
  "cv_set_wait_info t b tp m = m\<lparr>cv_cond := (cv_cond m)(t := b), cv_time := (cv_time m)(t := tp)\<rparr>"

definition time_reached :: "time_point option \<Rightarrow> time_point \<Rightarrow> bool" where
  "time_reached tp n \<longleftrightarrow> (case tp of None \<Rightarrow> False | Some x \<Rightarrow> n \<ge> x)"

definition cv_check_wait_info :: "tid \<Rightarrow> 'a cv_mem_scheme \<Rightarrow> bool" where
  "cv_check_wait_info t m \<longleftrightarrow> cv_cond m t \<or> time_reached (cv_time m t) (cv_now m)"

text \<open>The call of the waiter's scheduler in \<open>notify_waiter\<close> is \<open>notify_sched\<close> in the theory Scheduler.\<close>

definition notify_waiter :: "tid \<Rightarrow> 'a cv_mem_scheme \<Rightarrow> 'a cv_mem_scheme" where
  "notify_waiter t m = m\<lparr>cv_cond := (cv_cond m)(t := True)\<rparr>"

definition notify_one :: "nat \<Rightarrow> 'a cv_mem_scheme \<Rightarrow> 'a cv_mem_scheme" where
  "notify_one g m = (case cv_waiters m g of [] \<Rightarrow> m | w # ws \<Rightarrow> notify_waiter w m)"

definition notify_all :: "nat \<Rightarrow> 'a cv_mem_scheme \<Rightarrow> 'a cv_mem_scheme" where
  "notify_all g m = fold notify_waiter (cv_waiters m g) m"

definition Condition_variable_dtor :: "nat \<Rightarrow> 'a cv_mem_scheme \<Rightarrow> 'a cv_mem_scheme" where
  "Condition_variable_dtor g m = notify_all g m"

section \<open>Waiting\<close>

text \<open>
  \<open>wait_internal\<close> and the functions it calls; the mutex is released and retaken by the
  constructor and the destructor of \<open>Scoped_unlock\<close>.
\<close>

datatype cv_pc = Cv_add | Cv_set | Cv_unlock | Cv_park | Cv_relock | Cv_remove

definition wait_internal ::
  "nat \<Rightarrow> time_point option \<Rightarrow> tid \<Rightarrow> cv_pc \<Rightarrow> 'a cv_mem_scheme \<Rightarrow> (cv_pc + unit) \<times> 'a cv_mem_scheme"
where
  "wait_internal g tp t pc m = (case pc of
       Cv_add \<Rightarrow> (Inl Cv_set, add_waiter g t m)
     | Cv_set \<Rightarrow> (Inl Cv_unlock, cv_set_wait_info t False tp m)
     | Cv_unlock \<Rightarrow> (Inl Cv_park, cv_unlock m)
     | Cv_park \<Rightarrow> (Inl (if cv_check_wait_info t m then Cv_relock else Cv_park), m)
     | Cv_relock \<Rightarrow> (case cv_lock t m of
           (Cv_got, m') \<Rightarrow> (Inl Cv_remove, m')
         | (_, m') \<Rightarrow> (Inl Cv_relock, m'))
     | Cv_remove \<Rightarrow> (Inr (), remove_waiter g t m))"

text \<open>The mutex is held in the first three pcs and the last; the thread is listed after the first.\<close>

definition cv_holds :: "cv_pc \<Rightarrow> bool" where
  "cv_holds pc \<longleftrightarrow> pc \<noteq> Cv_park \<and> pc \<noteq> Cv_relock"

definition cv_listed :: "cv_pc \<Rightarrow> bool" where
  "cv_listed pc \<longleftrightarrow> pc \<noteq> Cv_add"

text \<open>A waiter that goes on by itself: it has been notified, its time has come, or it is past the wait.\<close>

definition cv_awake :: "tid \<Rightarrow> cv_pc \<Rightarrow> 'a cv_mem_scheme \<Rightarrow> bool" where
  "cv_awake t pc m \<longleftrightarrow> pc = Cv_relock \<or> pc = Cv_remove \<or> pc = Cv_park \<and> cv_check_wait_info t m"

definition cv_advance :: "int \<Rightarrow> 'a cv_mem_scheme \<Rightarrow> 'a cv_mem_scheme" where
  "cv_advance d m = m\<lparr>cv_now := cv_now m + max 0 d\<rparr>"

lemmas cv_defs = cv_lock_def cv_unlock_def add_waiter_def remove_waiter_def cv_set_wait_info_def
  notify_waiter_def notify_one_def cv_advance_def wait_internal_def

section \<open>Lemmas\<close>

lemma fold_notify_waiter:
  "fold notify_waiter ws m = m\<lparr>cv_cond := (\<lambda>t. cv_cond m t \<or> t \<in> set ws)\<rparr>"
  by (induction ws arbitrary: m) (auto simp: notify_waiter_def fun_eq_iff intro!: arg_cong [where f = "\<lambda>c. m\<lparr>cv_cond := c\<rparr>" for m])

lemma notify_all_eq: "notify_all g m = m\<lparr>cv_cond := (\<lambda>t. cv_cond m t \<or> t \<in> set (cv_waiters m g))\<rparr>"
  by (simp add: notify_all_def fold_notify_waiter)

lemma notify_fields [simp]:
  "cv_owner (notify_one g m) = cv_owner m" "cv_waiters (notify_one g m) = cv_waiters m"
  "cv_time (notify_one g m) = cv_time m" "cv_now (notify_one g m) = cv_now m"
  "cv_mem.more (notify_one g m) = cv_mem.more m"
  "cv_owner (notify_all g m) = cv_owner m" "cv_waiters (notify_all g m) = cv_waiters m"
  "cv_time (notify_all g m) = cv_time m" "cv_now (notify_all g m) = cv_now m"
  "cv_mem.more (notify_all g m) = cv_mem.more m"
  by (simp_all add: notify_one_def notify_waiter_def notify_all_eq split: list.split)

lemma notify_one_cond:
  "cv_cond (notify_one g m) = (case cv_waiters m g of [] \<Rightarrow> cv_cond m | w # ws \<Rightarrow> (cv_cond m)(w := True))"
  by (simp add: notify_one_def notify_waiter_def split: list.split)

lemma wait_internal_more:
  "wait_internal g tp t pc m = (r, m') \<Longrightarrow> cv_mem.more m' = cv_mem.more m \<and> cv_now m' = cv_now m"
  by (cases pc) (auto simp: cv_defs split: if_splits cv_attempt.splits prod.splits)

section \<open>Properties\<close>

text \<open>
  \<open>notify_one\<close> sets the condition of the front waiter and of no other, and \<open>notify_all\<close> that of
  every waiter. A waiter stays in the list until it has retaken the mutex, so a second
  \<open>notify_one\<close> before that has no effect at all: it reaches the same waiter. What this means for
  two waiters is in the theory Semaphore.
\<close>

theorem notify_one_front_only:
  "(case cv_waiters m g of
      [] \<Rightarrow> notify_one g m = m
    | w # ws \<Rightarrow> {t. cv_cond (notify_one g m) t} = insert w {t. cv_cond m t}) \<and>
   {t. cv_cond (notify_all g m) t} = {t. cv_cond m t} \<union> set (cv_waiters m g) \<and>
   notify_one g (notify_one g m) = notify_one g m"
  by (auto simp: notify_one_def notify_waiter_def notify_all_eq split: list.split)

end
