(* ===== verification/Monitor.thy ===== *)
theory Monitor
  imports Condition_variable
begin

text \<open>
  Classes built from a \<open>Mutex\<close> and condition variables: the timed mutexes, the shared mutexes and
  the tasks. Each operation locks the mutex, executes code that reads and writes the data of the
  object, waits on a condition variable in a loop, leaves, and notifies after it has left. The
  code between two of these points runs under the mutex; a class gives it as the function \<open>body\<close>
  on its phases. This theory executes such operations step by step and proves what they share:
  the mutex is exclusive and never reports a deadlock, the lists of waiters are right, and two
  principles for the absence of lost wake-ups follow in the theories Wakeup and Wakeup_All.
\<close>

section \<open>Execution\<close>

datatype notification = N_one nat | N_all nat

text \<open>
  Where the code goes from a phase: it waits on a condition variable until notified or until a
  time, and continues with a phase; it continues at once; or it leaves with a result and notifies.
\<close>

datatype ('b, 'r) outcome =
  O_wait nat "time_point option" 'b | O_goto 'b | O_leave 'r "notification list"

record 'd mon = cv_mem +
  mon_data :: 'd

text \<open>\<open>M_tick\<close> is not an operation: it lets the clock advance.\<close>

datatype ('b, 'r) mon_frame =
  M_lock 'b | M_try 'b | M_body 'b | M_wait nat "time_point option" cv_pc 'b
  | M_unlock 'r "notification list" | M_notify 'r "notification list" | M_tick int

datatype 'r mon_result = Mon_done 'r | Mon_deadlock | Mon_ticked

type_synonym ('b, 'r, 'd) body = "tid \<Rightarrow> time_point \<Rightarrow> 'b \<Rightarrow> 'd \<Rightarrow> ('b, 'r) outcome \<times> 'd"

definition mon_notify :: "notification \<Rightarrow> 'd mon \<Rightarrow> 'd mon" where
  "mon_notify n m = (case n of N_one g \<Rightarrow> notify_one g m | N_all g \<Rightarrow> notify_all g m)"

definition mon_init :: "'d \<Rightarrow> 'd mon" where
  "mon_init d = \<lparr>cv_owner = None, cv_waiters = (\<lambda>_. []), cv_cond = (\<lambda>_. False),
     cv_time = (\<lambda>_. None), cv_now = 0, mon_data = d\<rparr>"

text \<open>\<open>fail b\<close> is the result when the \<open>try_to_lock\<close> before phase \<open>b\<close> does not get the mutex.\<close>

definition mon_code :: "('b, 'r, 'd) body \<Rightarrow> ('b \<Rightarrow> 'r) \<Rightarrow> tid \<Rightarrow> ('b, 'r) mon_frame \<Rightarrow> 'd mon \<Rightarrow>
    (('b, 'r) mon_frame + 'r mon_result) \<times> 'd mon" where
  "mon_code body fail t f m = (case f of
       M_lock b \<Rightarrow> (case cv_lock t m of
           (Cv_got, m') \<Rightarrow> (Inl (M_body b), m')
         | (Cv_error, m') \<Rightarrow> (Inr Mon_deadlock, m')
         | (Cv_busy, m') \<Rightarrow> (Inl (M_lock b), m'))
     | M_try b \<Rightarrow> (case cv_lock t m of
           (Cv_got, m') \<Rightarrow> (Inl (M_body b), m')
         | (_, m') \<Rightarrow> (Inr (Mon_done (fail b)), m'))
     | M_body b \<Rightarrow> (case body t (cv_now m) b (mon_data m) of
           (O_wait g tp b', d) \<Rightarrow> (Inl (M_wait g tp Cv_add b'), m\<lparr>mon_data := d\<rparr>)
         | (O_goto b', d) \<Rightarrow> (Inl (M_body b'), m\<lparr>mon_data := d\<rparr>)
         | (O_leave r ns, d) \<Rightarrow> (Inl (M_unlock r ns), m\<lparr>mon_data := d\<rparr>))
     | M_wait g tp pc b \<Rightarrow> (case wait_internal g tp t pc m of
           (Inl pc', m') \<Rightarrow> (Inl (M_wait g tp pc' b), m')
         | (Inr _, m') \<Rightarrow> (Inl (M_body b), m'))
     | M_unlock r ns \<Rightarrow> (Inl (M_notify r ns), cv_unlock m)
     | M_notify r ns \<Rightarrow> (case ns of
           [] \<Rightarrow> (Inr (Mon_done r), m)
         | n # ns' \<Rightarrow> (Inl (M_notify r ns'), mon_notify n m))
     | M_tick d \<Rightarrow> (Inr Mon_ticked, cv_advance d m))"

text \<open>
  The waits with a predicate. \<open>wait_pred\<close> is one round of the loop \<open>while (!pred()) wait(lock)\<close> and
  goes on with \<open>k\<close>. \<open>wait_until_pred\<close> is one round of its timed variant, up to the wait, and
  \<open>wait_until_woken\<close> what follows the wait: the clock decides between \<open>timeout\<close> and another
  round. \<open>k\<close> gets the result of the whole wait.
\<close>

definition wait_pred ::
  "bool \<Rightarrow> nat \<Rightarrow> 'b \<Rightarrow> 'd \<Rightarrow> ('b, 'r) outcome \<times> 'd \<Rightarrow> ('b, 'r) outcome \<times> 'd" where
  "wait_pred pred g b d k = (if \<not> pred then (O_wait g None b, d) else k)"

definition wait_until_pred ::
  "time_point \<Rightarrow> time_point \<Rightarrow> bool \<Rightarrow> nat \<Rightarrow> 'b \<Rightarrow> 'd \<Rightarrow> (bool \<Rightarrow> ('b, 'r) outcome \<times> 'd) \<Rightarrow>
   ('b, 'r) outcome \<times> 'd" where
  "wait_until_pred now abs_time pred g b d k =
     (if \<not> pred then (if now \<ge> abs_time then k pred else (O_wait g (Some abs_time) b, d))
      else k True)"

definition wait_until_woken ::
  "time_point \<Rightarrow> time_point \<Rightarrow> bool \<Rightarrow> 'b \<Rightarrow> 'd \<Rightarrow> (bool \<Rightarrow> ('b, 'r) outcome \<times> 'd) \<Rightarrow>
   ('b, 'r) outcome \<times> 'd" where
  "wait_until_woken now abs_time pred again d k =
     (if now \<ge> abs_time then k pred else (O_goto again, d))"

text \<open>The relative variant reads the clock once more, for its deadline.\<close>

definition wait_for_pred ::
  "time_point \<Rightarrow> int \<Rightarrow> time_point \<Rightarrow> bool \<Rightarrow> nat \<Rightarrow> 'b \<Rightarrow> 'd \<Rightarrow> (bool \<Rightarrow> ('b, 'r) outcome \<times> 'd) \<Rightarrow>
   ('b, 'r) outcome \<times> 'd" where
  "wait_for_pred start rel_time now pred g b d k =
     wait_until_pred now (start + rel_time) pred g b d k"

lemmas wait_defs = wait_pred_def wait_until_pred_def wait_until_woken_def

definition mon_start :: "(tid \<Rightarrow> 'h) \<Rightarrow> 'd \<Rightarrow> ('d mon, 'h, ('b, 'r) mon_frame, 'r mon_result) conf" where
  "mon_start h d = \<lparr>shared = mon_init d,
     thread_of = (\<lambda>t. \<lparr>th_held = h t, th_call = None, th_last = None\<rparr>)\<rparr>"

section \<open>What a thread holds and where it is listed\<close>

fun mon_cs :: "('b, 'r) mon_frame option \<Rightarrow> bool" where
  "mon_cs (Some (M_body b)) \<longleftrightarrow> True"
| "mon_cs (Some (M_wait g tp pc b)) \<longleftrightarrow> cv_holds pc"
| "mon_cs (Some (M_unlock r ns)) \<longleftrightarrow> True"
| "mon_cs q \<longleftrightarrow> False"

fun mon_listed :: "nat \<Rightarrow> ('b, 'r) mon_frame option \<Rightarrow> bool" where
  "mon_listed g (Some (M_wait g' tp pc b)) \<longleftrightarrow> g' = g \<and> cv_listed pc"
| "mon_listed g q \<longleftrightarrow> False"

definition mon_view :: "'d mon \<Rightarrow> tid \<Rightarrow> ('b, 'r) mon_frame option \<Rightarrow> bool" where
  "mon_view m t q \<longleftrightarrow> (mon_cs q \<longleftrightarrow> cv_owner m = Some t) \<and>
     (\<forall>g. t \<in> set (cv_waiters m g) \<longleftrightarrow> mon_listed g q)"

lemma mon_view_listed: "mon_view m t q \<Longrightarrow> t \<in> set (cv_waiters m g) \<longleftrightarrow> mon_listed g q"
  unfolding mon_view_def by blast

definition mon_wf :: "'d mon \<Rightarrow> bool" where
  "mon_wf m \<longleftrightarrow> (\<forall>g. distinct (cv_waiters m g))"

text \<open>What an access of thread \<open>t\<close> leaves to the others.\<close>

definition mon_others :: "tid \<Rightarrow> 'd mon \<Rightarrow> 'd mon \<Rightarrow> bool" where
  "mon_others t m m' \<longleftrightarrow> (\<forall>u. u \<noteq> t \<longrightarrow> (cv_owner m' = Some u \<longleftrightarrow> cv_owner m = Some u) \<and>
     (\<forall>g. u \<in> set (cv_waiters m' g) \<longleftrightarrow> u \<in> set (cv_waiters m g)))"

lemma mon_others_view: "mon_others t m m' \<Longrightarrow> u \<noteq> t \<Longrightarrow> mon_view m u q \<Longrightarrow> mon_view m' u q"
  by (simp add: mon_others_def mon_view_def)

lemma mon_notify_fields [simp]:
  "cv_owner (mon_notify n m) = cv_owner m" "cv_waiters (mon_notify n m) = cv_waiters m"
  "cv_now (mon_notify n m) = cv_now m" "mon_data (mon_notify n m) = mon_data m"
  by (simp_all add: mon_notify_def notify_one_def notify_all_eq notify_waiter_def
      split: notification.split list.split)

lemma wait_internal_step:
  fixes b :: 'b
  assumes "mon_wf m" and "mon_view m t (Some (M_wait g tp pc b :: ('b, 'r) mon_frame))"
    and "wait_internal g tp t pc m = (x, m')"
  shows "mon_wf m' \<and> mon_others t m m' \<and> mon_data m' = mon_data m \<and>
    mon_view m' t (Some (case x of
      Inl pc' \<Rightarrow> M_wait g tp pc' b | Inr _ \<Rightarrow> (M_body b :: ('b, 'r) mon_frame)))"
  using assms
  by (cases pc) (auto simp: cv_defs mon_wf_def mon_view_def mon_others_def cv_holds_def
      cv_listed_def split: if_splits)

lemma mon_code_step:
  assumes "mon_wf m" and "mon_view m t (Some f)" and "mon_code body fail t f m = (x, m')"
  shows "mon_wf m' \<and> mon_others t m m' \<and>
    mon_view m' t (case x of Inl f' \<Rightarrow> Some f' | Inr _ \<Rightarrow> None) \<and> x \<noteq> Inr Mon_deadlock \<and>
    (\<not> (\<exists>b. f = M_body b) \<longrightarrow> mon_data m' = mon_data m)"
proof (cases f)
  case (M_wait g tp pc b)
  obtain y where w: "wait_internal g tp t pc m = (y, m')" "x = Inl (case y of
      Inl pc' \<Rightarrow> M_wait g tp pc' b | Inr _ \<Rightarrow> M_body b)"
    using assms(3) M_wait by (auto simp: mon_code_def split: prod.splits sum.splits)
  from wait_internal_step [OF assms(1) assms(2) [unfolded M_wait] w(1)] show ?thesis
    using M_wait w(2) by simp
next
  case (M_body b)
  then show ?thesis using assms
    by (auto simp: mon_code_def mon_wf_def mon_view_def mon_others_def cv_holds_def cv_listed_def
        split: prod.splits outcome.splits)
next
  case (M_notify r ns)
  then show ?thesis using assms
    by (auto simp: mon_code_def mon_wf_def mon_view_def mon_others_def split: list.splits)
qed (use assms in \<open>auto simp: mon_code_def cv_defs mon_wf_def mon_view_def mon_others_def
      split: if_splits\<close>)

section \<open>A class on top of it\<close>

text \<open>
  Where a thread is in an operation, as far as the data are concerned: before its \<open>try_to_lock\<close>,
  on the way to a phase, waiting before a phase, done with a result.
\<close>

datatype ('b, 'r) op_stage = St_out | St_try 'b | St_to 'b | St_wait 'b | St_done 'r

fun stage :: "('b, 'r) mon_frame option \<Rightarrow> ('b, 'r) op_stage" where
  "stage None = St_out"
| "stage (Some (M_lock b)) = St_to b"
| "stage (Some (M_try b)) = St_try b"
| "stage (Some (M_body b)) = St_to b"
| "stage (Some (M_wait g tp pc b)) = St_wait b"
| "stage (Some (M_unlock r ns)) = St_done r"
| "stage (Some (M_notify r ns)) = St_done r"
| "stage (Some (M_tick d)) = St_out"

fun stage_after :: "('b, 'r) outcome \<Rightarrow> ('b, 'r) op_stage" where
  "stage_after (O_wait g tp b) = St_wait b"
| "stage_after (O_goto b) = St_to b"
| "stage_after (O_leave r ns) = St_done r"

text \<open>
  What a class promises: its calls begin outside, each body keeps the invariant \<open>dinv\<close> of the data
  and the view \<open>dok\<close> of every other thread, and the client state that a result leads to fits.
\<close>

locale monitor =
  fixes calls :: "'h \<Rightarrow> ('b, 'r) mon_frame \<Rightarrow> 'h \<Rightarrow> bool"
    and body :: "('b, 'r, 'd) body"
    and fail :: "'b \<Rightarrow> 'r"
    and ret :: "'r mon_result \<Rightarrow> 'h \<Rightarrow> 'h"
    and dinv :: "'w \<Rightarrow> 'd \<Rightarrow> bool"
    and dok :: "'w \<Rightarrow> tid \<Rightarrow> 'h \<Rightarrow> ('b, 'r) op_stage \<Rightarrow> bool"
  assumes call_frame: "calls h f h' \<Longrightarrow> (\<exists>b. f = M_lock b \<or> f = M_try b) \<or> (\<exists>d. f = M_tick d)"
    and call_ok: "dok w t h St_out \<Longrightarrow> calls h f h' \<Longrightarrow> dok w t h' (stage (Some f))"
    and tick_ok: "ret Mon_ticked h = h"
    and try_got: "dok w t h (St_try b) \<Longrightarrow> dok w t h (St_to b)"
    and wait_got: "dok w t h (St_wait b) \<Longrightarrow> dok w t h (St_to b)"
    and try_fail: "dok w t h (St_try b) \<Longrightarrow> dok w t (ret (Mon_done (fail b)) h) St_out"
    and done_ok: "dok w t h (St_done r) \<Longrightarrow> dok w t (ret (Mon_done r) h) St_out"
    and body_ok: "dinv w d \<Longrightarrow> dok w t h (St_to b) \<Longrightarrow> body t n b d = (out, d') \<Longrightarrow>
      \<exists>w'. dinv w' d' \<and> dok w' t h (stage_after out) \<and>
        (\<forall>u k s. u \<noteq> t \<longrightarrow> dok w u k s \<longrightarrow> dok w' u k s)"
begin

abbreviation "code \<equiv> mon_code body fail"

definition minv :: "'w \<Rightarrow> 'd mon \<Rightarrow> bool" where
  "minv w m \<longleftrightarrow> mon_wf m \<and> dinv w (mon_data m)"

definition ok :: "'w \<Rightarrow> 'd mon \<Rightarrow> tid \<Rightarrow> 'h \<Rightarrow> ('b, 'r) mon_frame option \<Rightarrow> bool" where
  "ok w m t h q \<longleftrightarrow> mon_view m t q \<and> dok w t h (stage q)"

lemma code_dok:
  assumes "dinv w (mon_data m)" and "dok w t h (stage (Some f))" and "code t f m = (x, m')"
    and "x \<noteq> Inr Mon_deadlock" and "\<not> (\<exists>b. f = M_body b) \<longrightarrow> mon_data m' = mon_data m"
  shows "\<exists>w'. dinv w' (mon_data m') \<and>
    (case x of Inl f' \<Rightarrow> dok w' t h (stage (Some f')) | Inr r \<Rightarrow> dok w' t (ret r h) (stage None)) \<and>
    (\<forall>u k s. u \<noteq> t \<longrightarrow> dok w u k s \<longrightarrow> dok w' u k s)"
proof (cases "\<exists>b. f = M_body b")
  case True
  then obtain b where b: "f = M_body b" by blast
  obtain out d' where o: "body t (cv_now m) b (mon_data m) = (out, d')" by fastforce
  from body_ok [OF assms(1) _ o, of h] obtain w' where "dinv w' d'" "dok w' t h (stage_after out)"
    "\<forall>u k s. u \<noteq> t \<longrightarrow> dok w u k s \<longrightarrow> dok w' u k s"
    using assms(2) b by auto
  moreover have "mon_data m' = d'" "\<exists>f'. x = Inl f' \<and> stage (Some f') = stage_after out"
    using assms(3) b o by (auto simp: mon_code_def split: outcome.splits)
  ultimately show ?thesis by (intro exI [of _ w']) auto
next
  case False
  then have "mon_data m' = mon_data m" using assms(5) by blast
  moreover have "case x of Inl f' \<Rightarrow> dok w t h (stage (Some f'))
      | Inr r \<Rightarrow> dok w t (ret r h) (stage None)"
    using False assms(2-4) try_got wait_got try_fail done_ok tick_ok
    by (cases f) (auto simp: mon_code_def split: list.splits prod.splits sum.splits cv_attempt.splits)
  ultimately show ?thesis using assms(1) by (intro exI [of _ w]) simp
qed

lemma code_preserved:
  assumes "minv w m" and "ok w m t h (Some f)" and "code t f m = (x, m')"
  shows "\<exists>w'. minv w' m' \<and>
        (case x of Inl f' \<Rightarrow> ok w' m' t h (Some f') | Inr r \<Rightarrow> ok w' m' t (ret r h) None) \<and>
        (\<forall>u k q. u \<noteq> t \<longrightarrow> ok w m u k q \<longrightarrow> ok w' m' u k q)"
proof -
  have s: "mon_wf m' \<and> mon_others t m m' \<and>
      mon_view m' t (case x of Inl f' \<Rightarrow> Some f' | Inr _ \<Rightarrow> None) \<and> x \<noteq> Inr Mon_deadlock \<and>
      (\<not> (\<exists>b. f = M_body b) \<longrightarrow> mon_data m' = mon_data m)"
    using assms by (intro mon_code_step) (simp_all add: minv_def ok_def)
  moreover from this obtain w' where "dinv w' (mon_data m')"
    "case x of Inl f' \<Rightarrow> dok w' t h (stage (Some f')) | Inr r \<Rightarrow> dok w' t (ret r h) (stage None)"
    "\<forall>u k s. u \<noteq> t \<longrightarrow> dok w u k s \<longrightarrow> dok w' u k s"
    using code_dok [of w m t h f x m'] assms by (auto simp: minv_def ok_def)
  ultimately show ?thesis
    by (intro exI [of _ w']) (auto simp: minv_def ok_def mon_others_view split: sum.splits)
qed

sublocale ghost_machine calls code ret minv ok
proof
  show "ok w m t h None \<Longrightarrow> calls h f h' \<Longrightarrow> ok w m t h' (Some f)" for w m t h f h'
    using call_frame [of h f h'] call_ok [of w t h f h']
    by (auto simp: ok_def mon_view_def)
qed (rule code_preserved)

abbreviation "sys \<equiv> any_step calls code ret"

lemma start_owned:
  assumes "dinv w d" and "\<And>t. dok w t (h t) St_out"
  shows "owned w (mon_start h d)"
  using assms by (simp add: owned_def minv_def ok_def mon_start_def mon_init_def mon_wf_def
      mon_view_def)

lemma one_in_section:
  assumes "owned w c" and "mon_cs (th_call (thread_of c t))" and "mon_cs (th_call (thread_of c u))"
  shows "t = u"
  using assms unfolding owned_def ok_def mon_view_def by (metis option.inject)

lemma no_deadlock_error:
  assumes "owned w c" and "th_call (thread_of c t) = Some f"
  shows "fst (code t f (shared c)) \<noteq> Inr Mon_deadlock"
proof -
  have "ok w (shared c) t (th_held (thread_of c t)) (Some f)" "minv w (shared c)"
    using assms unfolding owned_def by metis+
  then show ?thesis
    using mon_code_step [of "shared c" t f body fail] by (cases "code t f (shared c)") (auto simp: minv_def ok_def)
qed

end

end
