(* ===== verification/Wakeup.thy ===== *)
theory Wakeup
  imports Monitor
begin

text \<open>
  No lost wake-ups. A class that waits on a condition variable only while its object is busy, and
  that after each operation either leaves the object busy or notifies one waiter, never leaves a
  waiter behind: when all threads are at rest and one of them waits, the object is busy. The
  principle for classes that notify all waiters is in the theory Wakeup_All.
\<close>

section \<open>Frames that will serve the waiters\<close>

definition wakes :: "nat \<Rightarrow> notification list \<Rightarrow> bool" where
  "wakes g ns \<longleftrightarrow> N_one g \<in> set ns \<or> N_all g \<in> set ns"

text \<open>\<open>P\<close> are the phases of which the code serves the waiters, or is the served waiter itself.\<close>

fun rescues ::
  "nat \<Rightarrow> ('b \<Rightarrow> bool) \<Rightarrow> 'd mon \<Rightarrow> tid \<Rightarrow> ('b, 'r) mon_frame option \<Rightarrow> bool" where
  "rescues g P m t (Some (M_body b)) \<longleftrightarrow> P b"
| "rescues g P m t (Some (M_unlock r ns)) \<longleftrightarrow> wakes g ns"
| "rescues g P m t (Some (M_notify r ns)) \<longleftrightarrow> wakes g ns"
| "rescues g P m t (Some (M_wait g' tp pc b)) \<longleftrightarrow> g' = g \<and> P b \<and> cv_awake t pc m"
| "rescues g P m t q \<longleftrightarrow> False"

text \<open>A waiter at the gate that has not yet released the mutex; one that is none of the phases \<open>P\<close>.\<close>

fun settling :: "nat \<Rightarrow> ('b, 'r) mon_frame option \<Rightarrow> bool" where
  "settling g (Some (M_wait g' tp pc b)) \<longleftrightarrow> g' = g \<and> (pc = Cv_add \<or> pc = Cv_set \<or> pc = Cv_unlock)"
| "settling g q \<longleftrightarrow> False"

fun stray :: "nat \<Rightarrow> ('b \<Rightarrow> bool) \<Rightarrow> ('b, 'r) mon_frame option \<Rightarrow> bool" where
  "stray g P (Some (M_wait g' tp pc b)) \<longleftrightarrow> g' = g \<and> \<not> P b"
| "stray g P q \<longleftrightarrow> False"

text \<open>No thread can go on by itself: each is outside or waits for a notification or its time.\<close>

fun at_rest_frame :: "'d mon \<Rightarrow> tid \<Rightarrow> ('b, 'r) mon_frame option \<Rightarrow> bool" where
  "at_rest_frame m t None \<longleftrightarrow> True"
| "at_rest_frame m t (Some (M_wait g tp pc b)) \<longleftrightarrow> pc = Cv_park \<and> \<not> cv_check_wait_info t m"
| "at_rest_frame m t (Some f) \<longleftrightarrow> False"

definition at_rest :: "('d mon, 'h, ('b, 'r) mon_frame, 'r mon_result) conf \<Rightarrow> bool" where
  "at_rest c \<longleftrightarrow> (\<forall>t. at_rest_frame (shared c) t (th_call (thread_of c t)))"

definition waits_at :: "nat \<Rightarrow> ('d mon, 'h, ('b, 'r) mon_frame, 'r mon_result) conf \<Rightarrow> tid \<Rightarrow> bool" where
  "waits_at g c t \<longleftrightarrow> (\<exists>tp b. th_call (thread_of c t) = Some (M_wait g tp Cv_park b))"

lemma at_rest_not_rescues: "at_rest_frame m t q \<Longrightarrow> \<not> rescues g P m t q"
  by (cases "(m, t, q)" rule: at_rest_frame.cases) (auto simp: cv_awake_def)

section \<open>What others do to a waiter\<close>

definition keeps_awake :: "tid \<Rightarrow> 'd mon \<Rightarrow> 'd mon \<Rightarrow> bool" where
  "keeps_awake u m m' \<longleftrightarrow> (cv_cond m u \<longrightarrow> cv_cond m' u) \<and> cv_time m' u = cv_time m u \<and>
     cv_now m \<le> cv_now m'"

lemma keeps_awake_check: "keeps_awake u m m' \<Longrightarrow> cv_check_wait_info u m \<Longrightarrow> cv_check_wait_info u m'"
  by (auto simp: keeps_awake_def cv_check_wait_info_def time_reached_def split: option.splits)

lemma keeps_awake_rescues: "keeps_awake u m m' \<Longrightarrow> rescues g P m u q \<Longrightarrow> rescues g P m' u q"
  by (cases "(g, P, m, u, q)" rule: rescues.cases) (auto simp: cv_awake_def intro: keeps_awake_check)

lemma mon_notify_keeps: "keeps_awake u m (mon_notify n m)"
  by (auto simp: keeps_awake_def mon_notify_def notify_one_cond notify_all_eq
      split: notification.split list.split)

lemma mon_code_keeps:
  assumes "mon_code body fail t f m = (x, m')" and "u \<noteq> t"
  shows "keeps_awake u m m'"
proof (cases f)
  case (M_notify r ns)
  then show ?thesis using assms mon_notify_keeps
    by (cases ns) (auto simp: mon_code_def keeps_awake_def)
next
  case (M_wait g tp pc b)
  then show ?thesis using assms
    by (cases pc) (auto simp: mon_code_def keeps_awake_def cv_defs split: if_splits)
next
  case (M_body b)
  then show ?thesis using assms
    by (auto simp: mon_code_def keeps_awake_def split: prod.splits outcome.splits)
qed (use assms in \<open>auto simp: mon_code_def keeps_awake_def cv_defs split: if_splits\<close>)

text \<open>A notification wakes the front waiter, if that has settled.\<close>

lemma notified_rescues:
  assumes "cv_waiters m g = w # ws" and "wakes g [n]" and "mon_listed g q" and "\<not> settling g q"
    and "\<not> stray g P q"
  shows "rescues g P (mon_notify n m) w q"
proof -
  obtain tp pc b where q: "q = Some (M_wait g tp pc b)"
    using assms(3) by (cases "(g, q)" rule: mon_listed.cases) auto
  have "cv_cond (mon_notify n m) w"
    using assms(1,2)
    by (auto simp: wakes_def mon_notify_def notify_one_cond notify_all_eq)
  then show ?thesis using q assms(3-5)
    by (cases pc) (auto simp: cv_awake_def cv_check_wait_info_def cv_listed_def)
qed

section \<open>One at a time\<close>

locale wake_one = monitor calls body fail ret dinv dok
  for calls :: "'h \<Rightarrow> ('b, 'r) mon_frame \<Rightarrow> 'h \<Rightarrow> bool"
    and body :: "('b, 'r, 'd) body"
    and fail :: "'b \<Rightarrow> 'r"
    and ret :: "'r mon_result \<Rightarrow> 'h \<Rightarrow> 'h"
    and dinv :: "'w \<Rightarrow> 'd \<Rightarrow> bool"
    and dok :: "'w \<Rightarrow> tid \<Rightarrow> 'h \<Rightarrow> ('b, 'r) op_stage \<Rightarrow> bool" +
  fixes gate :: nat
    and busy :: "'d \<Rightarrow> bool"
    and P :: "'b \<Rightarrow> bool"
  assumes wait_busy: "dinv w d \<Longrightarrow> dok w t h (St_to b) \<Longrightarrow>
      body t n b d = (O_wait g tp b', d') \<Longrightarrow>
      if g = gate then P b' \<and> busy d' else busy d' \<or> \<not> P b \<and> \<not> busy d"
    and goto_busy: "dinv w d \<Longrightarrow> dok w t h (St_to b) \<Longrightarrow>
      body t n b d = (O_goto b', d') \<Longrightarrow> busy d' \<or> P b' \<or> \<not> P b \<and> \<not> busy d"
    and leave_wakes: "dinv w d \<Longrightarrow> dok w t h (St_to b) \<Longrightarrow>
      body t n b d = (O_leave r ns, d') \<Longrightarrow> busy d' \<or> wakes gate ns \<or> \<not> P b \<and> \<not> busy d \<or>
      (\<forall>u k b'. u \<noteq> t \<longrightarrow> P b' \<longrightarrow> \<not> dok w u k (St_wait b'))"
begin

definition served :: "('d mon, 'h, ('b, 'r) mon_frame, 'r mon_result) conf \<Rightarrow> bool" where
  "served c \<longleftrightarrow> (\<exists>w. owned w c) \<and>
     (\<forall>t. \<not> stray gate P (th_call (thread_of c t))) \<and>
     (\<forall>t. settling gate (th_call (thread_of c t)) \<longrightarrow> busy (mon_data (shared c))) \<and>
     (busy (mon_data (shared c)) \<or> cv_waiters (shared c) gate = [] \<or>
       (\<exists>t. rescues gate P (shared c) t (th_call (thread_of c t))))"

lemma served_views:
  assumes "served c"
  shows "mon_wf (shared c)" and "mon_view (shared c) t (th_call (thread_of c t))"
  using assms by (auto simp: served_def owned_def minv_def ok_def)

text \<open>What one access of a thread does to its own share in the invariant.\<close>

lemma code_self:
  assumes "code t f m = (x, m')" and "minv w m" and "ok w m t h (Some f)"
    and "settling gate (Some f) \<longrightarrow> busy (mon_data m)" and "\<not> stray gate P (Some f)"
    and "q = (case x of Inl f' \<Rightarrow> Some f' | Inr _ \<Rightarrow> None)"
  shows "(settling gate q \<longrightarrow> busy (mon_data m')) \<and> \<not> stray gate P q \<and>
    (busy (mon_data m') \<or> rescues gate P m' t q \<or>
      \<not> busy (mon_data m) \<and> cv_waiters m' gate = cv_waiters m gate \<and> \<not> rescues gate P m t (Some f) \<or>
      \<not> busy (mon_data m) \<and> (\<exists>r n ns. f = M_notify r (n # ns) \<and> wakes gate [n] \<and>
        m' = mon_notify n m) \<or>
      cv_waiters m' gate = cv_waiters m gate \<and>
        (\<forall>u k b'. u \<noteq> t \<longrightarrow> P b' \<longrightarrow> \<not> dok w u k (St_wait b')) \<and> (\<exists>b. f = M_body b))"
proof (cases f)
  case (M_body b)
  obtain out d' where o: "body t (cv_now m) b (mon_data m) = (out, d')" by fastforce
  have dd: "dinv w (mon_data m)" "dok w t h (St_to b)"
    using assms(2,3) M_body by (simp_all add: minv_def ok_def)
  have m': "mon_data m' = d'" "cv_waiters m' gate = cv_waiters m gate"
    using assms(1) M_body o by (auto simp: mon_code_def split: outcome.splits)
  show ?thesis
  proof (cases out)
    case (O_wait g tp b')
    then have "q = Some (M_wait g tp Cv_add b')"
      using assms(1,6) M_body o by (auto simp: mon_code_def)
    then show ?thesis using wait_busy [OF dd o [unfolded O_wait]] m' M_body by (auto split: if_splits)
  next
    case (O_goto b')
    then have "q = Some (M_body b')" using assms(1,6) M_body o by (auto simp: mon_code_def)
    then show ?thesis using goto_busy [OF dd o [unfolded O_goto]] m' M_body by auto
  next
    case (O_leave r ns)
    then have "q = Some (M_unlock r ns)" using assms(1,6) M_body o by (auto simp: mon_code_def)
    then show ?thesis using leave_wakes [OF dd o [unfolded O_leave]] m' M_body by auto
  qed
next
  case (M_wait g tp pc b)
  then show ?thesis using assms
    by (cases pc) (auto simp: mon_code_def cv_defs cv_awake_def split: if_splits)
next
  case (M_notify r ns)
  then show ?thesis using assms
    by (cases ns) (auto simp: mon_code_def wakes_def)
qed (use assms in \<open>auto simp: mon_code_def cv_defs split: if_splits\<close>)

text \<open>While a settling thread is inside the mutex, no other thread can make the object idle.\<close>

lemma settling_only_busy:
  assumes "served c" and f: "th_call (thread_of c t) = Some f" and x: "code t f (shared c) = (x, m')"
    and u: "u \<noteq> t" and s: "settling gate (th_call (thread_of c u))"
  shows "busy (mon_data m')"
proof (rule ccontr)
  assume idle: "\<not> busy (mon_data m')"
  note inv = assms(1) [unfolded served_def]
  note wf = served_views [OF assms(1)]
  have "\<not> (\<exists>b. f = M_body b) \<longrightarrow> mon_data m' = mon_data (shared c)"
    using mon_code_step [OF wf(1) _ x] wf(2) [of t] f by auto
  moreover have "busy (mon_data (shared c))" using inv s by blast
  ultimately have "mon_cs (th_call (thread_of c t))" using idle f by auto
  moreover have "mon_cs (th_call (thread_of c u))"
    using s by (cases "(gate, th_call (thread_of c u))" rule: settling.cases) (auto simp: cv_holds_def)
  ultimately show False using one_in_section inv u by blast
qed

text \<open>Someone rescues the waiters: the thread itself, an earlier one, or the one just notified.\<close>

lemma still_rescued:
  assumes sv: "served c" and f: "th_call (thread_of c t) = Some f" and x: "code t f (shared c) = (x, m')"
    and u: "rescues gate P (shared c) u (th_call (thread_of c u))"
    and t: "\<not> rescues gate P (shared c) t (Some f)" and c': "\<forall>u. u \<noteq> t \<longrightarrow> thread_of c' u = thread_of c u"
  shows "\<exists>u. rescues gate P m' u (th_call (thread_of c' u))"
proof -
  have "u \<noteq> t" using u t f by auto
  then have "rescues gate P m' u (th_call (thread_of c u))"
    using keeps_awake_rescues [OF mon_code_keeps [OF x] u] by simp
  then show ?thesis using \<open>u \<noteq> t\<close> c' by (intro exI [of _ u]) simp
qed

lemma notified_rescued:
  assumes sv: "served c" and f: "th_call (thread_of c t) = Some (M_notify r (n # ns))"
    and n: "wakes gate [n]" and m': "m' = mon_notify n (shared c)"
    and idle: "\<not> busy (mon_data m')" and list: "cv_waiters m' gate \<noteq> []"
    and c': "\<forall>u. u \<noteq> t \<longrightarrow> thread_of c' u = thread_of c u"
    and others: "\<And>u. u \<noteq> t \<Longrightarrow> \<not> settling gate (th_call (thread_of c u))"
  shows "\<exists>u. rescues gate P m' u (th_call (thread_of c' u))"
proof -
  note inv = sv [unfolded served_def]
  obtain v vs where v: "cv_waiters (shared c) gate = v # vs"
    using list m' by (cases "cv_waiters (shared c) gate") auto
  then have l: "mon_listed gate (th_call (thread_of c v))"
    using mon_view_listed [OF served_views(2) [OF sv], of v gate] by simp
  then have "v \<noteq> t" using f by auto
  then have "rescues gate P m' v (th_call (thread_of c v))"
    using notified_rescues [OF v n l, of P] others [of v] idle m' inv by simp
  then show ?thesis using \<open>v \<noteq> t\<close> c' by (intro exI [of _ v]) simp
qed

lemma no_waiter_alone:
  assumes sv: "served c" and w: "owned w c" and f: "th_call (thread_of c t) = Some (M_body b)"
    and alone: "\<forall>u k b'. u \<noteq> t \<longrightarrow> P b' \<longrightarrow> \<not> dok w u k (St_wait b')"
  shows "cv_waiters (shared c) gate = []"
proof -
  note inv = sv [unfolded served_def]
  have False if "v \<in> set (cv_waiters (shared c) gate)" for v
  proof -
    have l: "mon_listed gate (th_call (thread_of c v))"
      using mon_view_listed [OF served_views(2) [OF sv], of v gate] that by simp
    then obtain tp pc b' where q: "th_call (thread_of c v) = Some (M_wait gate tp pc b')"
      by (cases "(gate, th_call (thread_of c v))" rule: mon_listed.cases) auto
    have "P b'" using inv q by (metis stray.simps(1))
    moreover have "dok w v (th_held (thread_of c v)) (St_wait b')"
      using w q unfolding owned_def ok_def by (metis stage.simps(5))
    moreover have "v \<noteq> t" using q f by auto
    ultimately show False using alone by blast
  qed
  then show ?thesis by (cases "cv_waiters (shared c) gate") auto
qed

lemma served_code:
  assumes sv: "served c" and f: "th_call (thread_of c t) = Some f"
    and x: "code t f (shared c) = (x, m')"
    and c': "shared c' = m'" "\<forall>u. u \<noteq> t \<longrightarrow> thread_of c' u = thread_of c u"
      "th_call (thread_of c' t) = (case x of Inl f' \<Rightarrow> Some f' | Inr _ \<Rightarrow> None)"
    and "\<exists>w. owned w c'"
  shows "served c'"
proof -
  note inv = sv [unfolded served_def]
  have settle: "settling gate (Some f) \<longrightarrow> busy (mon_data (shared c))" using inv f by metis
  have strays: "\<not> stray gate P (Some f)" using inv f by metis
  obtain w where w: "owned w c" using inv by blast
  then have "minv w (shared c)" "ok w (shared c) t (th_held (thread_of c t)) (Some f)"
    using f unfolding owned_def by metis+
  note own = code_self [OF x this settle strays refl]
  have others: "\<not> settling gate (th_call (thread_of c u))"
    if "\<not> busy (mon_data m')" "u \<noteq> t" for u
    using settling_only_busy [OF sv f x that(2)] that(1) by blast
  have "\<exists>u. rescues gate P m' u (th_call (thread_of c' u))"
    if idle: "\<not> busy (mon_data m')" and list: "cv_waiters m' gate \<noteq> []"
  proof -
    consider (self) "rescues gate P m' t (th_call (thread_of c' t))"
      | (same) "\<not> busy (mon_data (shared c))" "cv_waiters m' gate = cv_waiters (shared c) gate"
        "\<not> rescues gate P (shared c) t (Some f)"
      | (notify) r n ns where "f = M_notify r (n # ns)" "wakes gate [n]" "m' = mon_notify n (shared c)"
      | (alone) b where "cv_waiters m' gate = cv_waiters (shared c) gate" "f = M_body b"
        "\<forall>u k b'. u \<noteq> t \<longrightarrow> P b' \<longrightarrow> \<not> dok w u k (St_wait b')"
      using own idle unfolding c'(3) by blast
    then show ?thesis
    proof cases
      case same
      then obtain u where u: "rescues gate P (shared c) u (th_call (thread_of c u))"
        using inv list by auto
      show ?thesis by (rule still_rescued [OF sv f x u same(3) c'(2)])
    next
      case notify
      show ?thesis
        by (rule notified_rescued [OF sv f [unfolded notify(1)] notify(2,3) idle list c'(2)
              others [OF idle]])
    next
      case alone
      then show ?thesis using no_waiter_alone [OF sv w f [unfolded alone(2)] alone(3)] list by simp
    qed blast
  qed
  moreover have "busy (mon_data m')" if "settling gate (th_call (thread_of c' u))" for u
  proof (cases "u = t")
    case True
    then show ?thesis using that own unfolding c'(3) [symmetric] by blast
  next
    case False
    then show ?thesis using that others [OF _ False] c'(2) by metis
  qed
  moreover have "\<not> stray gate P (th_call (thread_of c' u))" for u
    using own inv c'(2) unfolding c'(3) [symmetric] by (cases "u = t") metis+
  ultimately show ?thesis using assms(7) c'(1) unfolding served_def by blast
qed

sublocale served: transition_system sys served
proof
  fix c c'
  assume s: "served c" and "sys c c'"
  then obtain t where st: "thread_step calls code ret t c c'" by (auto simp: any_step_def)
  obtain w where "owned w c" using s by (auto simp: served_def)
  then have o: "\<exists>w. owned w c'" using owned_step st by blast
  from st show "served c'"
  proof cases
    case (call f h')
    have "rescues gate P (shared c) u (th_call (thread_of c u)) \<longrightarrow> u \<noteq> t" for u
      using call by auto
    moreover have "\<not> settling gate (Some f)" "\<not> stray gate P (Some f)" using call_frame [OF call(3)] by auto
    ultimately show ?thesis using s o call unfolding served_def
      by (auto simp del: fun_upd_apply) (metis fun_upd_apply thread.select_convs(2))+
  next
    case (access f f' m')
    then show ?thesis by (intro served_code [OF s access(2,3) _ _ _ o]) auto
  next
    case (return f r m')
    then show ?thesis by (intro served_code [OF s return(2,3) _ _ _ o]) auto
  qed
qed

lemma start_served: "owned w (mon_start h d) \<Longrightarrow> served (mon_start h d)"
  by (auto simp: served_def mon_start_def mon_init_def)

lemma no_lost_wakeup:
  assumes "sys\<^sup>*\<^sup>* (mon_start h d) c" and "owned w (mon_start h d)"
    and "at_rest c" and "waits_at gate c t"
  shows "busy (mon_data (shared c))"
proof -
  have s: "served c" using served.inv_steps [OF assms(1) start_served [OF assms(2)]] .
  have "mon_listed gate (th_call (thread_of c t))"
    using assms(4) by (auto simp: waits_at_def cv_listed_def)
  then have "cv_waiters (shared c) gate \<noteq> []"
    using mon_view_listed [OF served_views(2) [OF s], of t gate] by auto
  then show ?thesis
    using s assms(3) at_rest_not_rescues unfolding served_def at_rest_def by blast
qed

end

text \<open>For evaluating concrete executions.\<close>

lemmas mon_exec_defs = exec_step_def mon_start_def mon_init_def mon_code_def cv_defs mon_notify_def
  notify_all_eq cv_check_wait_info_def time_reached_def

end
