(* ===== verification/Spinlock.thy ===== *)
theory Spinlock
  imports Threads
begin

unbundle bit_operations_syntax

text \<open>
  \<open>spinlock.hpp\<close> and \<open>spinlock.cpp\<close>. Each routine is a function that executes one atomic access
  of the flag, or one round of the pause loop, of a frame that holds its local variables. The
  properties: mutual exclusion, the retry bound of \<open>lock_with_timeout\<close> with its exact number of
  attempts and pauses, and that \<open>lock\<close> gets a lock that stays free.
\<close>

section \<open>The routines\<close>

text \<open>Before the relaxed load, before the exchange, in the pause loop.\<close>

datatype spin_pc = Sp_load | Sp_exchange | Sp_pause

record spin_frame =
  sp_pc :: spin_pc
  sp_try :: u32
  sp_backoff :: u32
  sp_i :: u32

definition max_backoff :: u32 where "max_backoff = 64"

definition max_try :: u32 where "max_try = 256"

definition spin_enter :: spin_frame where
  "spin_enter = \<lparr>sp_pc = Sp_load, sp_try = 0, sp_backoff = 1, sp_i = 0\<rparr>"

text \<open>The loop condition: the exchange is not evaluated if the load sees the flag set.\<close>

datatype spin_test = T_next | T_busy | T_taken

definition spin_cond :: "spin_pc \<Rightarrow> u32 \<Rightarrow> spin_test \<times> u32" where
  "spin_cond pc flag = (if pc = Sp_load then (if flag \<noteq> 0 then T_busy else T_next, flag)
     else (if flag \<noteq> 0 then T_busy else T_taken, 1))"

definition spin_pause :: "spin_frame \<Rightarrow> spin_frame" where
  "spin_pause f = (if sp_i f < sp_backoff f then f\<lparr>sp_i := sp_i f + 1\<rparr>
     else f\<lparr>sp_pc := Sp_load, sp_backoff :=
       (if sp_backoff f < max_backoff then push_bit 1 (sp_backoff f) else max_backoff)\<rparr>)"

definition Spinlock_lock :: "spin_frame \<Rightarrow> u32 \<Rightarrow> (spin_frame + bool) \<times> u32" where
  "Spinlock_lock f flag =
     (if sp_pc f = Sp_pause then (Inl (spin_pause f), flag)
      else let (test, flag') = spin_cond (sp_pc f) flag
      in (case test of
            T_next \<Rightarrow> Inl (f\<lparr>sp_pc := Sp_exchange\<rparr>)
          | T_busy \<Rightarrow> Inl (f\<lparr>sp_pc := Sp_pause, sp_i := 0\<rparr>)
          | T_taken \<Rightarrow> Inr True, flag'))"

definition Spinlock_try_lock :: "spin_frame \<Rightarrow> u32 \<Rightarrow> (spin_frame + bool) \<times> u32" where
  "Spinlock_try_lock f flag =
     (let (test, flag') = spin_cond (sp_pc f) flag
      in (case test of
            T_next \<Rightarrow> Inl (f\<lparr>sp_pc := Sp_exchange\<rparr>)
          | T_busy \<Rightarrow> Inr False
          | T_taken \<Rightarrow> Inr True, flag'))"

definition Spinlock_lock_with_timeout :: "spin_frame \<Rightarrow> u32 \<Rightarrow> (spin_frame + bool) \<times> u32" where
  "Spinlock_lock_with_timeout f flag =
     (if sp_pc f = Sp_pause then (Inl (spin_pause f), flag)
      else let (test, flag') = spin_cond (sp_pc f) flag
      in (case test of
            T_next \<Rightarrow> Inl (f\<lparr>sp_pc := Sp_exchange\<rparr>)
          | T_busy \<Rightarrow>
              (if sp_try f + 1 = max_try then Inr False
               else Inl (f\<lparr>sp_try := sp_try f + 1, sp_pc := Sp_pause, sp_i := 0\<rparr>))
          | T_taken \<Rightarrow> Inr True, flag'))"

definition Spinlock_unlock :: "u32 \<Rightarrow> u32" where
  "Spinlock_unlock flag = 0"

lemmas spin_defs = Spinlock_lock_def Spinlock_try_lock_def Spinlock_lock_with_timeout_def
  spin_cond_def

interpretation lock: acquirer Spinlock_lock
  by unfold_locales (auto simp: spin_defs Let_def split: if_splits spin_test.splits)

interpretation try_lock: acquirer Spinlock_try_lock
  by unfold_locales (auto simp: spin_defs Let_def split: if_splits spin_test.splits)

interpretation timeout: acquirer Spinlock_lock_with_timeout
  by unfold_locales (auto simp: spin_defs Let_def split: if_splits spin_test.splits)

section \<open>Threads that share a spinlock\<close>

datatype spin_call =
  Sc_lock spin_frame | Sc_try spin_frame | Sc_timeout spin_frame | Sc_unlock

datatype spin_result = R_acquired bool | R_released

definition spin_result_of :: "('f \<Rightarrow> spin_call) \<Rightarrow> ('f + bool) \<times> u32 \<Rightarrow>
    (spin_call + spin_result) \<times> u32" where
  "spin_result_of con p = (map_sum con R_acquired (fst p), snd p)"

definition spin_code :: "tid \<Rightarrow> spin_call \<Rightarrow> u32 \<Rightarrow> (spin_call + spin_result) \<times> u32" where
  "spin_code t c flag = (case c of
       Sc_lock f \<Rightarrow> spin_result_of Sc_lock (Spinlock_lock f flag)
     | Sc_try f \<Rightarrow> spin_result_of Sc_try (Spinlock_try_lock f flag)
     | Sc_timeout f \<Rightarrow> spin_result_of Sc_timeout (Spinlock_lock_with_timeout f flag)
     | Sc_unlock \<Rightarrow> (Inr R_released, Spinlock_unlock flag))"

text \<open>
  A client may call any of the acquiring routines at any time, also while it holds the lock, and
  \<open>unlock\<close> only when it holds it.
\<close>

definition spin_calls :: "bool \<Rightarrow> spin_call \<Rightarrow> bool \<Rightarrow> bool" where
  "spin_calls h c h' \<longleftrightarrow>
     (if h then c = Sc_unlock \<and> \<not> h' else False) \<or>
     (c = Sc_lock spin_enter \<or> c = Sc_try spin_enter \<or> c = Sc_timeout spin_enter) \<and> h' = h"

definition spin_ret :: "spin_result \<Rightarrow> bool \<Rightarrow> bool" where
  "spin_ret r h = (case r of R_acquired b \<Rightarrow> h \<or> b | R_released \<Rightarrow> h)"

definition spin_start :: "(u32, bool, spin_call, spin_result) conf" where
  "spin_start = \<lparr>shared = 0,
     thread_of = (\<lambda>t. \<lparr>th_held = False, th_call = None, th_last = None\<rparr>)\<rparr>"

abbreviation spin_step where
  "spin_step \<equiv> any_step spin_calls spin_code spin_ret"

section \<open>Mutual exclusion\<close>

definition spin_ok :: "tid option \<Rightarrow> u32 \<Rightarrow> tid \<Rightarrow> bool \<Rightarrow> spin_call option \<Rightarrow> bool" where
  "spin_ok w flag t h q \<longleftrightarrow>
     (if q = Some Sc_unlock then w = Some t \<and> \<not> h else h \<longleftrightarrow> w = Some t)"

lemma spin_ok_acquire:
  assumes "acquirer st" and "flag_inv w flag" and "spin_ok w flag t h (Some (con g))"
    and "con g \<noteq> Sc_unlock" and "\<And>g. con g \<noteq> Sc_unlock"
    and "spin_result_of con (st g flag) = (r, flag')"
  shows "\<exists>w'. flag_inv w' flag' \<and> (case r of Inl f' \<Rightarrow> spin_ok w' flag' t h (Some f')
      | Inr x \<Rightarrow> spin_ok w' flag' t (spin_ret x h) None) \<and>
    (\<forall>u k q. u \<noteq> t \<longrightarrow> spin_ok w flag u k q \<longrightarrow> spin_ok w' flag' u k q)"
proof -
  obtain r0 where st: "st g flag = (r0, flag')" and r: "r = map_sum con R_acquired r0"
    using assms(6) by (cases "st g flag") (auto simp: spin_result_of_def)
  note own = acquirer.acquire_owner [OF assms(1,2) st, of t]
  show ?thesis
  proof (cases "r0 = Inr True")
    case True
    then show ?thesis using own r
      by (intro exI [of _ "Some t"]) (auto simp: spin_ok_def spin_ret_def split: if_splits)
  next
    case False
    then have "r0 = Inr False \<or> (\<exists>f'. r0 = Inl f')" by (cases r0) auto
    then show ?thesis using own r False assms(3-5)
      by (intro exI [of _ w]) (auto simp: spin_ok_def spin_ret_def)
  qed
qed

lemma spin_ok_change:
  assumes "flag_inv w flag" and "spin_ok w flag t h (Some f)" and "spin_code t f flag = (r, flag')"
  shows "\<exists>w'. flag_inv w' flag' \<and> (case r of Inl f' \<Rightarrow> spin_ok w' flag' t h (Some f')
      | Inr x \<Rightarrow> spin_ok w' flag' t (spin_ret x h) None) \<and>
    (\<forall>u k q. u \<noteq> t \<longrightarrow> spin_ok w flag u k q \<longrightarrow> spin_ok w' flag' u k q)"
proof (cases f)
  case Sc_unlock
  then show ?thesis using assms
    by (intro exI [of _ None]) (auto simp: spin_code_def spin_ok_def flag_inv_def spin_ret_def
        Spinlock_unlock_def split: if_splits)
next
  case (Sc_lock g)
  show ?thesis
    by (rule spin_ok_acquire [where con = Sc_lock and g = g, OF lock.acquirer_axioms assms(1)])
      (use assms Sc_lock in \<open>auto simp: spin_code_def\<close>)
next
  case (Sc_try g)
  show ?thesis
    by (rule spin_ok_acquire [where con = Sc_try and g = g, OF try_lock.acquirer_axioms assms(1)])
      (use assms Sc_try in \<open>auto simp: spin_code_def\<close>)
next
  case (Sc_timeout g)
  show ?thesis
    by (rule spin_ok_acquire [where con = Sc_timeout and g = g, OF timeout.acquirer_axioms assms(1)])
      (use assms Sc_timeout in \<open>auto simp: spin_code_def\<close>)
qed

interpretation spin: owner_lock spin_calls spin_code spin_ret flag_inv spin_ok "\<lambda>h. h"
proof
  show "spin_ok w m t h None \<Longrightarrow> spin_calls h f h' \<Longrightarrow> spin_ok w m t h' (Some f)" for w m t h f h'
    by (auto simp: spin_ok_def spin_calls_def split: if_splits)
  show "spin_ok w m t h q \<Longrightarrow> h \<Longrightarrow> w = Some t" for w m t h q
    by (simp add: spin_ok_def split: if_splits)
qed (rule spin_ok_change)

lemma spin_start_owned: "spin.owned None spin_start"
  by (simp add: spin.owned_def spin_start_def spin_ok_def flag_inv_def)

section \<open>Running one routine against any environment\<close>

text \<open>
  \<open>env n\<close> is the flag that the routine sees at its \<open>n\<close>-th own step; the other threads may have
  changed it arbitrarily in between.
\<close>

primrec spin_run ::
  "(spin_frame \<Rightarrow> u32 \<Rightarrow> (spin_frame + bool) \<times> u32) \<Rightarrow> (nat \<Rightarrow> u32) \<Rightarrow> nat \<Rightarrow> spin_frame + bool"
where
  "spin_run routine env 0 = Inl spin_enter"
| "spin_run routine env (Suc n) = (case spin_run routine env n of
     Inl f \<Rightarrow> fst (routine f (env n)) | Inr b \<Rightarrow> Inr b)"

text \<open>Step \<open>n\<close> is a failed attempt, an acquisition, a call of \<open>cpu_pause\<close>.\<close>

definition misses_at where
  "misses_at routine env n \<longleftrightarrow> (case spin_run routine env n of
     Inl f \<Rightarrow> sp_pc f \<noteq> Sp_pause \<and> env n \<noteq> 0 | Inr b \<Rightarrow> False)"

definition takes_at where
  "takes_at routine env n \<longleftrightarrow> (case spin_run routine env n of
     Inl f \<Rightarrow> sp_pc f = Sp_exchange \<and> env n = 0 | Inr b \<Rightarrow> False)"

definition pauses_at where
  "pauses_at routine env n \<longleftrightarrow> (case spin_run routine env n of
     Inl f \<Rightarrow> sp_pc f = Sp_pause \<and> sp_i f < sp_backoff f | Inr b \<Rightarrow> False)"

definition tally :: "(nat \<Rightarrow> bool) \<Rightarrow> nat \<Rightarrow> nat" where
  "tally P n = length (filter P [0 ..< n])"

lemma tally_simps [simp]: "tally P 0 = 0" "tally P (Suc n) = tally P n + (if P n then 1 else 0)"
  by (simp_all add: tally_def)

text \<open>The number of pauses that belong to \<open>k\<close> failed attempts: 1, 2, 4 and so on, at most 64 each.\<close>

definition backoff_of :: "nat \<Rightarrow> nat" where
  "backoff_of k = (if k < 6 then 2 ^ k else 64)"

definition pause_sum :: "nat \<Rightarrow> nat" where
  "pause_sum k = (\<Sum>j<k. backoff_of j)"

lemma backoff_of_bounds: "1 \<le> backoff_of k" "backoff_of k \<le> 64"
proof -
  have "(2::nat) ^ k \<le> 2 ^ 6" if "k < 6" using that by (intro power_increasing) auto
  then show "1 \<le> backoff_of k" "backoff_of k \<le> 64" by (auto simp: backoff_of_def)
qed

lemma backoff_of_Suc: "backoff_of (Suc k) = (if backoff_of k < 64 then 2 * backoff_of k else 64)"
proof -
  have "k < 5 \<or> k = 5 \<or> 6 \<le> k" by arith
  moreover have "(2::nat) ^ k \<le> 2 ^ 4" if "k < 5" using that by (intro power_increasing) auto
  ultimately show ?thesis by (auto simp: backoff_of_def)
qed

lemma unat_double_small: "unat b < 64 \<Longrightarrow> unat ((b :: u32) * 2) = 2 * unat b"
  by (simp add: unat_word_ariths)

lemma unat_lt_64: "(b :: u32) < max_backoff \<longleftrightarrow> unat b < 64"
  by (simp add: max_backoff_def word_less_nat_alt)

text \<open>
  The state of a running frame after \<open>m\<close> failed attempts and \<open>p\<close> pauses; in the pause loop the
  last attempt has already been counted.
\<close>

definition spin_track :: "nat \<Rightarrow> nat \<Rightarrow> spin_frame \<Rightarrow> bool" where
  "spin_track m p f \<longleftrightarrow> (case sp_pc f of
      Sp_pause \<Rightarrow> 0 < m \<and> unat (sp_backoff f) = backoff_of (m - 1) \<and>
        unat (sp_i f) \<le> unat (sp_backoff f) \<and> p = pause_sum (m - 1) + unat (sp_i f)
    | _ \<Rightarrow> unat (sp_backoff f) = backoff_of m \<and> p = pause_sum m)"

lemma spin_track_pause:
  assumes "spin_track m p f" and "sp_pc f = Sp_pause"
  shows "spin_track m (p + (if sp_i f < sp_backoff f then 1 else 0)) (spin_pause f)"
proof (cases "sp_i f < sp_backoff f")
  case True
  have "unat (sp_i f + 1) = unat (sp_i f) + 1"
    using True assms backoff_of_bounds(2) [of "m - 1"]
    by (simp add: unat_word_ariths word_less_nat_alt spin_track_def)
  then show ?thesis using assms True
    by (auto simp: spin_track_def spin_pause_def word_less_nat_alt)
next
  case False
  obtain k where m: "m = Suc k" and b: "unat (sp_backoff f) = backoff_of k"
    and i: "unat (sp_i f) = unat (sp_backoff f)" "p = pause_sum k + unat (sp_i f)"
    using assms False by (cases m) (auto simp: spin_track_def word_less_nat_alt)
  have "unat (if sp_backoff f < max_backoff then push_bit 1 (sp_backoff f) else max_backoff)
      = backoff_of m"
    using backoff_of_bounds(2) [of k]
    by (simp add: unat_lt_64 unat_double_small b m backoff_of_Suc) (simp add: max_backoff_def)
  then show ?thesis using False i b
    by (simp add: spin_track_def spin_pause_def m pause_sum_def)
qed

lemma spin_track_next: "spin_track m p f \<Longrightarrow> sp_pc f = Sp_load \<Longrightarrow>
    spin_track m p (f\<lparr>sp_pc := Sp_exchange\<rparr>)"
  by (simp add: spin_track_def)

lemma spin_track_busy: "spin_track m p f \<Longrightarrow> sp_pc f \<noteq> Sp_pause \<Longrightarrow>
    spin_track (Suc m) p (f\<lparr>sp_try := n, sp_pc := Sp_pause, sp_i := 0\<rparr>) \<and>
    spin_track (Suc m) p (f\<lparr>sp_pc := Sp_pause, sp_i := 0\<rparr>)"
  by (cases "sp_pc f") (auto simp: spin_track_def)

lemma last_try: "n + 1 = max_try \<longleftrightarrow> unat n = 255"
proof -
  have "n + 1 = max_try \<longleftrightarrow> n = 255"
    unfolding max_try_def by (simp add: eq_diff_eq [symmetric])
  then show ?thesis by (simp add: word_unat_eq_iff)
qed

definition timeout_ok :: "nat \<Rightarrow> nat \<Rightarrow> spin_frame \<Rightarrow> bool" where
  "timeout_ok m p f \<longleftrightarrow> spin_track m p f \<and> unat (sp_try f) = m \<and> m < 256"

definition miss_of :: "spin_frame \<Rightarrow> u32 \<Rightarrow> nat" where
  "miss_of f v = (if sp_pc f \<noteq> Sp_pause \<and> v \<noteq> 0 then 1 else 0)"

definition pause_of :: "spin_frame \<Rightarrow> nat" where
  "pause_of f = (if sp_pc f = Sp_pause \<and> sp_i f < sp_backoff f then 1 else 0)"

definition timeout_end :: "nat \<Rightarrow> nat \<Rightarrow> bool \<Rightarrow> bool" where
  "timeout_end m p b \<longleftrightarrow> (if b then m < 256 \<and> p = pause_sum m else m = 256 \<and> p = pause_sum 255)"

lemma timeout_step:
  assumes "timeout_ok m p f"
  shows "case fst (Spinlock_lock_with_timeout f v) of
     Inl f' \<Rightarrow> timeout_ok (m + miss_of f v) (p + pause_of f) f'
   | Inr b \<Rightarrow> timeout_end (m + miss_of f v) (p + pause_of f) b \<and>
       (b \<longrightarrow> sp_pc f = Sp_exchange \<and> v = 0)"
proof -
  have track: "spin_track m p f" and count: "unat (sp_try f) = m" "m < 256"
    using assms by (simp_all add: timeout_ok_def)
  show ?thesis
  proof (cases "sp_pc f = Sp_pause")
    case True
    then show ?thesis using spin_track_pause [OF track True] count
      by (simp add: Spinlock_lock_with_timeout_def timeout_ok_def miss_of_def pause_of_def
          spin_pause_def split: if_splits)
  next
    case access: False
    show ?thesis
    proof (cases "v = 0")
      case True
      then show ?thesis using access track count spin_track_next [OF track]
        by (cases "sp_pc f") (auto simp: Spinlock_lock_with_timeout_def spin_cond_def miss_of_def
            pause_of_def timeout_ok_def timeout_end_def spin_track_def)
    next
      case False
      have "fst (Spinlock_lock_with_timeout f v) =
          (if unat (sp_try f) = 255 then Inr False
           else Inl (f\<lparr>sp_try := sp_try f + 1, sp_pc := Sp_pause, sp_i := 0\<rparr>))"
        using access False last_try by (simp add: Spinlock_lock_with_timeout_def spin_cond_def)
      moreover have "p = pause_sum m"
        using track access by (cases "sp_pc f") (auto simp: spin_track_def)
      moreover have "unat (sp_try f + 1) = m + 1" using count by (simp add: unat_word_ariths)
      ultimately show ?thesis using False access count spin_track_busy [OF track access]
        by (simp add: miss_of_def pause_of_def timeout_ok_def timeout_end_def)
    qed
  qed
qed

lemma tally_at:
  assumes "spin_run routine env n = Inl f"
  shows "tally (misses_at routine env) (Suc n) = tally (misses_at routine env) n + miss_of f (env n)"
    "tally (pauses_at routine env) (Suc n) = tally (pauses_at routine env) n + pause_of f"
    "takes_at routine env n \<longleftrightarrow> sp_pc f = Sp_exchange \<and> env n = 0"
  using assms
  by (simp_all add: misses_at_def pauses_at_def takes_at_def miss_of_def pause_of_def)

lemma tally_at_returned:
  assumes "spin_run routine env n = Inr b"
  shows "tally (misses_at routine env) (Suc n) = tally (misses_at routine env) n"
    "tally (pauses_at routine env) (Suc n) = tally (pauses_at routine env) n"
  using assms by (simp_all add: misses_at_def pauses_at_def)

lemma timeout_run:
  "case spin_run Spinlock_lock_with_timeout env n of
     Inl f \<Rightarrow> timeout_ok (tally (misses_at Spinlock_lock_with_timeout env) n)
       (tally (pauses_at Spinlock_lock_with_timeout env) n) f
   | Inr b \<Rightarrow> timeout_end (tally (misses_at Spinlock_lock_with_timeout env) n)
       (tally (pauses_at Spinlock_lock_with_timeout env) n) b \<and>
       (b \<longrightarrow> (\<exists>k<n. takes_at Spinlock_lock_with_timeout env k))"
proof (induction n)
  case 0
  then show ?case
    by (simp add: spin_enter_def spin_track_def backoff_of_def pause_sum_def timeout_ok_def)
next
  case (Suc n)
  show ?case
  proof (cases "spin_run Spinlock_lock_with_timeout env n")
    case (Inr b)
    then show ?thesis using Suc tally_at_returned [OF Inr]
      by (auto simp del: tally_simps simp: less_Suc_eq)
  next
    case (Inl f)
    then have "timeout_ok (tally (misses_at Spinlock_lock_with_timeout env) n)
       (tally (pauses_at Spinlock_lock_with_timeout env) n) f"
      using Suc by simp
    from timeout_step [OF this, of "env n"] show ?thesis
      using tally_at [OF Inl] Inl
      by (auto simp del: tally_simps split: sum.splits)
  qed
qed

text \<open>
  A measure that every step of \<open>lock_with_timeout\<close> decreases, whatever the flag: what is left of
  the pause loop, and 67 steps for each attempt that is left.
\<close>

definition round_left :: "spin_frame \<Rightarrow> nat" where
  "round_left f = (case sp_pc f of
      Sp_load \<Rightarrow> 2 | Sp_exchange \<Rightarrow> 1
    | Sp_pause \<Rightarrow> 3 + (unat (sp_backoff f) - unat (sp_i f)))"

definition timeout_left :: "spin_frame \<Rightarrow> nat" where
  "timeout_left f = (255 - unat (sp_try f)) * 67 + round_left f"

lemma spin_pause_decreases:
  assumes "spin_track m p f" and "sp_pc f = Sp_pause"
  shows "round_left (spin_pause f) < round_left f"
proof (cases "sp_i f < sp_backoff f")
  case True
  have "unat (sp_i f + 1) = unat (sp_i f) + 1"
    using True assms backoff_of_bounds(2) [of "m - 1"]
    by (simp add: unat_word_ariths word_less_nat_alt spin_track_def)
  then show ?thesis using assms(2) True
    by (simp add: round_left_def spin_pause_def word_less_nat_alt)
next
  case False
  then show ?thesis using assms(2) by (simp add: round_left_def spin_pause_def)
qed

lemma round_left_busy: "spin_track m p f \<Longrightarrow> sp_pc f \<noteq> Sp_pause \<Longrightarrow>
    round_left (f\<lparr>sp_try := n, sp_pc := Sp_pause, sp_i := 0\<rparr>) \<le> 67"
  using backoff_of_bounds(2) [of m] by (cases "sp_pc f") (auto simp: spin_track_def round_left_def)

lemma timeout_decreases:
  assumes "timeout_ok m p f" and "fst (Spinlock_lock_with_timeout f v) = Inl f'"
  shows "timeout_left f' < timeout_left f"
proof (cases "sp_pc f = Sp_pause")
  case True
  then have "f' = spin_pause f" using assms(2) by (simp add: Spinlock_lock_with_timeout_def)
  then show ?thesis using spin_pause_decreases [OF _ True] assms(1)
    by (simp add: timeout_left_def timeout_ok_def spin_pause_def split: if_splits)
next
  case access: False
  show ?thesis
  proof (cases "v = 0")
    case True
    then show ?thesis using access assms
      by (cases "sp_pc f") (auto simp: Spinlock_lock_with_timeout_def spin_cond_def
          timeout_left_def round_left_def)
  next
    case False
    then have f': "f' = f\<lparr>sp_try := sp_try f + 1, sp_pc := Sp_pause, sp_i := 0\<rparr>"
      and n: "unat (sp_try f) \<noteq> 255"
      using access assms(2) last_try
      by (auto simp: Spinlock_lock_with_timeout_def spin_cond_def split: if_splits)
    have m: "unat (sp_try f) < 255" using assms(1) n by (simp add: timeout_ok_def)
    then have "unat (sp_try f + 1) = unat (sp_try f) + 1" by (simp add: unat_word_ariths)
    then have "timeout_left f' \<le> (255 - (unat (sp_try f) + 1)) * 67 + 67"
      using round_left_busy [OF _ access, of m p "sp_try f + 1"] assms(1)
      by (simp add: timeout_left_def f' timeout_ok_def)
    also have "\<dots> = (255 - unat (sp_try f)) * 67" using m by (simp add: algebra_simps)
    also have "\<dots> < timeout_left f"
      using access by (cases "sp_pc f") (auto simp: timeout_left_def round_left_def)
    finally show ?thesis .
  qed
qed

lemma timeout_left_run:
  "spin_run Spinlock_lock_with_timeout env n = Inl f \<Longrightarrow> timeout_left f + n \<le> 17087"
proof (induction n arbitrary: f)
  case 0
  then show ?case by (auto simp: spin_enter_def timeout_left_def round_left_def)
next
  case (Suc n)
  then obtain g where g: "spin_run Spinlock_lock_with_timeout env n = Inl g"
    "fst (Spinlock_lock_with_timeout g (env n)) = Inl f"
    by (auto split: sum.splits)
  then have "timeout_left f < timeout_left g"
    using timeout_run [of env n] timeout_decreases by auto
  then show ?case using Suc.IH [OF g(1)] by simp
qed

section \<open>Getting a free lock\<close>

lemma lock_step:
  assumes "spin_track m p f"
  shows "case fst (Spinlock_lock f v) of
     Inl f' \<Rightarrow> spin_track (m + miss_of f v) (p + pause_of f) f' | Inr b \<Rightarrow> b"
  using spin_track_pause [OF assms] spin_track_next [OF assms] spin_track_busy [OF assms]
  by (cases "sp_pc f") (auto simp: Spinlock_lock_def spin_cond_def miss_of_def pause_of_def)

lemma lock_run:
  "case spin_run Spinlock_lock env n of
     Inl f \<Rightarrow> spin_track (tally (misses_at Spinlock_lock env) n)
       (tally (pauses_at Spinlock_lock env) n) f
   | Inr b \<Rightarrow> b"
proof (induction n)
  case 0
  then show ?case by (simp add: spin_enter_def spin_track_def backoff_of_def pause_sum_def)
next
  case (Suc n)
  show ?case
  proof (cases "spin_run Spinlock_lock env n")
    case (Inr b)
    then show ?thesis using Suc by simp
  next
    case (Inl f)
    then have t: "spin_track (tally (misses_at Spinlock_lock env) n)
       (tally (pauses_at Spinlock_lock env) n) f" using Suc by simp
    show ?thesis
      using lock_step [OF t, of "env n"] tally_at [OF Inl] Inl
      by (simp del: tally_simps split: sum.splits)
  qed
qed

lemma lock_decreases:
  assumes "spin_track m p f" and "fst (Spinlock_lock f 0) = Inl f'"
  shows "round_left f' < round_left f"
  using assms spin_pause_decreases [OF assms(1)]
  by (cases "sp_pc f") (auto simp: Spinlock_lock_def spin_cond_def round_left_def)

lemma round_left_bound: "spin_track m p f \<Longrightarrow> round_left f \<le> 67"
  using backoff_of_bounds(2) [of "m - 1"]
  by (cases "sp_pc f") (auto simp: spin_track_def round_left_def)

lemma lock_free_run:
  assumes "\<And>k. n \<le> k \<Longrightarrow> env k = 0"
  shows "case spin_run Spinlock_lock env (n + d) of
     Inl f \<Rightarrow> round_left f + d \<le> 67 | Inr b \<Rightarrow> b"
proof (induction d)
  case 0
  then show ?case using lock_run [of env n] round_left_bound by (auto split: sum.splits)
next
  case (Suc d)
  show ?case
  proof (cases "spin_run Spinlock_lock env (n + d)")
    case (Inr b)
    then show ?thesis using Suc by simp
  next
    case (Inl f)
    have "spin_track (tally (misses_at Spinlock_lock env) (n + d))
       (tally (pauses_at Spinlock_lock env) (n + d)) f"
      using lock_run [of env "n + d"] Inl by simp
    moreover have "env (n + d) = 0" using assms by simp
    ultimately show ?thesis
      using lock_decreases [of _ _ f] lock_run [of env "n + Suc d"] Suc Inl
      by (fastforce split: sum.splits)
  qed
qed

section \<open>Properties\<close>

text \<open>
  Mutual exclusion: however the accesses of any number of threads interleave, two threads
  never hold a spinlock at the same time, whichever of the three routines they took it with, and
  while one holds it the flag is set.
\<close>

theorem Spinlock_mutual_exclusion:
  assumes "spin_step\<^sup>*\<^sup>* spin_start c"
    and "th_held (thread_of c t)" and "th_held (thread_of c u)"
  shows "t = u \<and> shared c = 1"
proof -
  obtain w where "spin.owned w c" by (rule spin.reach_owned [OF assms(1) spin_start_owned])
  then have f: "flag_inv w (shared c)"
    and "spin_ok w (shared c) t (th_held (thread_of c t)) (th_call (thread_of c t))"
    by (simp_all add: spin.owned_def)
  then have "w = Some t" using spin.inside_owner assms(2) by blast
  then show ?thesis
    using spin.mutual_exclusion [OF assms(1) spin_start_owned assms(2,3)] f
    by (simp add: flag_inv_def)
qed

text \<open>Thread 7 calls \<open>try_lock\<close>, loads, exchanges.\<close>

definition spin_taken :: "(u32, bool, spin_call, spin_result) conf" where
  "spin_taken = the (exec spin_calls spin_code spin_ret
     [(7, Some (Sc_try spin_enter, False)), (7, None), (7, None)] spin_start)"

lemmas spin_code_defs = spin_code_def spin_result_of_def spin_defs spin_enter_def spin_ret_def
  spin_calls_def

theorem Spinlock_mutual_exclusion_witness: "\<not> th_held (thread_of spin_taken 8)"
proof -
  have e: "exec spin_calls spin_code spin_ret
      [(7, Some (Sc_try spin_enter, False)), (7, None), (7, None)] spin_start = Some spin_taken"
    and "th_held (thread_of spin_taken 7)"
    by (simp_all add: spin_taken_def spin_start_def exec_step_def spin_code_defs)
  then show ?thesis
    using Spinlock_mutual_exclusion [OF exec_sound [OF e], of 7 8] by auto
qed

text \<open>
  C27: \<open>lock_with_timeout\<close> returns after at most 17088 of its own steps, whatever the other threads
  do. It returns false exactly after 256 failed attempts, with 15999 pauses between them (1, 2,
  4 and so on up to 64); it returns true only through an exchange that found the flag clear,
  after fewer than 256 failures.
\<close>

theorem lock_with_timeout_bounded:
  "\<exists>b. spin_run Spinlock_lock_with_timeout env 17088 = Inr b \<and>
     (if b then tally (misses_at Spinlock_lock_with_timeout env) 17088 < 256 \<and>
        (\<exists>k. takes_at Spinlock_lock_with_timeout env k)
      else tally (misses_at Spinlock_lock_with_timeout env) 17088 = 256 \<and>
        tally (pauses_at Spinlock_lock_with_timeout env) 17088 = 15999)"
proof -
  have "pause_sum (6 + n) = 63 + 64 * n" for n
    by (induction n) (simp_all add: pause_sum_def backoff_of_def lessThan_Suc eval_nat_numeral)
  from this [of 249] have p: "pause_sum 255 = 15999" by simp
  obtain b where b: "spin_run Spinlock_lock_with_timeout env 17088 = Inr b"
    using timeout_left_run [of env 17088] by (cases "spin_run Spinlock_lock_with_timeout env 17088") auto
  then show ?thesis using timeout_run [of env 17088] p
    by (intro exI [of _ b]) (auto simp: timeout_end_def split: if_splits)
qed

text \<open>
  C28: \<open>lock\<close> never returns without the lock, and if the flag is clear from the \<open>n\<close>-th step of the
  caller on, it returns with the lock within 68 further steps (a full round of 64 pauses and
  the two accesses). \<open>try_lock\<close> makes at most two accesses and succeeds exactly if both see the
  flag clear.
\<close>

theorem Spinlock_lock_free:
  assumes "\<And>k. n \<le> k \<Longrightarrow> env k = 0"
  shows "spin_run Spinlock_lock env (n + 68) = Inr True \<and>
    spin_run Spinlock_try_lock env' 2 = Inr (env' 0 = 0 \<and> env' 1 = 0)"
proof -
  have "spin_run Spinlock_lock env (n + 68) = Inr True"
    using lock_free_run [of n env 68, OF assms] by (auto split: sum.splits)
  then show ?thesis
    by (simp add: numeral_2_eq_2 Spinlock_try_lock_def spin_cond_def spin_enter_def)
qed

theorem Spinlock_lock_free_witness:
  "spin_run Spinlock_lock (\<lambda>k. if k < 1000 then 1 else 0) (1000 + 68) = Inr True"
  using Spinlock_lock_free [of 1000 "\<lambda>k. if k < 1000 then 1 else 0"] by simp

end
