(* ===== verification/Mutex.thy ===== *)
theory Mutex
  imports Spinlock
begin

text \<open>
  The classes \<open>Plain_mutex\<close> and \<open>Mutex\<close> of \<open>mutex.hpp\<close> and \<open>mutex.cpp\<close>, access by access, on top of the
  spinlock routines. The properties: mutual exclusion, when the deadlock error is thrown, and that
  a lock taken with \<open>Mutex::try_lock\<close> is not seen by the deadlock check.
\<close>

section \<open>Plain_mutex\<close>

datatype plain_frame = Pl_timeout spin_frame | Pl_try spin_frame | Pl_yield

definition Plain_enter :: plain_frame where
  "Plain_enter = Pl_timeout spin_enter"

text \<open>What happens in \<open>yield\<close> is the business of the scheduler; for the flag it is one step.\<close>

definition Plain_lock :: "plain_frame \<Rightarrow> u32 \<Rightarrow> (plain_frame + bool) \<times> u32" where
  "Plain_lock f flag = (case f of
       Pl_timeout g \<Rightarrow> (case Spinlock_lock_with_timeout g flag of
           (Inl g', v) \<Rightarrow> (Inl (Pl_timeout g'), v)
         | (Inr b, v) \<Rightarrow> (if b then Inr True else Inl (Pl_try spin_enter), v))
     | Pl_try g \<Rightarrow> (case Spinlock_try_lock g flag of
           (Inl g', v) \<Rightarrow> (Inl (Pl_try g'), v)
         | (Inr b, v) \<Rightarrow> (if b then Inr True else Inl Pl_yield, v))
     | Pl_yield \<Rightarrow> (Inl (Pl_try spin_enter), flag))"

definition Plain_try_lock :: "spin_frame \<Rightarrow> u32 \<Rightarrow> (spin_frame + bool) \<times> u32" where
  "Plain_try_lock = Spinlock_try_lock"

definition Plain_unlock :: "u32 \<Rightarrow> u32" where
  "Plain_unlock = Spinlock_unlock"

lemma Plain_lock_not_False: "Plain_lock f v \<noteq> (Inr False, v')"
  by (auto simp: Plain_lock_def split: plain_frame.splits prod.splits sum.splits if_splits)

interpretation plain: acquirer Plain_lock
proof
  fix f v v' r
  show "Plain_lock f v = (Inr True, v') \<Longrightarrow> v = 0 \<and> v' = 1"
    using timeout.taken try_lock.taken
    by (auto simp: Plain_lock_def split: plain_frame.splits prod.splits sum.splits if_splits)
  show "Plain_lock f v = (r, v') \<Longrightarrow> r \<noteq> Inr True \<Longrightarrow> v = 0 \<or> v = 1 \<Longrightarrow> v' = v"
    using timeout.not_taken [of _ v _ v'] try_lock.not_taken [of _ v _ v']
    by (auto simp: Plain_lock_def split: plain_frame.splits prod.splits sum.splits if_splits)
qed

interpretation plain_try: acquirer Plain_try_lock
  unfolding Plain_try_lock_def by (rule try_lock.acquirer_axioms)

section \<open>Mutex\<close>

record mutex =
  mx_flag :: u32
  mx_tid :: "tid option"

definition Mutex_init :: mutex where
  "Mutex_init = \<lparr>mx_flag = 0, mx_tid = None\<rparr>"

datatype mutex_lock_pc = Ml_check | Ml_acquire plain_frame | Ml_store

datatype mutex_unlock_pc = Mu_clear | Mu_release

datatype mutex_result = Mx_locked | Mx_deadlock | Mx_tried bool | Mx_unlocked

definition Mutex_lock ::
  "tid \<Rightarrow> mutex_lock_pc \<Rightarrow> mutex \<Rightarrow> (mutex_lock_pc + mutex_result) \<times> mutex" where
  "Mutex_lock this_tid pc m = (case pc of
       Ml_check \<Rightarrow> (if mx_tid m = Some this_tid then Inr Mx_deadlock
                    else Inl (Ml_acquire Plain_enter), m)
     | Ml_acquire f \<Rightarrow> (case Plain_lock f (mx_flag m) of
           (Inl f', v) \<Rightarrow> (Inl (Ml_acquire f'), m\<lparr>mx_flag := v\<rparr>)
         | (Inr _, v) \<Rightarrow> (Inl Ml_store, m\<lparr>mx_flag := v\<rparr>))
     | Ml_store \<Rightarrow> (Inr Mx_locked, m\<lparr>mx_tid := Some this_tid\<rparr>))"

definition Mutex_try_lock ::
  "spin_frame \<Rightarrow> mutex \<Rightarrow> (spin_frame + mutex_result) \<times> mutex" where
  "Mutex_try_lock f m = (case Plain_try_lock f (mx_flag m) of
       (Inl f', v) \<Rightarrow> (Inl f', m\<lparr>mx_flag := v\<rparr>)
     | (Inr b, v) \<Rightarrow> (Inr (Mx_tried b), m\<lparr>mx_flag := v\<rparr>))"

definition Mutex_unlock ::
  "mutex_unlock_pc \<Rightarrow> mutex \<Rightarrow> (mutex_unlock_pc + mutex_result) \<times> mutex" where
  "Mutex_unlock pc m = (case pc of
       Mu_clear \<Rightarrow> (Inl Mu_release, m\<lparr>mx_tid := None\<rparr>)
     | Mu_release \<Rightarrow> (Inr Mx_unlocked, m\<lparr>mx_flag := Plain_unlock (mx_flag m)\<rparr>))"

datatype mutex_frame =
  Mx_lock mutex_lock_pc | Mx_try spin_frame | Mx_unlock mutex_unlock_pc

definition in_frame :: "('a \<Rightarrow> 'f) \<Rightarrow> ('a + 'r) \<times> 'm \<Rightarrow> ('f + 'r) \<times> 'm" where
  "in_frame con p = (map_sum con id (fst p), snd p)"

definition mutex_code :: "tid \<Rightarrow> mutex_frame \<Rightarrow> mutex \<Rightarrow> (mutex_frame + mutex_result) \<times> mutex" where
  "mutex_code t f m = (case f of
       Mx_lock pc \<Rightarrow> in_frame Mx_lock (Mutex_lock t pc m)
     | Mx_try g \<Rightarrow> in_frame Mx_try (Mutex_try_lock g m)
     | Mx_unlock pc \<Rightarrow> in_frame Mx_unlock (Mutex_unlock pc m))"

text \<open>What a client knows: it does not hold the mutex, or how it has taken it.\<close>

datatype hold = Not_held | By_lock | By_try

definition mutex_calls :: "hold \<Rightarrow> mutex_frame \<Rightarrow> hold \<Rightarrow> bool" where
  "mutex_calls h f h' \<longleftrightarrow>
     (f = Mx_lock Ml_check \<or> f = Mx_try spin_enter) \<and> h' = h \<or>
     f = Mx_unlock Mu_clear \<and> h \<noteq> Not_held \<and> h' = Not_held"

definition mutex_ret :: "mutex_result \<Rightarrow> hold \<Rightarrow> hold" where
  "mutex_ret r h = (case r of Mx_locked \<Rightarrow> By_lock | Mx_tried b \<Rightarrow> (if b then By_try else h) | _ \<Rightarrow> h)"

definition mutex_start :: "(mutex, hold, mutex_frame, mutex_result) conf" where
  "mutex_start = \<lparr>shared = Mutex_init,
     thread_of = (\<lambda>t. \<lparr>th_held = Not_held, th_call = None, th_last = None\<rparr>)\<rparr>"

abbreviation mutex_step where
  "mutex_step \<equiv> any_step mutex_calls mutex_code mutex_ret"

subsection \<open>The invariant\<close>

definition mutex_minv :: "tid option \<Rightarrow> mutex \<Rightarrow> bool" where
  "mutex_minv w m \<longleftrightarrow> flag_inv w (mx_flag m) \<and> (mx_tid m = None \<or> mx_tid m = w)"

definition mutex_base :: "bool \<Rightarrow> bool \<Rightarrow> hold \<Rightarrow> bool" where
  "mutex_base mine known h \<longleftrightarrow> (h \<noteq> Not_held \<longleftrightarrow> mine) \<and> (h = By_lock \<longleftrightarrow> known)"

text \<open>\<open>mine\<close>: the thread is the owner; \<open>known\<close>: its id is stored.\<close>

fun mutex_view :: "bool \<Rightarrow> bool \<Rightarrow> hold \<Rightarrow> mutex_frame option \<Rightarrow> bool" where
  "mutex_view mine known h (Some (Mx_lock (Ml_acquire f))) \<longleftrightarrow> mutex_base mine known h \<and> h \<noteq> By_lock"
| "mutex_view mine known h (Some (Mx_lock Ml_store)) \<longleftrightarrow> h = Not_held \<and> mine \<and> \<not> known"
| "mutex_view mine known h (Some (Mx_unlock Mu_clear)) \<longleftrightarrow> h = Not_held \<and> mine"
| "mutex_view mine known h (Some (Mx_unlock Mu_release)) \<longleftrightarrow> h = Not_held \<and> mine \<and> \<not> known"
| "mutex_view mine known h q \<longleftrightarrow> mutex_base mine known h"

definition mutex_ok :: "tid option \<Rightarrow> mutex \<Rightarrow> tid \<Rightarrow> hold \<Rightarrow> mutex_frame option \<Rightarrow> bool" where
  "mutex_ok w m t h q \<longleftrightarrow> mutex_view (w = Some t) (mx_tid m = Some t) h q"

lemma mutex_ok_others:
  assumes "mutex_minv w m" and "mutex_minv w' m'"
    and "w' = w \<or> (w = None \<or> w = Some t) \<and> (w' = None \<or> w' = Some t)"
    and "mx_tid m' = mx_tid m \<or> w = Some t"
  shows "\<forall>u k q. u \<noteq> t \<longrightarrow> mutex_ok w m u k q \<longrightarrow> mutex_ok w' m' u k q"
proof (intro allI impI)
  fix u k q
  assume "u \<noteq> t" and "mutex_ok w m u k q"
  moreover have "w' = Some u \<longleftrightarrow> w = Some u" using assms(3) \<open>u \<noteq> t\<close> by auto
  moreover have "mx_tid m' = Some u \<longleftrightarrow> mx_tid m = Some u"
    using assms \<open>u \<noteq> t\<close> unfolding mutex_minv_def by auto
  ultimately show "mutex_ok w' m' u k q" by (simp add: mutex_ok_def)
qed

text \<open>
  An access changes the owner only from or to the thread itself. One lemma for each operation.
\<close>

definition mutex_change :: "tid option \<Rightarrow> mutex \<Rightarrow> tid \<Rightarrow> hold \<Rightarrow> mutex \<Rightarrow> mutex_frame + mutex_result \<Rightarrow> bool"
where
  "mutex_change w m t h m' r \<longleftrightarrow> (\<exists>w'. mutex_minv w' m' \<and> (case r of
       Inl f' \<Rightarrow> mutex_ok w' m' t h (Some f') | Inr x \<Rightarrow> mutex_ok w' m' t (mutex_ret x h) None) \<and>
    (w' = w \<or> (w = None \<or> w = Some t) \<and> (w' = None \<or> w' = Some t)) \<and>
    (mx_tid m' = mx_tid m \<or> w = Some t))"

lemmas mutex_views = mutex_ok_def mutex_base_def mutex_minv_def mutex_ret_def in_frame_def

lemma mutex_lock_change:
  assumes "mutex_minv w m" and "mutex_ok w m t h (Some (Mx_lock pc))"
    and "mutex_code t (Mx_lock pc) m = (r, m')"
  shows "mutex_change w m t h m' r"
proof (cases pc)
  case (Ml_acquire g)
  obtain r0 v where p: "Plain_lock g (mx_flag m) = (r0, v)" by fastforce
  note own = plain.acquire_owner [OF _ p, of w t]
  show ?thesis
  proof (cases "r0 = Inr True")
    case True
    then show ?thesis using assms Ml_acquire p own unfolding mutex_change_def
      by (intro exI [of _ "Some t"]) (auto simp: mutex_code_def Mutex_lock_def mutex_views)
  next
    case False
    then obtain g' where "r0 = Inl g'"
      using p Plain_lock_not_False [of g "mx_flag m" v] by (cases r0) auto
    then show ?thesis using assms Ml_acquire p own unfolding mutex_change_def
      by (intro exI [of _ w]) (auto simp: mutex_code_def Mutex_lock_def mutex_views)
  qed
qed (use assms in \<open>auto simp: mutex_change_def mutex_code_def Mutex_lock_def mutex_views
       intro!: exI [of _ w] split: if_splits\<close>)

lemma mutex_try_change:
  assumes "mutex_minv w m" and "mutex_ok w m t h (Some (Mx_try g))"
    and "mutex_code t (Mx_try g) m = (r, m')"
  shows "mutex_change w m t h m' r"
proof -
  obtain r0 v where p: "Plain_try_lock g (mx_flag m) = (r0, v)" by fastforce
  note own = plain_try.acquire_owner [OF _ p, of w t]
  show ?thesis
  proof (cases "r0 = Inr True")
    case True
    then show ?thesis using assms p own unfolding mutex_change_def
      by (intro exI [of _ "Some t"]) (auto simp: mutex_code_def Mutex_try_lock_def mutex_views)
  next
    case False
    then have fl: "flag_inv w v" using own assms(1) by (simp add: mutex_minv_def)
    have "r = map_sum Mx_try (\<lambda>b. Mx_tried False) r0" "m' = m\<lparr>mx_flag := v\<rparr>"
      using assms(3) False p
      by (auto simp: mutex_code_def Mutex_try_lock_def in_frame_def split: sum.splits)
    then show ?thesis using assms(1,2) fl unfolding mutex_change_def
      by (intro exI [of _ w], cases r0) (auto simp: mutex_ok_def mutex_minv_def mutex_ret_def)
  qed
qed

lemma mutex_unlock_change:
  assumes "mutex_minv w m" and "mutex_ok w m t h (Some (Mx_unlock pc))"
    and "mutex_code t (Mx_unlock pc) m = (r, m')"
  shows "mutex_change w m t h m' r"
proof (cases pc)
  case Mu_clear
  then show ?thesis using assms unfolding mutex_change_def
    by (intro exI [of _ w]) (auto simp: mutex_code_def Mutex_unlock_def in_frame_def mutex_ok_def
        mutex_minv_def)
next
  case Mu_release
  then show ?thesis using assms unfolding mutex_change_def
    by (intro exI [of _ None], cases "mx_tid m") (auto simp: mutex_code_def Mutex_unlock_def
        mutex_views flag_inv_def Plain_unlock_def Spinlock_unlock_def)
qed

lemma mutex_ok_change:
  assumes "mutex_minv w m" and "mutex_ok w m t h (Some f)" and "mutex_code t f m = (r, m')"
  shows "\<exists>w'. mutex_minv w' m' \<and> (case r of Inl f' \<Rightarrow> mutex_ok w' m' t h (Some f')
      | Inr x \<Rightarrow> mutex_ok w' m' t (mutex_ret x h) None) \<and>
    (w' = w \<or> (w = None \<or> w = Some t) \<and> (w' = None \<or> w' = Some t)) \<and>
    (mx_tid m' = mx_tid m \<or> w = Some t)"
proof -
  have "mutex_change w m t h m' r"
    using assms by (cases f) (auto intro: mutex_lock_change mutex_try_change mutex_unlock_change)
  then show ?thesis by (simp only: mutex_change_def)
qed

lemma mutex_ok_preserved:
  assumes "mutex_minv w m" and "mutex_ok w m t h (Some f)" and "mutex_code t f m = (r, m')"
  shows "\<exists>w'. mutex_minv w' m' \<and> (case r of Inl f' \<Rightarrow> mutex_ok w' m' t h (Some f')
      | Inr x \<Rightarrow> mutex_ok w' m' t (mutex_ret x h) None) \<and>
    (\<forall>u k q. u \<noteq> t \<longrightarrow> mutex_ok w m u k q \<longrightarrow> mutex_ok w' m' u k q)"
proof -
  from mutex_ok_change [OF assms] obtain w' where w': "mutex_minv w' m'"
    "case r of Inl f' \<Rightarrow> mutex_ok w' m' t h (Some f')
      | Inr x \<Rightarrow> mutex_ok w' m' t (mutex_ret x h) None"
    "w' = w \<or> (w = None \<or> w = Some t) \<and> (w' = None \<or> w' = Some t)"
    "mx_tid m' = mx_tid m \<or> w = Some t" by blast
  show ?thesis
    by (intro exI [of _ w'] conjI w'(1,2) mutex_ok_others [OF assms(1) w'(1,3,4)])
qed

lemma mutex_view_mine: "mutex_view mine known h q \<Longrightarrow> h \<noteq> Not_held \<Longrightarrow> mine"
  by (cases "(mine, known, h, q)" rule: mutex_view.cases) (auto simp: mutex_base_def)

interpretation mx: owner_lock mutex_calls mutex_code mutex_ret mutex_minv mutex_ok
  "\<lambda>h. h \<noteq> Not_held"
proof
  show "mutex_ok w m t h None \<Longrightarrow> mutex_calls h f h' \<Longrightarrow> mutex_ok w m t h' (Some f)" for w m t h f h'
    by (auto simp: mutex_ok_def mutex_calls_def mutex_base_def)
  show "mutex_ok w m t h q \<Longrightarrow> h \<noteq> Not_held \<Longrightarrow> w = Some t" for w m t h q
    unfolding mutex_ok_def by (rule mutex_view_mine)
qed (rule mutex_ok_preserved)

lemma mutex_start_owned: "mx.owned None mutex_start"
  by (simp add: mx.owned_def mutex_start_def mutex_ok_def mutex_minv_def mutex_base_def
      flag_inv_def Mutex_init_def)

subsection \<open>Properties\<close>

text \<open>
  \<open>Mutex\<close> gives mutual exclusion, also when it is taken with \<open>try_lock\<close> by some and with
  \<open>lock\<close> by others. And \<open>lock\<close> throws the deadlock error exactly when its caller already holds the
  mutex from an earlier \<open>lock\<close>: there are no false alarms.
\<close>

theorem Mutex_correct:
  assumes "mutex_step\<^sup>*\<^sup>* mutex_start c"
  shows "(th_held (thread_of c t) \<noteq> Not_held \<and> th_held (thread_of c u) \<noteq> Not_held \<longrightarrow> t = u) \<and>
    (th_call (thread_of c t) = Some (Mx_lock Ml_check) \<longrightarrow>
      (fst (mutex_code t (Mx_lock Ml_check) (shared c)) = Inr Mx_deadlock
        \<longleftrightarrow> th_held (thread_of c t) = By_lock))"
proof -
  obtain w where w: "mx.owned w c" by (rule mx.reach_owned [OF assms mutex_start_owned])
  have "fst (mutex_code t (Mx_lock Ml_check) (shared c)) = Inr Mx_deadlock
        \<longleftrightarrow> th_held (thread_of c t) = By_lock" if "th_call (thread_of c t) = Some (Mx_lock Ml_check)"
  proof -
    have "mutex_ok w (shared c) t (th_held (thread_of c t)) (Some (Mx_lock Ml_check))"
      using w that unfolding mx.owned_def by metis
    then show ?thesis
      by (auto simp: mutex_ok_def mutex_base_def mutex_code_def Mutex_lock_def in_frame_def)
  qed
  then show ?thesis using mx.mutual_exclusion [OF assms mutex_start_owned] by blast
qed

lemmas mutex_code_defs = mutex_code_def Mutex_lock_def Mutex_try_lock_def Mutex_unlock_def
  in_frame_def Plain_lock_def Plain_try_lock_def Plain_unlock_def Plain_enter_def spin_defs
  spin_enter_def mutex_ret_def mutex_calls_def

text \<open>Thread 3 takes the mutex with \<open>lock\<close> and calls \<open>lock\<close> again.\<close>

definition mutex_relock :: "(mutex, hold, mutex_frame, mutex_result) conf" where
  "mutex_relock = the (exec mutex_calls mutex_code mutex_ret
     [(3, Some (Mx_lock Ml_check, Not_held)), (3, None), (3, None), (3, None), (3, None),
      (3, Some (Mx_lock Ml_check, By_lock))] mutex_start)"

theorem Mutex_correct_witness:
  "fst (mutex_code 3 (Mx_lock Ml_check) (shared mutex_relock)) = Inr Mx_deadlock"
proof -
  have e: "exec mutex_calls mutex_code mutex_ret
     [(3, Some (Mx_lock Ml_check, Not_held)), (3, None), (3, None), (3, None), (3, None),
      (3, Some (Mx_lock Ml_check, By_lock))] mutex_start = Some mutex_relock"
    and "th_held (thread_of mutex_relock 3) = By_lock"
    and "th_call (thread_of mutex_relock 3) = Some (Mx_lock Ml_check)"
    by (simp_all add: mutex_relock_def mutex_start_def Mutex_init_def exec_step_def mutex_code_defs)
  then show ?thesis using Mutex_correct [OF exec_sound [OF e], of 3 3] by simp
qed

text \<open>A thread that holds the mutex by \<open>try_lock\<close> and is inside \<open>lock\<close>.\<close>

definition self_locked :: "tid \<Rightarrow> (mutex, hold, mutex_frame, mutex_result) conf \<Rightarrow> bool" where
  "self_locked t c \<longleftrightarrow> th_held (thread_of c t) = By_try \<and>
     (\<exists>pc. th_call (thread_of c t) = Some (Mx_lock pc))"

lemma self_locked_stuck:
  assumes "mutex_minv w m" and "mutex_ok w m t By_try (Some (Mx_lock pc))"
  shows "\<exists>pc'. fst (mutex_code t (Mx_lock pc) m) = Inl (Mx_lock pc')"
proof (cases pc)
  case Ml_check
  then show ?thesis using assms
    by (auto simp: mutex_ok_def mutex_base_def mutex_code_def Mutex_lock_def in_frame_def)
next
  case (Ml_acquire g)
  then have one: "mx_flag m = 1"
    using assms by (auto simp: mutex_ok_def mutex_base_def mutex_minv_def flag_inv_def)
  obtain r0 v where p: "Plain_lock g (mx_flag m) = (r0, v)" by fastforce
  then obtain g' where "r0 = Inl g'"
    using one plain.refused [of g r0 v] Plain_lock_not_False [of g "mx_flag m" v]
    by (cases r0) auto
  then show ?thesis
    using Ml_acquire p by (auto simp: mutex_code_def Mutex_lock_def in_frame_def)
next
  case Ml_store
  then show ?thesis using assms by (simp add: mutex_ok_def)
qed

lemma self_locked_step:
  assumes "mx.owned w c" and "self_locked t c" and "mutex_step c c'"
  shows "self_locked t c'"
proof -
  obtain u where s: "thread_step mutex_calls mutex_code mutex_ret u c c'"
    using assms(3) by (auto simp: any_step_def)
  show ?thesis
  proof (cases "t = u")
    case False
    then show ?thesis using thread_step_other [OF s] assms(2) by (simp add: self_locked_def)
  next
    case True
    obtain pc where pc: "th_call (thread_of c t) = Some (Mx_lock pc)"
      and h: "th_held (thread_of c t) = By_try"
      using assms(2) by (auto simp: self_locked_def)
    have "mutex_minv w (shared c)" "mutex_ok w (shared c) t By_try (Some (Mx_lock pc))"
      using assms(1) pc h unfolding mx.owned_def by metis+
    from self_locked_stuck [OF this] obtain pc' where
      "fst (mutex_code t (Mx_lock pc) (shared c)) = Inl (Mx_lock pc')" by blast
    with s True pc h show ?thesis by cases (auto simp: self_locked_def)
  qed
qed

text \<open>
  C29: \<open>try_lock\<close> does not record its caller: a thread that has taken the mutex with \<open>try_lock\<close> and
  then calls \<open>lock\<close> neither gets the deadlock error nor ever returns, whatever happens next.
\<close>

theorem Mutex_try_lock_then_lock_hangs:
  assumes "mutex_step\<^sup>*\<^sup>* mutex_start c" and "th_held (thread_of c t) = By_try"
    and "th_call (thread_of c t) = Some (Mx_lock pc)" and "mutex_step\<^sup>*\<^sup>* c c'"
  shows "\<exists>pc'. th_call (thread_of c' t) = Some (Mx_lock pc')"
proof -
  have "(\<exists>w. mx.owned w c') \<and> self_locked t c'"
    using assms(4)
  proof (induction rule: rtranclp_induct)
    case base
    then show ?case using mx.reach_owned [OF assms(1) mutex_start_owned] assms(2,3)
      by (metis self_locked_def)
  next
    case (step y z)
    then show ?case using self_locked_step mx.ts.inv_step by blast
  qed
  then show ?thesis by (simp add: self_locked_def)
qed

text \<open>In the example the thread has exchanged nothing yet and will never get past the first loop.\<close>

definition mutex_tried :: "(mutex, hold, mutex_frame, mutex_result) conf" where
  "mutex_tried = the (exec mutex_calls mutex_code mutex_ret
     [(3, Some (Mx_try spin_enter, Not_held)), (3, None), (3, None),
      (3, Some (Mx_lock Ml_check, By_try))] mutex_start)"

definition mutex_spun :: "(mutex, hold, mutex_frame, mutex_result) conf" where
  "mutex_spun = the (exec mutex_calls mutex_code mutex_ret [(3, None), (3, None)] mutex_tried)"

theorem Mutex_try_lock_then_lock_hangs_witness:
  "\<exists>pc'. th_call (thread_of mutex_spun 3) = Some (Mx_lock pc')"
proof -
  have e: "exec mutex_calls mutex_code mutex_ret
     [(3, Some (Mx_try spin_enter, Not_held)), (3, None), (3, None),
      (3, Some (Mx_lock Ml_check, By_try))] mutex_start = Some mutex_tried"
    and t: "th_held (thread_of mutex_tried 3) = By_try"
      "th_call (thread_of mutex_tried 3) = Some (Mx_lock Ml_check)"
    and e': "exec mutex_calls mutex_code mutex_ret [(3, None), (3, None)] mutex_tried = Some mutex_spun"
    by (simp_all add: mutex_spun_def mutex_tried_def mutex_start_def Mutex_init_def exec_step_def
        mutex_code_defs)
  from Mutex_try_lock_then_lock_hangs [OF exec_sound [OF e] t exec_sound [OF e']] show ?thesis .
qed

end
