(* ===== verification/Recursive_mutex.thy ===== *)
theory Recursive_mutex
  imports Mutex
begin

text \<open>
  \<open>Recursive_mutex\<close> of \<open>mutex.hpp\<close> and \<open>mutex.cpp\<close>, access by access. The lock count is an
  ordinary variable; that only the owner touches it is proved, not assumed.
\<close>

section \<open>State and code\<close>

record rmutex =
  rm_flag :: u32
  rm_tid :: "tid option"
  rm_count :: u32

definition Recursive_mutex_init :: rmutex where
  "Recursive_mutex_init = \<lparr>rm_flag = 0, rm_tid = None, rm_count = 0\<rparr>"

definition max_rec_locks :: u32 where "max_rec_locks = - 1"

text \<open>
  The result is whether the count has been increased; with \<open>throws\<close>, a refusal is the exception
  \<open>resource_unavailable_try_again\<close>.
\<close>

definition rmtx_inc_lc :: "u32 \<Rightarrow> bool \<times> u32" where
  "rmtx_inc_lc locks_count =
     (let c = locks_count + 1 in if c = max_rec_locks then (False, c - 1) else (True, c))"

definition rmtx_dec_lc :: "u32 \<Rightarrow> u32" where
  "rmtx_dec_lc locks_count = locks_count - 1"

datatype rlock_pc = Rl_check | Rl_again | Rl_acquire plain_frame | Rl_store | Rl_first

datatype rtry_pc = Rt_check | Rt_again | Rt_acquire spin_frame | Rt_first | Rt_store

datatype runlock_pc = Ru_dec | Ru_clear | Ru_release

datatype rmutex_result = Rm_locked | Rm_unavailable | Rm_tried bool | Rm_unlocked

definition Recursive_mutex_lock ::
  "tid \<Rightarrow> rlock_pc \<Rightarrow> rmutex \<Rightarrow> (rlock_pc + rmutex_result) \<times> rmutex" where
  "Recursive_mutex_lock this_tid pc m = (case pc of
       Rl_check \<Rightarrow> (if rm_tid m = Some this_tid then Inl Rl_again
                    else Inl (Rl_acquire Plain_enter), m)
     | Rl_again \<Rightarrow> (let (ok, c) = rmtx_inc_lc (rm_count m)
         in (Inr (if ok then Rm_locked else Rm_unavailable), m\<lparr>rm_count := c\<rparr>))
     | Rl_acquire f \<Rightarrow> (case Plain_lock f (rm_flag m) of
           (Inl f', v) \<Rightarrow> (Inl (Rl_acquire f'), m\<lparr>rm_flag := v\<rparr>)
         | (Inr _, v) \<Rightarrow> (Inl Rl_store, m\<lparr>rm_flag := v\<rparr>))
     | Rl_store \<Rightarrow> (Inl Rl_first, m\<lparr>rm_tid := Some this_tid\<rparr>)
     | Rl_first \<Rightarrow> (Inr Rm_locked, m\<lparr>rm_count := snd (rmtx_inc_lc (rm_count m))\<rparr>))"

definition Recursive_mutex_try_lock ::
  "tid \<Rightarrow> rtry_pc \<Rightarrow> rmutex \<Rightarrow> (rtry_pc + rmutex_result) \<times> rmutex" where
  "Recursive_mutex_try_lock this_tid pc m = (case pc of
       Rt_check \<Rightarrow> (if rm_tid m = Some this_tid then Inl Rt_again
                    else Inl (Rt_acquire spin_enter), m)
     | Rt_again \<Rightarrow> (let (ok, c) = rmtx_inc_lc (rm_count m)
         in (Inr (Rm_tried ok), m\<lparr>rm_count := c\<rparr>))
     | Rt_acquire f \<Rightarrow> (case Plain_try_lock f (rm_flag m) of
           (Inl f', v) \<Rightarrow> (Inl (Rt_acquire f'), m\<lparr>rm_flag := v\<rparr>)
         | (Inr b, v) \<Rightarrow> (if b then Inl Rt_first else Inr (Rm_tried False), m\<lparr>rm_flag := v\<rparr>))
     | Rt_first \<Rightarrow> (Inl Rt_store, m\<lparr>rm_count := snd (rmtx_inc_lc (rm_count m))\<rparr>)
     | Rt_store \<Rightarrow> (Inr (Rm_tried True), m\<lparr>rm_tid := Some this_tid\<rparr>))"

definition Recursive_mutex_unlock ::
  "runlock_pc \<Rightarrow> rmutex \<Rightarrow> (runlock_pc + rmutex_result) \<times> rmutex" where
  "Recursive_mutex_unlock pc m = (case pc of
       Ru_dec \<Rightarrow> (let c = rmtx_dec_lc (rm_count m)
         in (if c = 0 then Inl Ru_clear else Inr Rm_unlocked, m\<lparr>rm_count := c\<rparr>))
     | Ru_clear \<Rightarrow> (Inl Ru_release, m\<lparr>rm_tid := None\<rparr>)
     | Ru_release \<Rightarrow> (Inr Rm_unlocked, m\<lparr>rm_flag := Plain_unlock (rm_flag m)\<rparr>))"

datatype rmutex_frame = Rm_lock rlock_pc | Rm_try rtry_pc | Rm_unlock runlock_pc

definition rmutex_code ::
  "tid \<Rightarrow> rmutex_frame \<Rightarrow> rmutex \<Rightarrow> (rmutex_frame + rmutex_result) \<times> rmutex" where
  "rmutex_code t f m = (case f of
       Rm_lock pc \<Rightarrow> in_frame Rm_lock (Recursive_mutex_lock t pc m)
     | Rm_try pc \<Rightarrow> in_frame Rm_try (Recursive_mutex_try_lock t pc m)
     | Rm_unlock pc \<Rightarrow> in_frame Rm_unlock (Recursive_mutex_unlock pc m))"

text \<open>A client knows how many times it has locked the mutex, and unlocks it no more often.\<close>

definition rmutex_calls :: "nat \<Rightarrow> rmutex_frame \<Rightarrow> nat \<Rightarrow> bool" where
  "rmutex_calls h f h' \<longleftrightarrow> (f = Rm_lock Rl_check \<or> f = Rm_try Rt_check) \<and> h' = h \<or>
     f = Rm_unlock Ru_dec \<and> h = Suc h'"

definition rmutex_ret :: "rmutex_result \<Rightarrow> nat \<Rightarrow> nat" where
  "rmutex_ret r h = (case r of Rm_locked \<Rightarrow> Suc h | Rm_tried b \<Rightarrow> (if b then Suc h else h) | _ \<Rightarrow> h)"

definition rmutex_start :: "(rmutex, nat, rmutex_frame, rmutex_result) conf" where
  "rmutex_start = \<lparr>shared = Recursive_mutex_init,
     thread_of = (\<lambda>t. \<lparr>th_held = 0, th_call = None, th_last = None\<rparr>)\<rparr>"

abbreviation rmutex_step where
  "rmutex_step \<equiv> any_step rmutex_calls rmutex_code rmutex_ret"

section \<open>The invariant\<close>

definition rmutex_minv :: "tid option \<Rightarrow> rmutex \<Rightarrow> bool" where
  "rmutex_minv w m \<longleftrightarrow> flag_inv w (rm_flag m) \<and> (rm_tid m = None \<or> rm_tid m = w) \<and>
     (w = None \<longrightarrow> rm_count m = 0)"

definition rmutex_base :: "bool \<Rightarrow> bool \<Rightarrow> u32 \<Rightarrow> nat \<Rightarrow> bool" where
  "rmutex_base mine known c h \<longleftrightarrow> (0 < h \<longleftrightarrow> mine) \<and> (known \<longleftrightarrow> mine) \<and>
     (mine \<longrightarrow> unat c = h \<and> c \<noteq> max_rec_locks)"

fun rmutex_view :: "bool \<Rightarrow> bool \<Rightarrow> u32 \<Rightarrow> nat \<Rightarrow> rmutex_frame option \<Rightarrow> bool" where
  "rmutex_view mine known c h (Some (Rm_lock Rl_again)) \<longleftrightarrow> rmutex_base mine known c h \<and> mine"
| "rmutex_view mine known c h (Some (Rm_try Rt_again)) \<longleftrightarrow> rmutex_base mine known c h \<and> mine"
| "rmutex_view mine known c h (Some (Rm_lock (Rl_acquire f))) \<longleftrightarrow> h = 0 \<and> \<not> mine"
| "rmutex_view mine known c h (Some (Rm_try (Rt_acquire f))) \<longleftrightarrow> h = 0 \<and> \<not> mine"
| "rmutex_view mine known c h (Some (Rm_lock Rl_store)) \<longleftrightarrow> h = 0 \<and> mine \<and> \<not> known \<and> c = 0"
| "rmutex_view mine known c h (Some (Rm_lock Rl_first)) \<longleftrightarrow> h = 0 \<and> mine \<and> known \<and> c = 0"
| "rmutex_view mine known c h (Some (Rm_try Rt_first)) \<longleftrightarrow> h = 0 \<and> mine \<and> \<not> known \<and> c = 0"
| "rmutex_view mine known c h (Some (Rm_try Rt_store)) \<longleftrightarrow> h = 0 \<and> mine \<and> \<not> known \<and> c = 1"
| "rmutex_view mine known c h (Some (Rm_unlock Ru_dec)) \<longleftrightarrow> mine \<and> known \<and> unat c = Suc h \<and>
     c \<noteq> max_rec_locks"
| "rmutex_view mine known c h (Some (Rm_unlock Ru_clear)) \<longleftrightarrow> h = 0 \<and> mine \<and> c = 0"
| "rmutex_view mine known c h (Some (Rm_unlock Ru_release)) \<longleftrightarrow> h = 0 \<and> mine \<and> \<not> known \<and> c = 0"
| "rmutex_view mine known c h q \<longleftrightarrow> rmutex_base mine known c h"

definition rmutex_ok :: "tid option \<Rightarrow> rmutex \<Rightarrow> tid \<Rightarrow> nat \<Rightarrow> rmutex_frame option \<Rightarrow> bool" where
  "rmutex_ok w m t h q \<longleftrightarrow>
     rmutex_view (w = Some t) (rm_tid m = Some t) (rm_count m) h q"

lemma rmutex_view_count: "\<not> mine \<Longrightarrow> rmutex_view mine known c h q \<Longrightarrow> rmutex_view mine known c' h q"
  by (cases "(mine, known, c, h, q)" rule: rmutex_view.cases) (auto simp: rmutex_base_def)

lemma rmutex_view_mine: "rmutex_view mine known c h q \<Longrightarrow> 0 < h \<Longrightarrow> mine"
  by (cases "(mine, known, c, h, q)" rule: rmutex_view.cases) (auto simp: rmutex_base_def)

text \<open>The largest count: one more lock is refused.\<close>

definition rm_full :: "u32 \<Rightarrow> bool" where
  "rm_full c \<longleftrightarrow> unat c = 2 ^ 32 - 2"

lemma rmtx_inc_lc_ok: "c \<noteq> max_rec_locks \<Longrightarrow> rmtx_inc_lc c =
    (if rm_full c then (False, c) else (True, c + 1)) \<and>
    (\<not> rm_full c \<longrightarrow> unat (c + 1) = Suc (unat c) \<and> c + 1 \<noteq> max_rec_locks)"
proof -
  assume c: "c \<noteq> max_rec_locks"
  have "c + 1 = max_rec_locks \<longleftrightarrow> c = - 2"
    unfolding max_rec_locks_def by (simp add: eq_diff_eq [symmetric])
  moreover have "c = - 2 \<longleftrightarrow> unat c = 2 ^ 32 - 2" by (simp add: word_unat_eq_iff)
  moreover have "unat (c + 1) = Suc (unat c)"
    using c u32_unat_inc by (simp add: max_rec_locks_def)
  ultimately show ?thesis by (auto simp: rmtx_inc_lc_def Let_def rm_full_def)
qed

lemma rmtx_dec_lc_ok: "unat c = Suc h \<Longrightarrow> unat (rmtx_dec_lc c) = h"
  by (simp add: rmtx_dec_lc_def u32_unat_dec)

lemma unat_dec_zero: "unat c = Suc h \<Longrightarrow> rmtx_dec_lc c = 0 \<longleftrightarrow> h = 0"
  using rmtx_dec_lc_ok [of c h] by (auto simp: word_unat_eq_iff)

lemma rmtx_first: "rmtx_inc_lc 0 = (True, 1)"
  by (simp add: rmtx_inc_lc_def max_rec_locks_def)

definition rmutex_change where
  "rmutex_change w m t h r m' w' \<longleftrightarrow> rmutex_minv w' m' \<and>
    (case r of Inl f' \<Rightarrow> rmutex_ok w' m' t h (Some f')
      | Inr x \<Rightarrow> rmutex_ok w' m' t (rmutex_ret x h) None) \<and>
    (w' = w \<or> (w = None \<or> w = Some t) \<and> (w' = None \<or> w' = Some t)) \<and>
    (w = Some t \<or> rm_tid m' = rm_tid m \<and> rm_count m' = rm_count m)"

text \<open>A repeated lock: the count goes up by one, or is full.\<close>

lemma rmutex_change_again:
  assumes "rmutex_minv w m" and "rmutex_base True True (rm_count m) h" and w: "w = Some t" "rm_tid m = Some t"
    and full: "full \<longleftrightarrow> rm_full (rm_count m)"
    and "m' = m\<lparr>rm_count := if full then rm_count m else rm_count m + 1\<rparr>"
    and "rmutex_ret x h = (if full then h else Suc h)"
  shows "rmutex_change w m t h (Inr x) m' w"
proof -
  have c: "rm_count m \<noteq> max_rec_locks" using assms(2) by (simp add: rmutex_base_def)
  show ?thesis using assms rmtx_inc_lc_ok [OF c]
    by (cases full) (auto simp: rmutex_change_def rmutex_ok_def rmutex_minv_def rmutex_base_def)
qed

lemmas rmutex_lock_defs = rmutex_code_def Recursive_mutex_lock_def in_frame_def rmutex_ok_def
  rmutex_minv_def rmutex_change_def rmutex_ret_def

lemma rmutex_change_lock:
  assumes "rmutex_minv w m" and "rmutex_ok w m t h (Some (Rm_lock pc))"
    and "rmutex_code t (Rm_lock pc) m = (r, m')"
  shows "\<exists>w'. rmutex_change w m t h r m' w'"
proof (cases pc)
  case Rl_check
  then have "m' = m" "r = Inl (Rm_lock (if rm_tid m = Some t then Rl_again else Rl_acquire Plain_enter))"
    using assms(3) by (auto simp: rmutex_lock_defs split: if_splits)
  then show ?thesis using assms(1,2) Rl_check
    by (intro exI [of _ w], cases "rm_tid m = Some t")
      (auto simp: rmutex_change_def rmutex_ok_def rmutex_base_def)
next
  case Rl_again
  then have b: "rmutex_base True True (rm_count m) h" "w = Some t" "rm_tid m = Some t"
    using assms by (auto simp: rmutex_ok_def rmutex_base_def)
  then have c: "rm_count m \<noteq> max_rec_locks" by (simp add: rmutex_base_def)
  let ?full = "rm_full (rm_count m)"
  have "r = Inr (if \<not> ?full then Rm_locked else Rm_unavailable)"
    "m' = m\<lparr>rm_count := if ?full then rm_count m else rm_count m + 1\<rparr>"
    using assms(3) Rl_again rmtx_inc_lc_ok [OF c]
    by (auto simp: rmutex_code_def Recursive_mutex_lock_def in_frame_def)
  then show ?thesis using rmutex_change_again [OF assms(1) b refl]
    by (intro exI [of _ w]) (auto simp: rmutex_ret_def)
next
  case (Rl_acquire g)
  obtain r0 v where p: "Plain_lock g (rm_flag m) = (r0, v)" by fastforce
  note own = plain.acquire_owner [OF _ p, of w t]
  show ?thesis
  proof (cases "r0 = Inr True")
    case True
    then show ?thesis using assms Rl_acquire p own
      by (intro exI [of _ "Some t"]) (auto simp: rmutex_lock_defs)
  next
    case False
    then obtain g' where "r0 = Inl g'"
      using p Plain_lock_not_False [of g "rm_flag m" v] by (cases r0) auto
    then show ?thesis using assms Rl_acquire p own
      by (intro exI [of _ w]) (auto simp: rmutex_lock_defs)
  qed
next
  case Rl_store
  then show ?thesis using assms
    by (intro exI [of _ w]) (auto simp: rmutex_lock_defs)
next
  case Rl_first
  then show ?thesis using assms
    by (intro exI [of _ w]) (auto simp: rmutex_lock_defs rmtx_first rmutex_base_def max_rec_locks_def)
qed

lemmas rmutex_try_defs = rmutex_code_def Recursive_mutex_try_lock_def in_frame_def rmutex_ok_def
  rmutex_minv_def rmutex_change_def rmutex_ret_def

lemma rmutex_change_try:
  assumes "rmutex_minv w m" and "rmutex_ok w m t h (Some (Rm_try pc))"
    and "rmutex_code t (Rm_try pc) m = (r, m')"
  shows "\<exists>w'. rmutex_change w m t h r m' w'"
proof (cases pc)
  case Rt_check
  then have "m' = m" "r = Inl (Rm_try (if rm_tid m = Some t then Rt_again else Rt_acquire spin_enter))"
    using assms(3) by (auto simp: rmutex_try_defs split: if_splits)
  then show ?thesis using assms(1,2) Rt_check
    by (intro exI [of _ w], cases "rm_tid m = Some t")
      (auto simp: rmutex_change_def rmutex_ok_def rmutex_base_def)
next
  case Rt_again
  then have b: "rmutex_base True True (rm_count m) h" "w = Some t" "rm_tid m = Some t"
    using assms by (auto simp: rmutex_ok_def rmutex_base_def)
  then have c: "rm_count m \<noteq> max_rec_locks" by (simp add: rmutex_base_def)
  let ?full = "rm_full (rm_count m)"
  have "r = Inr (Rm_tried (\<not> ?full))"
    "m' = m\<lparr>rm_count := if ?full then rm_count m else rm_count m + 1\<rparr>"
    using assms(3) Rt_again rmtx_inc_lc_ok [OF c]
    by (auto simp: rmutex_code_def Recursive_mutex_try_lock_def in_frame_def)
  then show ?thesis using rmutex_change_again [OF assms(1) b refl]
    by (intro exI [of _ w]) (auto simp: rmutex_ret_def)
next
  case (Rt_acquire g)
  obtain r0 v where p: "Plain_try_lock g (rm_flag m) = (r0, v)" by fastforce
  note own = plain_try.acquire_owner [OF _ p, of w t]
  show ?thesis
  proof (cases "r0 = Inr True")
    case True
    then show ?thesis using assms Rt_acquire p own
      by (intro exI [of _ "Some t"]) (auto simp: rmutex_try_defs)
  next
    case False
    then have fl: "flag_inv w v" using own assms(1) by (simp add: rmutex_minv_def)
    have "r = map_sum (\<lambda>g'. Rm_try (Rt_acquire g')) (\<lambda>b. Rm_tried False) r0"
      "m' = m\<lparr>rm_flag := v\<rparr>"
      using assms(3) False p Rt_acquire
      by (auto simp: rmutex_code_def Recursive_mutex_try_lock_def in_frame_def split: sum.splits)
    then show ?thesis using assms(1,2) fl Rt_acquire
      by (intro exI [of _ w], cases r0)
        (auto simp: rmutex_ok_def rmutex_minv_def rmutex_ret_def rmutex_change_def rmutex_base_def)
  qed
next
  case Rt_first
  then show ?thesis using assms
    by (intro exI [of _ w]) (auto simp: rmutex_try_defs rmtx_first)
next
  case Rt_store
  then show ?thesis using assms
    by (intro exI [of _ w]) (auto simp: rmutex_try_defs rmutex_base_def max_rec_locks_def)
qed

lemmas rmutex_unlock_defs = rmutex_code_def Recursive_mutex_unlock_def in_frame_def rmutex_ok_def
  rmutex_minv_def rmutex_change_def rmutex_ret_def

lemma rmutex_change_unlock:
  assumes "rmutex_minv w m" and "rmutex_ok w m t h (Some (Rm_unlock pc))"
    and "rmutex_code t (Rm_unlock pc) m = (r, m')"
  shows "\<exists>w'. rmutex_change w m t h r m' w'"
proof (cases pc)
  case Ru_dec
  then have c: "unat (rm_count m) = Suc h" using assms by (simp add: rmutex_ok_def)
  have "rmtx_dec_lc (rm_count m) \<noteq> max_rec_locks"
    using rmtx_dec_lc_ok [OF c] c u32_unat_less [of "rm_count m"]
    by (auto simp: word_unat_eq_iff max_rec_locks_def u32_unat_max)
  then show ?thesis using assms Ru_dec rmtx_dec_lc_ok [OF c] unat_dec_zero [OF c]
    by (intro exI [of _ w])
      (auto simp: rmutex_unlock_defs rmutex_base_def Let_def split: if_splits)
next
  case Ru_clear
  then show ?thesis using assms
    by (intro exI [of _ w]) (auto simp: rmutex_unlock_defs)
next
  case Ru_release
  then show ?thesis using assms
    by (intro exI [of _ None], cases "rm_tid m")
      (auto simp: rmutex_unlock_defs rmutex_base_def flag_inv_def Plain_unlock_def
        Spinlock_unlock_def)
qed

lemma rmutex_ok_preserved:
  assumes "rmutex_minv w m" and "rmutex_ok w m t h (Some f)" and "rmutex_code t f m = (r, m')"
  shows "\<exists>w'. rmutex_minv w' m' \<and> (case r of Inl f' \<Rightarrow> rmutex_ok w' m' t h (Some f')
      | Inr x \<Rightarrow> rmutex_ok w' m' t (rmutex_ret x h) None) \<and>
    (\<forall>u k q. u \<noteq> t \<longrightarrow> rmutex_ok w m u k q \<longrightarrow> rmutex_ok w' m' u k q)"
proof -
  obtain w' where w': "rmutex_change w m t h r m' w'"
    using rmutex_change_lock [of w m t h _ r m'] rmutex_change_try [of w m t h _ r m']
      rmutex_change_unlock [of w m t h _ r m'] assms by (cases f) blast+
  have "rmutex_ok w' m' u k q" if u: "u \<noteq> t" "rmutex_ok w m u k q" for u k q
  proof -
    have mine: "w' = Some u \<longleftrightarrow> w = Some u" and known: "rm_tid m' = Some u \<longleftrightarrow> rm_tid m = Some u"
      using w' u(1) assms(1) by (auto simp: rmutex_change_def rmutex_minv_def)
    show ?thesis
    proof (cases "w = Some u")
      case True
      then have "rm_count m' = rm_count m" using w' u(1) by (auto simp: rmutex_change_def)
      then show ?thesis using u(2) mine known by (simp add: rmutex_ok_def)
    next
      case False
      then show ?thesis using rmutex_view_count [OF False] u(2) mine known
        by (simp add: rmutex_ok_def)
    qed
  qed
  then show ?thesis using w' by (auto simp: rmutex_change_def)
qed

interpretation rmx: owner_lock rmutex_calls rmutex_code rmutex_ret rmutex_minv rmutex_ok
  "\<lambda>h. 0 < h"
proof
  show "rmutex_ok w m t h None \<Longrightarrow> rmutex_calls h f h' \<Longrightarrow> rmutex_ok w m t h' (Some f)"
    for w m t h f h'
    by (auto simp: rmutex_ok_def rmutex_calls_def rmutex_base_def)
  show "rmutex_ok w m t h q \<Longrightarrow> 0 < h \<Longrightarrow> w = Some t" for w m t h q
    unfolding rmutex_ok_def by (rule rmutex_view_mine)
qed (rule rmutex_ok_preserved)

lemma rmutex_start_owned: "rmx.owned None rmutex_start"
  by (simp add: rmx.owned_def rmutex_start_def rmutex_ok_def rmutex_minv_def rmutex_base_def
      flag_inv_def Recursive_mutex_init_def)

lemma rmutex_reach_view:
  assumes "rmutex_step\<^sup>*\<^sup>* rmutex_start c"
  obtains w where "rmutex_minv w (shared c)" and
    "\<forall>t. rmutex_view (w = Some t) (rm_tid (shared c) = Some t) (rm_count (shared c))
       (th_held (thread_of c t)) (th_call (thread_of c t))"
  using rmx.reach_owned [OF assms rmutex_start_owned] that
  unfolding rmx.owned_def rmutex_ok_def by metis

section \<open>Properties\<close>

text \<open>
  C30: \<open>Recursive_mutex\<close>: two threads never hold it at once; for a holder that is not inside a call
  the stored count is its lock depth, at most 2 ^ 32 - 2, its id is the stored one, and the
  spinlock's flag is set; and a thread that waits for the spinlock holds nothing, so no thread
  ever waits for itself.
\<close>

theorem Recursive_mutex_correct:
  assumes "rmutex_step\<^sup>*\<^sup>* rmutex_start c"
  shows "(0 < th_held (thread_of c t) \<and> 0 < th_held (thread_of c u) \<longrightarrow> t = u) \<and>
    (th_call (thread_of c t) = None \<and> 0 < th_held (thread_of c t) \<longrightarrow>
      unat (rm_count (shared c)) = th_held (thread_of c t) \<and>
      th_held (thread_of c t) \<le> 2 ^ 32 - 2 \<and>
      rm_tid (shared c) = Some t \<and> rm_flag (shared c) = 1) \<and>
    (th_call (thread_of c t) = Some (Rm_lock (Rl_acquire f)) \<longrightarrow> th_held (thread_of c t) = 0)"
proof -
  obtain w where minv: "rmutex_minv w (shared c)"
    and view: "\<forall>t. rmutex_view (w = Some t) (rm_tid (shared c) = Some t) (rm_count (shared c))
       (th_held (thread_of c t)) (th_call (thread_of c t))"
    by (rule rmutex_reach_view [OF assms])
  have "unat (rm_count (shared c)) = th_held (thread_of c t) \<and>
      th_held (thread_of c t) \<le> 2 ^ 32 - 2 \<and> rm_tid (shared c) = Some t \<and> rm_flag (shared c) = 1"
    if "th_call (thread_of c t) = None" "0 < th_held (thread_of c t)"
  proof -
    have v: "unat (rm_count (shared c)) = th_held (thread_of c t)"
      "rm_count (shared c) \<noteq> max_rec_locks" "rm_tid (shared c) = Some t" "w = Some t"
      using spec [OF view, of t] that by (simp_all add: rmutex_base_def)
    have "unat (rm_count (shared c)) \<noteq> 2 ^ 32 - 1"
      using v(2) by (simp add: word_unat_eq_iff max_rec_locks_def u32_unat_max)
    then show ?thesis
      using v minv u32_unat_less [of "rm_count (shared c)"]
      by (simp add: rmutex_minv_def flag_inv_def)
  qed
  moreover have "th_held (thread_of c t) = 0"
    if "th_call (thread_of c t) = Some (Rm_lock (Rl_acquire f))"
    using spec [OF view, of t] that by simp
  ultimately show ?thesis using rmx.mutual_exclusion [OF assms rmutex_start_owned] by blast
qed

lemmas rmutex_code_defs = rmutex_code_def Recursive_mutex_lock_def Recursive_mutex_try_lock_def
  Recursive_mutex_unlock_def in_frame_def Plain_lock_def Plain_try_lock_def Plain_unlock_def
  Plain_enter_def spin_defs spin_enter_def rmutex_ret_def rmutex_calls_def rmtx_inc_lc_def
  max_rec_locks_def

text \<open>Thread 5 locks with \<open>try_lock\<close>, locks again and is about to lock a third time.\<close>

definition rmutex_twice :: "(rmutex, nat, rmutex_frame, rmutex_result) conf" where
  "rmutex_twice = the (exec rmutex_calls rmutex_code rmutex_ret
     [(5, Some (Rm_try Rt_check, 0)), (5, None), (5, None), (5, None), (5, None), (5, None),
      (5, Some (Rm_lock Rl_check, 1)), (5, None), (5, None)] rmutex_start)"

lemma rmutex_twice_exec:
  "exec rmutex_calls rmutex_code rmutex_ret
     [(5, Some (Rm_try Rt_check, 0)), (5, None), (5, None), (5, None), (5, None), (5, None),
      (5, Some (Rm_lock Rl_check, 1)), (5, None), (5, None)] rmutex_start = Some rmutex_twice"
  "th_held (thread_of rmutex_twice 5) = 2" "th_call (thread_of rmutex_twice 5) = None"
  by (simp_all add: rmutex_twice_def rmutex_start_def Recursive_mutex_init_def exec_step_def
      rmutex_code_defs)

theorem Recursive_mutex_correct_witness: "unat (rm_count (shared rmutex_twice)) = 2"
  using Recursive_mutex_correct [OF exec_sound [OF rmutex_twice_exec(1)], of 5 5]
    rmutex_twice_exec(2,3) by simp

text \<open>The next access of the frame reads and writes the lock count.\<close>

fun touches_count :: "rmutex_frame option \<Rightarrow> bool" where
  "touches_count (Some (Rm_lock pc)) \<longleftrightarrow> pc = Rl_again \<or> pc = Rl_first"
| "touches_count (Some (Rm_try pc)) \<longleftrightarrow> pc = Rt_again \<or> pc = Rt_first"
| "touches_count (Some (Rm_unlock pc)) \<longleftrightarrow> pc = Ru_dec"
| "touches_count None \<longleftrightarrow> False"

lemma touches_mine:
  assumes "rmutex_view mine known c h q" and "touches_count q"
  shows mine
  using assms by (cases q rule: touches_count.cases) auto

text \<open>
  The lock count is an ordinary variable, accessed outside of any spinlock section: two
  threads are never both about to access it, and every other frame leaves it alone, so there is
  no data race on it.
\<close>

theorem Recursive_mutex_count_race_free:
  assumes "rmutex_step\<^sup>*\<^sup>* rmutex_start c"
  shows "(touches_count (th_call (thread_of c t)) \<and> touches_count (th_call (thread_of c u)) \<longrightarrow> t = u) \<and>
    (\<not> touches_count (Some f) \<longrightarrow>
      rm_count (snd (rmutex_code t f (shared c))) = rm_count (shared c))"
proof -
  obtain w where view: "\<forall>t. rmutex_view (w = Some t) (rm_tid (shared c) = Some t)
      (rm_count (shared c)) (th_held (thread_of c t)) (th_call (thread_of c t))"
    by (rule rmutex_reach_view [OF assms])
  have "w = Some t" if "touches_count (th_call (thread_of c t))" for t
    using touches_mine [OF spec [OF view] that] .
  moreover have "rm_count (snd (rmutex_code t f (shared c))) = rm_count (shared c)"
    if "\<not> touches_count (Some f)"
    using that by (cases "Some f" rule: touches_count.cases)
      (auto simp: rmutex_code_def in_frame_def Recursive_mutex_lock_def
        Recursive_mutex_try_lock_def Recursive_mutex_unlock_def
        split: rlock_pc.splits rtry_pc.splits runlock_pc.splits prod.splits sum.splits)
  ultimately show ?thesis by (metis option.inject)
qed

theorem Recursive_mutex_count_race_free_witness:
  "\<not> touches_count (Some (Rm_lock Rl_store)) \<and>
   rm_count (snd (rmutex_code 5 (Rm_lock Rl_store) (shared rmutex_twice))) = rm_count (shared rmutex_twice)"
  using Recursive_mutex_count_race_free [OF exec_sound [OF rmutex_twice_exec(1)], of 5 6 "Rm_lock Rl_store"]
  by simp

text \<open>
  C31: The outcome of the count operations in a reachable state. A repeated \<open>lock\<close> throws
  \<open>resource_unavailable_try_again\<close> exactly at depth 2 ^ 32 - 2 and leaves the count as it was, and
  otherwise raises it by one. \<open>unlock\<close> lowers it by one and goes on to clear the owner and release
  the spinlock exactly when the caller's last lock is given back.
\<close>

theorem Recursive_mutex_count_results:
  assumes "rmutex_step\<^sup>*\<^sup>* rmutex_start c"
  shows "(th_call (thread_of c t) = Some (Rm_lock Rl_again) \<longrightarrow>
      rmutex_code t (Rm_lock Rl_again) (shared c) =
        (if th_held (thread_of c t) = 2 ^ 32 - 2 then (Inr Rm_unavailable, shared c)
         else (Inr Rm_locked, (shared c)\<lparr>rm_count := rm_count (shared c) + 1\<rparr>))) \<and>
    (th_call (thread_of c t) = Some (Rm_unlock Ru_dec) \<longrightarrow>
      rmutex_code t (Rm_unlock Ru_dec) (shared c) =
        (if th_held (thread_of c t) = 0 then Inl (Rm_unlock Ru_clear) else Inr Rm_unlocked,
         (shared c)\<lparr>rm_count := rm_count (shared c) - 1\<rparr>))"
proof (intro conjI impI)
  obtain w where view: "\<forall>t. rmutex_view (w = Some t) (rm_tid (shared c) = Some t)
      (rm_count (shared c)) (th_held (thread_of c t)) (th_call (thread_of c t))"
    by (rule rmutex_reach_view [OF assms])
  show "rmutex_code t (Rm_lock Rl_again) (shared c) =
        (if th_held (thread_of c t) = 2 ^ 32 - 2 then (Inr Rm_unavailable, shared c)
         else (Inr Rm_locked, (shared c)\<lparr>rm_count := rm_count (shared c) + 1\<rparr>))"
    if "th_call (thread_of c t) = Some (Rm_lock Rl_again)"
  proof -
    have v: "unat (rm_count (shared c)) = th_held (thread_of c t)"
      "rm_count (shared c) \<noteq> max_rec_locks"
      using spec [OF view, of t] that by (simp_all add: rmutex_base_def)
    have "rm_full (rm_count (shared c)) \<longleftrightarrow> th_held (thread_of c t) = 2 ^ 32 - 2"
      unfolding rm_full_def v(1) by simp
    then show ?thesis using rmtx_inc_lc_ok [OF v(2)]
      by (simp add: rmutex_code_def in_frame_def Recursive_mutex_lock_def)
  qed
  show "rmutex_code t (Rm_unlock Ru_dec) (shared c) =
        (if th_held (thread_of c t) = 0 then Inl (Rm_unlock Ru_clear) else Inr Rm_unlocked,
         (shared c)\<lparr>rm_count := rm_count (shared c) - 1\<rparr>)"
    if "th_call (thread_of c t) = Some (Rm_unlock Ru_dec)"
  proof -
    have "unat (rm_count (shared c)) = Suc (th_held (thread_of c t))" using spec [OF view, of t] that by simp
    from unat_dec_zero [OF this] show ?thesis
      by (simp add: rmutex_code_def in_frame_def Recursive_mutex_unlock_def Let_def rmtx_dec_lc_def)
  qed
qed

definition rmutex_unlocking :: "(rmutex, nat, rmutex_frame, rmutex_result) conf" where
  "rmutex_unlocking = the (exec rmutex_calls rmutex_code rmutex_ret
     [(5, Some (Rm_unlock Ru_dec, 1))] rmutex_twice)"

theorem Recursive_mutex_count_results_witness:
  "fst (rmutex_code 5 (Rm_unlock Ru_dec) (shared rmutex_unlocking)) = Inr Rm_unlocked"
proof -
  have e: "exec rmutex_calls rmutex_code rmutex_ret
      [(5, Some (Rm_unlock Ru_dec, 1))] rmutex_twice = Some rmutex_unlocking"
    and t: "th_held (thread_of rmutex_unlocking 5) = 1"
      "th_call (thread_of rmutex_unlocking 5) = Some (Rm_unlock Ru_dec)"
    using rmutex_twice_exec(2,3)
    by (simp_all add: rmutex_unlocking_def exec_step_def rmutex_calls_def)
  have "rmutex_step\<^sup>*\<^sup>* rmutex_start rmutex_unlocking"
    using exec_sound [OF rmutex_twice_exec(1)] exec_sound [OF e] by (rule rtranclp_trans)
  from Recursive_mutex_count_results [OF this, of 5] t show ?thesis by simp
qed

end
