(* ===== verification/Timed_mutex.thy ===== *)
theory Timed_mutex
  imports Wakeup Recursive_mutex
begin

text \<open>
  \<open>Timed_mutex\<close> and \<open>Recursive_timed_mutex\<close> of \<open>mutex.hpp\<close> and \<open>mutex.cpp\<close>, as classes on the
  monitor of the theory Monitor: \<open>m_mtx\<close> is its mutex, \<open>m_cv\<close> its condition variable 0. The time
  points of \<open>try_lock_for\<close> and \<open>try_lock_until\<close> are arbitrary.
\<close>

section \<open>Timed_mutex\<close>

datatype timed_phase =
  Tm_lock | Tm_try | Tm_until time_point | Tm_woken time_point | Tm_end | Tm_unlock

datatype timed_result = Tm_locked bool | Tm_unlocked

type_synonym timed_out = "(timed_phase, timed_result) outcome \<times> bool"

text \<open>The data are the member \<open>m_locked\<close>.\<close>

definition Timed_mutex_lock :: "bool \<Rightarrow> timed_out" where
  "Timed_mutex_lock m_locked =
     wait_pred (\<not> m_locked) 0 Tm_lock m_locked (O_leave (Tm_locked True) [], True)"

definition Timed_mutex_try_lock :: "bool \<Rightarrow> timed_out" where
  "Timed_mutex_try_lock m_locked =
     (if \<not> m_locked then (O_leave (Tm_locked True) [], True)
      else (O_leave (Tm_locked False) [], m_locked))"

definition Timed_mutex_try_lock_until :: "time_point \<Rightarrow> timed_phase \<Rightarrow> bool \<Rightarrow> timed_out" where
  "Timed_mutex_try_lock_until now b m_locked = (case b of
       Tm_until tp \<Rightarrow>
         wait_until_pred now tp (\<not> m_locked) 0 (Tm_woken tp) m_locked (\<lambda>_. (O_goto Tm_end, m_locked))
     | Tm_woken tp \<Rightarrow>
         wait_until_woken now tp (\<not> m_locked) (Tm_until tp) m_locked (\<lambda>_. (O_goto Tm_end, m_locked))
     | _ \<Rightarrow> (if \<not> m_locked then (O_leave (Tm_locked True) [], True)
             else (O_leave (Tm_locked False) [], m_locked)))"

definition Timed_mutex_unlock :: "bool \<Rightarrow> timed_out" where
  "Timed_mutex_unlock m_locked = (O_leave Tm_unlocked [N_one 0], False)"

definition timed_body :: "(timed_phase, timed_result, bool) body" where
  "timed_body t now b m_locked = (case b of
       Tm_lock \<Rightarrow> Timed_mutex_lock m_locked
     | Tm_try \<Rightarrow> Timed_mutex_try_lock m_locked
     | Tm_unlock \<Rightarrow> Timed_mutex_unlock m_locked
     | _ \<Rightarrow> Timed_mutex_try_lock_until now b m_locked)"

definition timed_fail :: "timed_phase \<Rightarrow> timed_result" where
  "timed_fail b = Tm_locked False"

definition timed_calls :: "bool \<Rightarrow> (timed_phase, timed_result) mon_frame \<Rightarrow> bool \<Rightarrow> bool" where
  "timed_calls h f h' \<longleftrightarrow> (case f of
       M_lock (Tm_until tp) \<Rightarrow> h' = h
     | M_lock b \<Rightarrow> b = Tm_lock \<and> h' = h \<or> b = Tm_unlock \<and> h \<and> \<not> h'
     | M_try b \<Rightarrow> b = Tm_try \<and> h' = h
     | M_tick d \<Rightarrow> h' = h
     | _ \<Rightarrow> False)"

text \<open>The relative variant starts with a reading of the clock; it is one of the calls.\<close>

definition Timed_mutex_try_lock_for :: "int \<Rightarrow> time_point \<Rightarrow> (timed_phase, timed_result) mon_frame" where
  "Timed_mutex_try_lock_for rel_time now = M_lock (Tm_until (now + rel_time))"

lemma Timed_mutex_try_lock_for_call: "timed_calls h (Timed_mutex_try_lock_for rel_time now) h"
  by (simp add: timed_calls_def Timed_mutex_try_lock_for_def)

definition timed_ret :: "timed_result mon_result \<Rightarrow> bool \<Rightarrow> bool" where
  "timed_ret r h = (case r of Mon_done (Tm_locked b) \<Rightarrow> h \<or> b | _ \<Rightarrow> h)"

definition timed_dinv :: "tid option \<Rightarrow> bool \<Rightarrow> bool" where
  "timed_dinv w m_locked \<longleftrightarrow> (m_locked \<longleftrightarrow> w \<noteq> None)"

definition timed_dok ::
  "tid option \<Rightarrow> tid \<Rightarrow> bool \<Rightarrow> (timed_phase, timed_result) op_stage \<Rightarrow> bool" where
  "timed_dok w t h s \<longleftrightarrow> (case s of
       St_to b \<Rightarrow> (if b = Tm_unlock then w = Some t \<and> \<not> h else h \<longleftrightarrow> w = Some t)
     | St_wait b \<Rightarrow> b \<noteq> Tm_unlock \<and> (h \<longleftrightarrow> w = Some t)
     | St_try b \<Rightarrow> b = Tm_try \<and> (h \<longleftrightarrow> w = Some t)
     | St_done (Tm_locked b) \<Rightarrow> h \<or> b \<longleftrightarrow> w = Some t
     | _ \<Rightarrow> h \<longleftrightarrow> w = Some t)"

lemmas timed_defs = wait_defs timed_body_def Timed_mutex_lock_def Timed_mutex_try_lock_def
  Timed_mutex_try_lock_until_def Timed_mutex_unlock_def timed_dinv_def timed_dok_def

lemma timed_dok_other:
  "(w' = Some u) = (w = Some u) \<Longrightarrow> timed_dok w' u k s = timed_dok w u k s"
  by (simp add: timed_dok_def split: op_stage.split timed_result.split)

lemma timed_body_ok:
  assumes "timed_dinv w d" and "timed_dok w t h (St_to b)" and "timed_body t n b d = (out, d')"
  shows "\<exists>w'. timed_dinv w' d' \<and> timed_dok w' t h (stage_after out) \<and>
    (\<forall>u k s. u \<noteq> t \<longrightarrow> timed_dok w u k s \<longrightarrow> timed_dok w' u k s)"
proof -
  define w' where "w' = (if b = Tm_unlock then None else if \<not> d \<and> d' then Some t else w)"
  have "(w' = Some u) = (w = Some u)" if "u \<noteq> t" for u
    using that assms(1,2) by (auto simp: timed_dinv_def timed_dok_def w'_def split: if_splits)
  then have "\<forall>u k s. u \<noteq> t \<longrightarrow> timed_dok w u k s \<longrightarrow> timed_dok w' u k s"
    using timed_dok_other by blast
  moreover have "timed_dinv w' d' \<and> timed_dok w' t h (stage_after out)"
    using assms by (cases b) (auto simp: timed_defs w'_def split: if_splits)
  ultimately show ?thesis by blast
qed

interpretation tm: wake_one timed_calls timed_body timed_fail timed_ret timed_dinv timed_dok
  0 "\<lambda>m_locked. m_locked" "\<lambda>_. True"
proof
  show "timed_calls h f h' \<Longrightarrow> (\<exists>b. f = M_lock b \<or> f = M_try b) \<or> (\<exists>d. f = M_tick d)" for h f h'
    by (auto simp: timed_calls_def split: mon_frame.splits)
  show "timed_dok w t h St_out \<Longrightarrow> timed_calls h f h' \<Longrightarrow> timed_dok w t h' (stage (Some f))"
    for w t h f h'
    by (auto simp: timed_calls_def timed_dok_def split: mon_frame.splits timed_phase.splits)
  show "timed_ret Mon_ticked h = h" for h by (simp add: timed_ret_def)
  show "timed_dok w t h (St_try b) \<Longrightarrow> timed_dok w t h (St_to b)" for w t h b
    by (simp add: timed_dok_def)
  show "timed_dok w t h (St_wait b) \<Longrightarrow> timed_dok w t h (St_to b)" for w t h b
    by (simp add: timed_dok_def)
  show "timed_dok w t h (St_try b) \<Longrightarrow> timed_dok w t (timed_ret (Mon_done (timed_fail b)) h) St_out"
    for w t h b by (simp add: timed_dok_def timed_ret_def timed_fail_def)
  show "timed_dok w t h (St_done r) \<Longrightarrow> timed_dok w t (timed_ret (Mon_done r) h) St_out" for w t h r
    by (simp add: timed_dok_def timed_ret_def split: timed_result.splits)
  show "timed_body t n b d = (O_wait g tp b', d') \<Longrightarrow>
      if g = 0 then True \<and> d' else d' \<or> \<not> True \<and> \<not> d" for t n b d g tp b' d'
    by (auto simp: timed_defs split: timed_phase.splits if_splits)
  show "timed_body t n b d = (O_leave r ns, d') \<Longrightarrow> d' \<or> wakes 0 ns \<or> \<not> True \<and> \<not> d \<or>
      (\<forall>u k b'. u \<noteq> t \<longrightarrow> True \<longrightarrow> \<not> timed_dok w u k (St_wait b'))" for w t n b d r ns d'
    by (auto simp: timed_defs wakes_def split: timed_phase.splits if_splits)
qed ((rule timed_body_ok; assumption) | simp)+

abbreviation timed_start where
  "timed_start \<equiv> mon_start (\<lambda>_. False) False"

lemma timed_start_owned: "tm.owned None timed_start"
  by (rule tm.start_owned) (simp_all add: timed_dinv_def timed_dok_def)

subsection \<open>Properties\<close>

text \<open>
  C32: \<open>Timed_mutex\<close>: two threads never hold it at once, however they took it; its inner mutex never
  reports a deadlock; and no wake-up is lost: when every thread is outside or asleep without a
  notification and before its time, and some thread is asleep in \<open>lock\<close> or \<open>try_lock_until\<close>, then
  the mutex is locked and a client holds it.
\<close>

theorem Timed_mutex_correct:
  assumes "tm.sys\<^sup>*\<^sup>* timed_start c"
  shows "(th_held (thread_of c t) \<and> th_held (thread_of c u) \<longrightarrow> t = u) \<and>
    (th_call (thread_of c t) = Some f \<longrightarrow>
      fst (mon_code timed_body timed_fail t f (shared c)) \<noteq> Inr Mon_deadlock) \<and>
    (at_rest c \<and> waits_at 0 c t \<longrightarrow>
      mon_data (shared c) \<and> (\<exists>v. th_held (thread_of c v)))"
proof -
  obtain w where w: "tm.owned w c" by (rule tm.reach_owned [OF assms timed_start_owned])
  have view: "timed_dok w v (th_held (thread_of c v)) (stage (th_call (thread_of c v)))"
    "timed_dinv w (mon_data (shared c))" for v
    using w by (simp_all add: tm.owned_def tm.ok_def tm.minv_def)
  have "w = Some v" if "th_held (thread_of c v)" for v
    using view(1) [of v] that by (auto simp: timed_dok_def split: op_stage.splits if_splits timed_result.splits)
  moreover have "mon_data (shared c) \<and> (\<exists>v. th_held (thread_of c v))"
    if rest: "at_rest c" "waits_at 0 c t"
  proof -
    have l: "mon_data (shared c)" using tm.no_lost_wakeup [OF assms timed_start_owned rest] .
    then obtain v where v: "w = Some v" using view(2) by (auto simp: timed_dinv_def)
    have f: "at_rest_frame (shared c) v (th_call (thread_of c v))"
      using rest(1) by (simp add: at_rest_def)
    have "th_held (thread_of c v)"
      using f view(1) [of v] v
      by (cases "(shared c, v, th_call (thread_of c v))" rule: at_rest_frame.cases)
        (auto simp: timed_dok_def split: if_splits)
    with l show ?thesis by blast
  qed
  ultimately show ?thesis using tm.no_deadlock_error [OF w] by (metis option.inject)
qed

text \<open>Thread 1 locks, thread 2 calls \<open>lock\<close> and falls asleep.\<close>

definition timed_ex :: "(bool mon, bool, (timed_phase, timed_result) mon_frame, timed_result mon_result) conf" where
  "timed_ex = the (exec timed_calls (mon_code timed_body timed_fail) timed_ret
     ((1, Some (M_lock Tm_lock, False)) # replicate 4 (1, None) @
      (2, Some (M_lock Tm_lock, False)) # replicate 5 (2, None)) timed_start)"

theorem Timed_mutex_correct_witness: "\<exists>v. th_held (thread_of timed_ex v)"
proof -
  have e: "exec timed_calls (mon_code timed_body timed_fail) timed_ret
     ((1, Some (M_lock Tm_lock, False)) # replicate 4 (1, None) @
      (2, Some (M_lock Tm_lock, False)) # replicate 5 (2, None)) timed_start = Some timed_ex"
    and "at_rest timed_ex" "waits_at 0 timed_ex 2"
    by (simp_all add: timed_ex_def timed_defs timed_calls_def timed_ret_def mon_exec_defs
        at_rest_def waits_at_def numeral_eq_Suc)
  then show ?thesis using Timed_mutex_correct [OF exec_sound [OF e], of 2] by blast
qed

section \<open>Recursive_timed_mutex\<close>

datatype rtimed_phase =
  Rt_lock | Rt_wait | Rt_try | Rt_until time_point | Rt_pred time_point | Rt_woken time_point
  | Rt_end | Rt_unlock

datatype rtimed_result = Rt_locked bool | Rt_unavailable | Rt_unlocked

text \<open>The data are the members \<open>m_tid\<close> and \<open>m_locks_count\<close>.\<close>

type_synonym rtimed = "tid option \<times> u32"
type_synonym rtimed_out = "(rtimed_phase, rtimed_result) outcome \<times> rtimed"

definition Recursive_timed_mutex_lock :: "tid \<Rightarrow> rtimed_phase \<Rightarrow> rtimed \<Rightarrow> rtimed_out" where
  "Recursive_timed_mutex_lock this_tid b d = (case d of (m_tid, m_locks_count) \<Rightarrow>
     (let take = (let (ok, c) = rmtx_inc_lc m_locks_count
        in (O_leave (if ok then Rt_locked True else Rt_unavailable) [], (Some this_tid, c)))
      in if b = Rt_lock then (if m_tid \<noteq> Some this_tid then (O_goto Rt_wait, d) else take)
         else wait_pred (m_locks_count = 0) 0 Rt_wait d take))"

definition Recursive_timed_mutex_try_lock :: "tid \<Rightarrow> rtimed \<Rightarrow> rtimed_out" where
  "Recursive_timed_mutex_try_lock this_tid d = (case d of (m_tid, m_locks_count) \<Rightarrow>
     (if m_locks_count = 0 \<or> m_tid = Some this_tid
      then let (ok, c) = rmtx_inc_lc m_locks_count
        in (O_leave (Rt_locked ok) [], (if ok then Some this_tid else m_tid, c))
      else (O_leave (Rt_locked False) [], d)))"

definition Recursive_timed_mutex_try_lock_until ::
  "tid \<Rightarrow> time_point \<Rightarrow> rtimed_phase \<Rightarrow> rtimed \<Rightarrow> rtimed_out" where
  "Recursive_timed_mutex_try_lock_until this_tid now b d = (case d of (m_tid, m_locks_count) \<Rightarrow>
     (case b of
       Rt_until tp \<Rightarrow>
         (if m_tid = Some this_tid
          then let (ok, c) = rmtx_inc_lc m_locks_count in (O_leave (Rt_locked ok) [], (m_tid, c))
          else (O_goto (Rt_pred tp), d))
     | Rt_pred tp \<Rightarrow>
         wait_until_pred now tp (m_locks_count = 0) 0 (Rt_woken tp) d (\<lambda>_. (O_goto Rt_end, d))
     | Rt_woken tp \<Rightarrow>
         wait_until_woken now tp (m_locks_count = 0) (Rt_pred tp) d (\<lambda>_. (O_goto Rt_end, d))
     | _ \<Rightarrow>
         (if m_locks_count = 0
          then (O_leave (Rt_locked True) [], (Some this_tid, snd (rmtx_inc_lc m_locks_count)))
          else (O_leave (Rt_locked False) [], d))))"

definition Recursive_timed_mutex_unlock :: "rtimed \<Rightarrow> rtimed_out" where
  "Recursive_timed_mutex_unlock d = (case d of (m_tid, m_locks_count) \<Rightarrow>
     (let c = rmtx_dec_lc m_locks_count
      in if c = 0 then (O_leave Rt_unlocked [N_one 0], (None, c))
         else (O_leave Rt_unlocked [], (m_tid, c))))"

definition rtimed_body :: "(rtimed_phase, rtimed_result, rtimed) body" where
  "rtimed_body t now b d = (case b of
       Rt_lock \<Rightarrow> Recursive_timed_mutex_lock t b d
     | Rt_wait \<Rightarrow> Recursive_timed_mutex_lock t b d
     | Rt_try \<Rightarrow> Recursive_timed_mutex_try_lock t d
     | Rt_unlock \<Rightarrow> Recursive_timed_mutex_unlock d
     | _ \<Rightarrow> Recursive_timed_mutex_try_lock_until t now b d)"

definition rtimed_fail :: "rtimed_phase \<Rightarrow> rtimed_result" where
  "rtimed_fail b = Rt_locked False"

definition rtimed_calls :: "nat \<Rightarrow> (rtimed_phase, rtimed_result) mon_frame \<Rightarrow> nat \<Rightarrow> bool" where
  "rtimed_calls h f h' \<longleftrightarrow> (case f of
       M_lock (Rt_until tp) \<Rightarrow> h' = h
     | M_lock b \<Rightarrow> b = Rt_lock \<and> h' = h \<or> b = Rt_unlock \<and> h = Suc h'
     | M_try b \<Rightarrow> b = Rt_try \<and> h' = h
     | M_tick d \<Rightarrow> h' = h
     | _ \<Rightarrow> False)"

definition Recursive_timed_mutex_try_lock_for ::
  "int \<Rightarrow> time_point \<Rightarrow> (rtimed_phase, rtimed_result) mon_frame" where
  "Recursive_timed_mutex_try_lock_for rel_time now = M_lock (Rt_until (now + rel_time))"

lemma Recursive_timed_mutex_try_lock_for_call:
  "rtimed_calls h (Recursive_timed_mutex_try_lock_for rel_time now) h"
  by (simp add: rtimed_calls_def Recursive_timed_mutex_try_lock_for_def)

definition rtimed_ret :: "rtimed_result mon_result \<Rightarrow> nat \<Rightarrow> nat" where
  "rtimed_ret r h = (case r of Mon_done (Rt_locked b) \<Rightarrow> (if b then Suc h else h) | _ \<Rightarrow> h)"

text \<open>The ghost: the owner and how many times it has locked.\<close>

definition rtimed_dinv :: "(tid \<times> nat) option \<Rightarrow> rtimed \<Rightarrow> bool" where
  "rtimed_dinv w d \<longleftrightarrow> (case w of None \<Rightarrow> d = (None, 0)
     | Some (u, n) \<Rightarrow> fst d = Some u \<and> unat (snd d) = n \<and> 0 < n \<and> snd d \<noteq> max_rec_locks)"

definition depth_of :: "(tid \<times> nat) option \<Rightarrow> tid \<Rightarrow> nat" where
  "depth_of w t = (case w of None \<Rightarrow> 0 | Some (u, n) \<Rightarrow> if u = t then n else 0)"

definition rtimed_dok ::
  "(tid \<times> nat) option \<Rightarrow> tid \<Rightarrow> nat \<Rightarrow> (rtimed_phase, rtimed_result) op_stage \<Rightarrow> bool" where
  "rtimed_dok w t h s \<longleftrightarrow> (case s of
       St_to b \<Rightarrow> depth_of w t = (if b = Rt_unlock then Suc h else h) \<and>
         (b = Rt_wait \<or> (\<exists>tp. b = Rt_pred tp \<or> b = Rt_woken tp) \<or> b = Rt_end \<longrightarrow> h = 0)
     | St_wait b \<Rightarrow> (b = Rt_wait \<or> (\<exists>tp. b = Rt_woken tp)) \<and> h = 0 \<and> depth_of w t = h
     | St_try b \<Rightarrow> b = Rt_try \<and> depth_of w t = h
     | St_done (Rt_locked b) \<Rightarrow> depth_of w t = (if b then Suc h else h)
     | _ \<Rightarrow> depth_of w t = h)"

lemma rtimed_dok_other: "depth_of w' u = depth_of w u \<Longrightarrow> rtimed_dok w' u k s = rtimed_dok w u k s"
  by (simp add: rtimed_dok_def split: op_stage.split rtimed_result.split)

lemma rtimed_inc:
  assumes "rtimed_dinv w (m_tid, c)" and "depth_of w t = h" and "c = 0 \<or> m_tid = Some t"
    and "rmtx_inc_lc c = (inc, c')"
  shows "(if inc then rtimed_dinv (Some (t, Suc h)) (Some t, c') else c' = c \<and> m_tid = Some t) \<and>
    c' \<noteq> 0 \<and> (\<forall>u. u \<noteq> t \<longrightarrow> depth_of w u = 0)"
proof (cases w)
  case None
  then show ?thesis using assms
    by (auto simp: rtimed_dinv_def depth_of_def rmtx_first max_rec_locks_def)
next
  case (Some p)
  obtain u n where p: "p = (u, n)" by fastforce
  have u: "m_tid = Some u" "unat c = n" "0 < n" "c \<noteq> max_rec_locks"
    using assms(1) Some p by (simp_all add: rtimed_dinv_def)
  then have t: "u = t" "h = n" using assms(2,3) Some p by (auto simp: depth_of_def)
  have nz: "c \<noteq> 0" "c + 1 \<noteq> 0"
    using u(2-4) by (auto simp: max_rec_locks_def eq_neg_iff_add_eq_0)
  note inc = rmtx_inc_lc_ok [OF u(4)]
  show ?thesis
  proof (cases "rm_full c")
    case True
    then show ?thesis using inc assms(4) u(1) t nz Some p by (auto simp: depth_of_def)
  next
    case False
    then show ?thesis using inc assms(4) u t nz Some p by (auto simp: depth_of_def rtimed_dinv_def)
  qed
qed

lemmas rtimed_defs = wait_defs rtimed_body_def Recursive_timed_mutex_lock_def
  Recursive_timed_mutex_try_lock_def Recursive_timed_mutex_try_lock_until_def
  Recursive_timed_mutex_unlock_def

definition rtimed_change where
  "rtimed_change w t h out d' \<longleftrightarrow> (\<exists>w'. rtimed_dinv w' d' \<and> rtimed_dok w' t h (stage_after out) \<and>
     (\<forall>u. u \<noteq> t \<longrightarrow> depth_of w' u = depth_of w u)) \<and>
   (case out of O_wait g tp b' \<Rightarrow> snd d' \<noteq> 0 | O_goto b' \<Rightarrow> True
      | O_leave r ns \<Rightarrow> snd d' \<noteq> 0 \<or> wakes 0 ns)"

lemma rtimed_same:
  assumes "rtimed_dinv w d" and "rtimed_dok w t h (stage_after out)"
    and "case out of O_wait g tp b' \<Rightarrow> snd d \<noteq> 0 | O_goto b' \<Rightarrow> True
      | O_leave r ns \<Rightarrow> snd d \<noteq> 0 \<or> wakes 0 ns"
  shows "rtimed_change w t h out d"
  using assms unfolding rtimed_change_def by blast

lemma rtimed_taken:
  assumes "rtimed_dinv w (m_tid, c)" and "depth_of w t = h" and "c = 0 \<or> m_tid = Some t"
    and "rmtx_inc_lc c = (inc, c')" and "tid' = Some t \<or> \<not> inc \<and> tid' = m_tid"
    and "r = (if inc then Rt_locked True else r')" and "r' = Rt_unavailable \<or> r' = Rt_locked False"
  shows "rtimed_change w t h (O_leave r []) (tid', c')"
proof -
  note i = rtimed_inc [OF assms(1-4)]
  show ?thesis
  proof (cases inc)
    case True
    then show ?thesis using i assms unfolding rtimed_change_def
      by (auto simp: rtimed_dok_def depth_of_def intro!: exI [of _ "Some (t, Suc h)"])
  next
    case False
    then show ?thesis using i assms unfolding rtimed_change_def
      by (auto simp: rtimed_dok_def intro!: exI [of _ w])
  qed
qed

lemma rtimed_released:
  assumes "rtimed_dinv w (m_tid, c)" and "depth_of w t = Suc h"
  shows "rtimed_change w t h (fst (Recursive_timed_mutex_unlock (m_tid, c)))
    (snd (Recursive_timed_mutex_unlock (m_tid, c)))"
proof -
  have w: "w = Some (t, Suc h)" using assms(2) by (auto simp: depth_of_def split: option.splits if_splits)
  then have c: "m_tid = Some t" "unat c = Suc h" "c \<noteq> max_rec_locks"
    using assms(1) by (simp_all add: rtimed_dinv_def)
  have "rmtx_dec_lc c \<noteq> max_rec_locks"
    using c(2) u32_unat_less [of c] rmtx_dec_lc_ok [OF c(2)]
    by (auto simp: word_unat_eq_iff max_rec_locks_def u32_unat_max)
  then show ?thesis
    using w c unat_dec_zero [OF c(2)] rmtx_dec_lc_ok [OF c(2)]
    unfolding rtimed_change_def
    by (cases "h = 0") (auto simp: Recursive_timed_mutex_unlock_def Let_def rtimed_dok_def
        rtimed_dinv_def depth_of_def wakes_def intro: exI [of _ None] exI [of _ "Some (t, h)"])
qed

lemma rtimed_body_change:
  assumes "rtimed_dinv w d" and "rtimed_dok w t h (St_to b)" and "rtimed_body t n b d = (out, d')"
  shows "rtimed_change w t h out d'"
proof -
  obtain m_tid c where d: "d = (m_tid, c)" by fastforce
  obtain inc c' where i: "rmtx_inc_lc c = (inc, c')" by fastforce
  note taken = rtimed_taken [OF assms(1) [unfolded d] _ _ i] and same = rtimed_same [OF assms(1) [unfolded d]]
  have h0: "b = Rt_unlock \<or> depth_of w t = h"
    using assms(2) by (auto simp: rtimed_dok_def split: if_splits)
  have free: "h = 0" if "m_tid \<noteq> Some t" "b \<noteq> Rt_unlock"
    using assms(1) h0 that d by (auto simp: depth_of_def rtimed_dinv_def split: option.splits if_splits)
  note facts = assms(2,3) d i h0 free
  show ?thesis
  proof (cases b)
    case Rt_lock
    then show ?thesis using facts
      by (cases "m_tid = Some t") (auto simp: rtimed_defs rtimed_dok_def intro!: taken same)
  next
    case Rt_wait
    then show ?thesis using facts
      by (cases "c = 0") (auto simp: rtimed_defs rtimed_dok_def intro!: taken same)
  next
    case Rt_try
    then show ?thesis using facts
      by (cases "c = 0 \<or> m_tid = Some t") (auto simp: rtimed_defs rtimed_dok_def intro!: taken same)
  next
    case (Rt_until tp)
    then show ?thesis using facts
      by (cases "m_tid = Some t") (auto simp: rtimed_defs rtimed_dok_def intro!: taken same)
  next
    case Rt_end
    moreover have "c = 0 \<Longrightarrow> inc" using i by (simp add: rmtx_first)
    ultimately show ?thesis using facts
      by (cases "c = 0") (auto simp: rtimed_defs rtimed_dok_def intro!: taken same)
  next
    case Rt_unlock
    then have "depth_of w t = Suc h" using assms(2) by (simp add: rtimed_dok_def)
    from rtimed_released [OF assms(1) [unfolded d] this] show ?thesis
      using assms(3) d Rt_unlock by (simp add: rtimed_body_def)
  qed (use assms d in \<open>auto simp: rtimed_defs rtimed_dok_def intro!: rtimed_same split: if_splits\<close>)
qed

interpretation rtm: wake_one rtimed_calls rtimed_body rtimed_fail rtimed_ret rtimed_dinv rtimed_dok
  0 "\<lambda>d. snd d \<noteq> 0" "\<lambda>_. True"
proof
  show "rtimed_calls h f h' \<Longrightarrow> (\<exists>b. f = M_lock b \<or> f = M_try b) \<or> (\<exists>d. f = M_tick d)" for h f h'
    by (auto simp: rtimed_calls_def split: mon_frame.splits)
  show "rtimed_dok w t h St_out \<Longrightarrow> rtimed_calls h f h' \<Longrightarrow> rtimed_dok w t h' (stage (Some f))"
    for w t h f h'
    by (auto simp: rtimed_calls_def rtimed_dok_def split: mon_frame.splits rtimed_phase.splits)
  show "rtimed_ret Mon_ticked h = h" for h by (simp add: rtimed_ret_def)
  show "rtimed_dok w t h (St_try b) \<Longrightarrow> rtimed_dok w t h (St_to b)" for w t h b
    by (simp add: rtimed_dok_def)
  show "rtimed_dok w t h (St_wait b) \<Longrightarrow> rtimed_dok w t h (St_to b)" for w t h b
    by (auto simp: rtimed_dok_def)
  show "rtimed_dok w t h (St_try b) \<Longrightarrow>
      rtimed_dok w t (rtimed_ret (Mon_done (rtimed_fail b)) h) St_out" for w t h b
    by (simp add: rtimed_dok_def rtimed_ret_def rtimed_fail_def)
  show "rtimed_dok w t h (St_done r) \<Longrightarrow> rtimed_dok w t (rtimed_ret (Mon_done r) h) St_out" for w t h r
    by (simp add: rtimed_dok_def rtimed_ret_def split: rtimed_result.splits)
  fix w d t h b n out d'
  assume a: "rtimed_dinv w d" "rtimed_dok w t h (St_to b)"
  show "rtimed_body t n b d = (out, d') \<Longrightarrow> \<exists>w'. rtimed_dinv w' d' \<and>
      rtimed_dok w' t h (stage_after out) \<and>
      (\<forall>u k s. u \<noteq> t \<longrightarrow> rtimed_dok w u k s \<longrightarrow> rtimed_dok w' u k s)"
    using rtimed_body_change [OF a] rtimed_dok_other unfolding rtimed_change_def by metis
  show "rtimed_body t n b d = (O_wait g tp b', d') \<Longrightarrow>
      if g = 0 then True \<and> snd d' \<noteq> 0 else snd d' \<noteq> 0 \<or> \<not> True \<and> \<not> snd d \<noteq> 0" for g tp b'
    using rtimed_body_change [OF a] by (fastforce simp: rtimed_change_def)
  show "rtimed_body t n b d = (O_leave r ns, d') \<Longrightarrow>
      snd d' \<noteq> 0 \<or> wakes 0 ns \<or> \<not> True \<and> \<not> snd d \<noteq> 0 \<or>
      (\<forall>u k b'. u \<noteq> t \<longrightarrow> True \<longrightarrow> \<not> rtimed_dok w u k (St_wait b'))" for r ns
    using rtimed_body_change [OF a] by (fastforce simp: rtimed_change_def)
qed simp

abbreviation rtimed_start where
  "rtimed_start \<equiv> mon_start (\<lambda>_. 0) (None, 0)"

lemma rtimed_start_owned: "rtm.owned None rtimed_start"
  by (rule rtm.start_owned) (simp_all add: rtimed_dinv_def rtimed_dok_def depth_of_def)

subsection \<open>Properties\<close>

lemma rtimed_held_depth:
  assumes "rtimed_dok w t h s" shows "h \<le> depth_of w t"
  using assms by (cases s) (auto simp: rtimed_dok_def split: if_splits rtimed_result.splits)

lemma rtimed_rest_depth:
  assumes "rtimed_dok w t h (stage q)" and "at_rest_frame m t q" shows "h = depth_of w t"
  using assms by (cases "(m, t, q)" rule: at_rest_frame.cases) (auto simp: rtimed_dok_def)

text \<open>
  C33: \<open>Recursive_timed_mutex\<close>: two threads never hold it at once; for a thread outside of calls
  that holds it, the stored count is its lock depth, at most 2 ^ 32 - 2, and its id is stored; and
  no wake-up is lost: when every thread is outside or asleep for good and one waits for the
  mutex, some client holds it.
\<close>

theorem Recursive_timed_mutex_correct:
  assumes "rtm.sys\<^sup>*\<^sup>* rtimed_start c"
  shows "(0 < th_held (thread_of c t) \<and> 0 < th_held (thread_of c u) \<longrightarrow> t = u) \<and>
    (th_call (thread_of c t) = None \<and> 0 < th_held (thread_of c t) \<longrightarrow>
      fst (mon_data (shared c)) = Some t \<and>
      unat (snd (mon_data (shared c))) = th_held (thread_of c t) \<and>
      th_held (thread_of c t) \<le> 2 ^ 32 - 2) \<and>
    (at_rest c \<and> waits_at 0 c t \<longrightarrow> (\<exists>v. 0 < th_held (thread_of c v)))"
proof -
  obtain w where w: "rtm.owned w c" by (rule rtm.reach_owned [OF assms rtimed_start_owned])
  have view: "rtimed_dok w v (th_held (thread_of c v)) (stage (th_call (thread_of c v)))"
    "rtimed_dinv w (mon_data (shared c))" for v
    using w by (simp_all add: rtm.owned_def rtm.ok_def rtm.minv_def)
  have own: "\<exists>n. w = Some (v, n)" if "0 < th_held (thread_of c v)" for v
    using rtimed_held_depth [OF view(1) [of v]] that
    by (auto simp: depth_of_def split: option.splits if_splits)
  have "fst (mon_data (shared c)) = Some t \<and>
      unat (snd (mon_data (shared c))) = th_held (thread_of c t) \<and> th_held (thread_of c t) \<le> 2 ^ 32 - 2"
    if out: "th_call (thread_of c t) = None" "0 < th_held (thread_of c t)"
  proof -
    obtain n where n: "w = Some (t, n)" using own [OF out(2)] by blast
    moreover have "n = th_held (thread_of c t)"
      using view(1) [of t] out(1) n by (simp add: rtimed_dok_def depth_of_def)
    ultimately have m: "fst (mon_data (shared c)) = Some t" "snd (mon_data (shared c)) \<noteq> max_rec_locks"
      "unat (snd (mon_data (shared c))) = th_held (thread_of c t)"
      using view(2) by (auto simp: rtimed_dinv_def)
    have "unat (snd (mon_data (shared c))) \<noteq> 2 ^ 32 - 1"
      using m(2) by (simp add: word_unat_eq_iff max_rec_locks_def u32_unat_max)
    then show ?thesis using m u32_unat_less [of "snd (mon_data (shared c))"] by simp
  qed
  moreover have "\<exists>v. 0 < th_held (thread_of c v)" if rest: "at_rest c" "waits_at 0 c t"
  proof -
    have "snd (mon_data (shared c)) \<noteq> 0"
      using rtm.no_lost_wakeup [OF assms rtimed_start_owned rest] .
    then obtain v n where v: "w = Some (v, n)" "0 < n"
      using view(2) by (auto simp: rtimed_dinv_def split: option.splits)
    have "th_held (thread_of c v) = depth_of w v"
      using rtimed_rest_depth view(1) rest(1) unfolding at_rest_def by blast
    then show ?thesis using v by (auto simp: depth_of_def)
  qed
  ultimately show ?thesis using own [of t] own [of u] by fastforce
qed

text \<open>Thread 1 locks twice, thread 2 calls \<open>lock\<close> and falls asleep.\<close>

definition rtimed_ex :: "(rtimed mon, nat, (rtimed_phase, rtimed_result) mon_frame, rtimed_result mon_result) conf" where
  "rtimed_ex = the (exec rtimed_calls (mon_code rtimed_body rtimed_fail) rtimed_ret
     ([(1, Some (M_lock Rt_lock, 0)), (1, None), (1, None), (1, None), (1, None), (1, None)] @
      [(1, Some (M_try Rt_try, 1)), (1, None), (1, None), (1, None), (1, None)] @
      [(2, Some (M_lock Rt_lock, 0)), (2, None), (2, None), (2, None), (2, None), (2, None), (2, None)]) rtimed_start)"

theorem Recursive_timed_mutex_correct_witness:
  "unat (snd (mon_data (shared rtimed_ex))) = 2 \<and> (\<exists>v. 0 < th_held (thread_of rtimed_ex v))"
proof -
  have e: "exec rtimed_calls (mon_code rtimed_body rtimed_fail) rtimed_ret
     ([(1, Some (M_lock Rt_lock, 0)), (1, None), (1, None), (1, None), (1, None), (1, None)] @
      [(1, Some (M_try Rt_try, 1)), (1, None), (1, None), (1, None), (1, None)] @
      [(2, Some (M_lock Rt_lock, 0)), (2, None), (2, None), (2, None), (2, None), (2, None), (2, None)]) rtimed_start = Some rtimed_ex"
    and "at_rest rtimed_ex" "waits_at 0 rtimed_ex 2" "th_held (thread_of rtimed_ex 1) = 2"
    "th_call (thread_of rtimed_ex 1) = None"
    by (simp_all add: rtimed_ex_def rtimed_defs rtimed_calls_def rtimed_ret_def mon_exec_defs
        at_rest_def waits_at_def rmtx_inc_lc_def max_rec_locks_def)
  then show ?thesis
    using Recursive_timed_mutex_correct [OF exec_sound [OF e], of 2]
      Recursive_timed_mutex_correct [OF exec_sound [OF e], of 1] by auto
qed

end
