(* ===== verification/Shared_mutex.thy ===== *)
theory Shared_mutex
  imports Wakeup
begin

unbundle bit_operations_syntax

text \<open>
  \<open>Shared_mutex\<close> and \<open>Shared_timed_mutex\<close> of \<open>shared_mutex.hpp\<close> and \<open>shared_mutex.cpp\<close>, as one
  class on the monitor of the theory Monitor: its gates 1 and 2 are the condition variables 1 and
  2. The packed 32-bit state is modelled bit by bit.
\<close>

section \<open>Shared_mutex_state\<close>

definition readers_bits :: u32 where "readers_bits = 0x7FFFFFFF"
definition write_bits :: u32 where "write_bits = 0x80000000"

definition sm_readers :: "u32 \<Rightarrow> u32" where "sm_readers st = drop_bit 0 (st AND readers_bits)"
definition sm_write :: "u32 \<Rightarrow> u32" where "sm_write st = drop_bit 31 (st AND write_bits)"

definition has_readers :: "u32 \<Rightarrow> bool" where "has_readers st \<longleftrightarrow> sm_readers st \<noteq> 0"
definition has_write :: "u32 \<Rightarrow> bool" where "has_write st \<longleftrightarrow> sm_write st \<noteq> 0"
definition max_readers :: "u32 \<Rightarrow> bool" where "max_readers st \<longleftrightarrow> st AND readers_bits = readers_bits"
definition inc_readers :: "u32 \<Rightarrow> u32" where "inc_readers st = st + 1"
definition dec_readers :: "u32 \<Rightarrow> u32" where "dec_readers st = st - 1"
definition set_write :: "u32 \<Rightarrow> u32" where "set_write st = st OR write_bits"
definition unset_write :: "u32 \<Rightarrow> u32" where "unset_write st = st AND NOT write_bits"

definition readers_count :: "u32 \<Rightarrow> u32" where "readers_count st = sm_readers st"
definition unset_read :: "u32 \<Rightarrow> u32" where "unset_read st = st AND NOT readers_bits"
definition clear :: "u32 \<Rightarrow> u32" where "clear st = 0"

text \<open>What the bits mean: the write flag, and the number of readers.\<close>

definition sm_count :: "u32 \<Rightarrow> nat" where "sm_count st = unat (take_bit 31 st)"

lemma readers_bits_mask: "readers_bits = mask 31"
  by (simp add: readers_bits_def mask_eq_exp_minus_1)

lemma sm_readers_count: "sm_readers st = take_bit 31 st"
  by (simp add: sm_readers_def readers_bits_mask take_bit_eq_mask)

lemma unset_read_view:
  "\<not> has_readers (unset_read st)" "has_write (unset_read st) = has_write st"
  "\<not> has_readers (clear st)" "\<not> has_write (clear st)" "unat (readers_count st) = sm_count st"
proof -
  have "NOT readers_bits AND readers_bits = 0" by (simp add: readers_bits_def)
  then have "(st AND NOT readers_bits) AND readers_bits = 0" by (simp add: and.assoc)
  then show "\<not> has_readers (unset_read st)" by (simp add: has_readers_def sm_readers_def unset_read_def)
  have "NOT readers_bits AND write_bits = write_bits"
    by (simp add: readers_bits_def write_bits_def)
  then have "(st AND NOT readers_bits) AND write_bits = st AND write_bits" by (simp add: and.assoc)
  then show "has_write (unset_read st) = has_write st" by (simp add: has_write_def sm_write_def unset_read_def)
  show "\<not> has_readers (clear st)" "\<not> has_write (clear st)"
    by (simp_all add: clear_def has_readers_def has_write_def sm_readers_def sm_write_def)
  show "unat (readers_count st) = sm_count st"
    by (simp add: readers_count_def sm_readers_count sm_count_def)
qed

lemma has_readers_count: "has_readers st \<longleftrightarrow> sm_count st \<noteq> 0"
  by (simp add: has_readers_def sm_readers_count sm_count_def unat_eq_0)

lemma write_bits_exp: "write_bits = 2 ^ 31"
  by (simp add: write_bits_def)

lemma bit_write_bits: "bit write_bits n \<longleftrightarrow> n = 31"
  unfolding write_bits_exp bit_exp_iff by auto

lemma has_write_bit: "has_write st \<longleftrightarrow> bit st 31"
proof -
  have "bit (sm_write st) n \<longleftrightarrow> n = 0 \<and> bit st 31" for n
    by (auto simp: sm_write_def bit_simps bit_write_bits)
  then have "sm_write st = (if bit st 31 then 1 else 0)"
    by (intro bit_eqI) (simp add: bit_1_iff)
  then show ?thesis by (simp add: has_write_def)
qed

lemma sm_count_mod: "sm_count st = unat st mod 2 ^ 31"
  by (simp only: sm_count_def unsigned_take_bit_eq) (simp only: take_bit_eq_mod)

lemma unat_state: "unat st = sm_count st + (if has_write st then 2 ^ 31 else 0)"
proof -
  have "bit st 31 \<longleftrightarrow> bit (unat st) 31" by (simp only: bit_unsigned_iff possible_bit_def) simp
  then have "bit st 31 \<longleftrightarrow> odd (unat st div 2 ^ 31)" by (simp only: bit_iff_odd)
  moreover have "unat st div 2 ^ 31 < 2" using u32_unat_less [of st] by simp
  ultimately have "unat st div 2 ^ 31 = (if has_write st then 1 else 0)"
    unfolding has_write_bit by (auto simp only: less_2_cases_iff) auto
  moreover have "2 ^ 31 * (unat st div 2 ^ 31) + sm_count st = unat st"
    unfolding sm_count_mod by (rule mult_div_mod_eq)
  ultimately show ?thesis by (cases "has_write st") simp_all
qed

lemma max_readers_count: "max_readers st \<longleftrightarrow> sm_count st = 2 ^ 31 - 1"
proof -
  have "max_readers st \<longleftrightarrow> take_bit 31 st = mask 31"
    by (simp only: max_readers_def readers_bits_mask take_bit_eq_mask)
  also have "\<dots> \<longleftrightarrow> sm_count st = unat (mask 31 :: u32)"
    unfolding sm_count_def by (rule word_unat_eq_iff)
  also have "unat (mask 31 :: u32) = 2 ^ 31 - 1" by (simp add: mask_eq_exp_minus_1)
  finally show ?thesis .
qed

lemma sm_count_less: "sm_count st < 2 ^ 31"
  by (simp add: sm_count_mod)

lemma set_write_view [simp]: "has_write (set_write st)" "sm_count (set_write st) = sm_count st"
proof -
  show "has_write (set_write st)" by (simp add: has_write_bit set_write_def bit_simps bit_write_bits)
  have "take_bit 31 (set_write st) = take_bit 31 st"
    by (rule bit_eqI) (auto simp: set_write_def bit_simps bit_write_bits)
  then show "sm_count (set_write st) = sm_count st" by (simp add: sm_count_def)
qed

lemma unset_write_view [simp]: "\<not> has_write (unset_write st)" "sm_count (unset_write st) = sm_count st"
proof -
  show "\<not> has_write (unset_write st)"
    by (simp add: has_write_bit unset_write_def bit_simps bit_write_bits)
  have "take_bit 31 (unset_write st) = take_bit 31 st"
    by (rule bit_eqI) (auto simp: unset_write_def bit_simps bit_write_bits)
  then show "sm_count (unset_write st) = sm_count st" by (simp add: sm_count_def)
qed

lemma write_of_unat: "has_write st \<longleftrightarrow> 2 ^ 31 \<le> unat st"
  using unat_state [of st] sm_count_less [of st] by (auto split: if_splits)

lemma inc_readers_view:
  assumes "\<not> max_readers st"
  shows "has_write (inc_readers st) = has_write st \<and> sm_count (inc_readers st) = Suc (sm_count st)"
proof -
  have c: "sm_count st < 2 ^ 31 - 1"
    using assms max_readers_count [of st] sm_count_less [of st] by linarith
  then have "unat st \<noteq> 2 ^ 32 - 1" using unat_state [of st] by (auto split: if_splits)
  then have "st \<noteq> - 1" using u32_unat_max by auto
  then have u: "unat (inc_readers st) = Suc (unat st)" by (simp add: inc_readers_def u32_unat_inc)
  have "unat (inc_readers st) = Suc (sm_count st) + (if has_write st then 2 ^ 31 else 0)"
    using u unat_state [of st] by simp
  moreover have "(Suc (sm_count st) + (if has_write st then 2 ^ 31 else 0)) mod 2 ^ 31 = Suc (sm_count st)"
    using c by (cases "has_write st") (simp_all only: if_True if_False mod_add_self2, simp_all)
  ultimately show ?thesis using c
    by (cases "has_write st") (simp_all only: write_of_unat [of "inc_readers st"]
        sm_count_mod [of "inc_readers st"], simp_all)
qed

lemma dec_readers_view:
  assumes "has_readers st"
  shows "has_write (dec_readers st) = has_write st \<and> sm_count (dec_readers st) = sm_count st - 1"
proof -
  obtain k where k: "sm_count st = Suc k" using assms has_readers_count [of st] by (cases "sm_count st") auto
  then have "unat st = Suc (k + (if has_write st then 2 ^ 31 else 0))" using unat_state [of st] by simp
  then have u: "unat (dec_readers st) = k + (if has_write st then 2 ^ 31 else 0)"
    by (simp add: dec_readers_def u32_unat_dec)
  have "k < 2 ^ 31" using k sm_count_less [of st] by simp
  then show ?thesis using u k
    by (auto simp: write_of_unat [of "dec_readers st"] sm_count_mod [of "dec_readers st"])
qed

section \<open>The operations\<close>

datatype shared_phase =
  Sm_lock1 | Sm_lock2 | Sm_try | Sm_unlock | Sm_shared | Sm_try_shared | Sm_unlock_shared
  | Sm_until1 time_point | Sm_woken1 time_point | Sm_until2 time_point | Sm_woken2 time_point
  | Sm_sh_until time_point | Sm_sh_woken time_point

datatype shared_result = Sm_locked bool | Sm_shared_locked bool | Sm_unlocked

type_synonym shared_out = "(shared_phase, shared_result) outcome \<times> u32"

definition Shared_mutex_lock :: "shared_phase \<Rightarrow> u32 \<Rightarrow> shared_out" where
  "Shared_mutex_lock b m_state =
     (if b = Sm_lock1
      then wait_pred (\<not> has_write m_state) 1 Sm_lock1 m_state (O_goto Sm_lock2, set_write m_state)
      else wait_pred (\<not> has_readers m_state) 2 Sm_lock2 m_state
        (O_leave (Sm_locked True) [], m_state))"

definition Shared_mutex_try_lock :: "u32 \<Rightarrow> shared_out" where
  "Shared_mutex_try_lock m_state =
     (if \<not> has_readers m_state \<and> \<not> has_write m_state
      then (O_leave (Sm_locked True) [], set_write m_state)
      else (O_leave (Sm_locked False) [], m_state))"

definition Shared_mutex_unlock :: "u32 \<Rightarrow> shared_out" where
  "Shared_mutex_unlock m_state = (O_leave Sm_unlocked [N_all 1], unset_write m_state)"

definition Shared_mutex_lock_shared :: "u32 \<Rightarrow> shared_out" where
  "Shared_mutex_lock_shared m_state =
     wait_pred (\<not> has_write m_state \<and> \<not> max_readers m_state) 1 Sm_shared m_state
       (O_leave (Sm_shared_locked True) [], inc_readers m_state)"

definition Shared_mutex_try_lock_shared :: "u32 \<Rightarrow> shared_out" where
  "Shared_mutex_try_lock_shared m_state =
     (if \<not> has_write m_state \<and> \<not> max_readers m_state
      then (O_leave (Sm_shared_locked True) [], inc_readers m_state)
      else (O_leave (Sm_shared_locked False) [], m_state))"

definition Shared_mutex_unlock_shared :: "u32 \<Rightarrow> shared_out" where
  "Shared_mutex_unlock_shared m_state =
     (let at_max = max_readers m_state;
          m_state' = dec_readers m_state;
          readers = has_readers m_state'
      in (O_leave Sm_unlocked
            (if has_write m_state' then (if \<not> readers then [N_one 2] else [])
             else (if at_max then [N_one 1] else [])), m_state'))"

text \<open>What follows the wait at gate 1, and the wait at gate 2, given their results.\<close>

definition after_gate1 :: "time_point \<Rightarrow> u32 \<Rightarrow> bool \<Rightarrow> shared_out" where
  "after_gate1 tp m_state not_writing =
     (if \<not> not_writing then (O_leave (Sm_locked False) [], m_state)
      else (O_goto (Sm_until2 tp), set_write m_state))"

definition after_gate2 :: "u32 \<Rightarrow> bool \<Rightarrow> shared_out" where
  "after_gate2 m_state no_readers =
     (if \<not> no_readers then (O_leave (Sm_locked False) [N_all 1], unset_write m_state)
      else (O_leave (Sm_locked True) [], m_state))"

definition Shared_timed_mutex_try_lock_until ::
  "time_point \<Rightarrow> shared_phase \<Rightarrow> u32 \<Rightarrow> shared_out" where
  "Shared_timed_mutex_try_lock_until now b m_state =
     (let not_writing = \<not> has_write m_state; no_readers = \<not> has_readers m_state in case b of
       Sm_until1 tp \<Rightarrow> wait_until_pred now tp not_writing 1 (Sm_woken1 tp) m_state (after_gate1 tp m_state)
     | Sm_woken1 tp \<Rightarrow> wait_until_woken now tp not_writing (Sm_until1 tp) m_state (after_gate1 tp m_state)
     | Sm_until2 tp \<Rightarrow> wait_until_pred now tp no_readers 2 (Sm_woken2 tp) m_state (after_gate2 m_state)
     | Sm_woken2 tp \<Rightarrow> wait_until_woken now tp no_readers (Sm_until2 tp) m_state (after_gate2 m_state)
     | _ \<Rightarrow> (O_leave (Sm_locked False) [], m_state))"

definition after_shared_wait :: "u32 \<Rightarrow> bool \<Rightarrow> shared_out" where
  "after_shared_wait m_state ok =
     (if \<not> ok then (O_leave (Sm_shared_locked False) [], m_state)
      else (O_leave (Sm_shared_locked True) [], inc_readers m_state))"

definition Shared_timed_mutex_try_lock_shared_until ::
  "time_point \<Rightarrow> shared_phase \<Rightarrow> u32 \<Rightarrow> shared_out" where
  "Shared_timed_mutex_try_lock_shared_until now b m_state =
     (let cond = \<not> has_write m_state \<and> \<not> max_readers m_state in case b of
       Sm_sh_until tp \<Rightarrow> wait_until_pred now tp cond 1 (Sm_sh_woken tp) m_state (after_shared_wait m_state)
     | Sm_sh_woken tp \<Rightarrow> wait_until_woken now tp cond (Sm_sh_until tp) m_state (after_shared_wait m_state)
     | _ \<Rightarrow> (O_leave (Sm_shared_locked False) [], m_state))"

definition shared_body :: "(shared_phase, shared_result, u32) body" where
  "shared_body t now b m_state = (case b of
       Sm_lock1 \<Rightarrow> Shared_mutex_lock b m_state
     | Sm_lock2 \<Rightarrow> Shared_mutex_lock b m_state
     | Sm_try \<Rightarrow> Shared_mutex_try_lock m_state
     | Sm_unlock \<Rightarrow> Shared_mutex_unlock m_state
     | Sm_shared \<Rightarrow> Shared_mutex_lock_shared m_state
     | Sm_try_shared \<Rightarrow> Shared_mutex_try_lock_shared m_state
     | Sm_unlock_shared \<Rightarrow> Shared_mutex_unlock_shared m_state
     | Sm_sh_until tp \<Rightarrow> Shared_timed_mutex_try_lock_shared_until now b m_state
     | Sm_sh_woken tp \<Rightarrow> Shared_timed_mutex_try_lock_shared_until now b m_state
     | _ \<Rightarrow> Shared_timed_mutex_try_lock_until now b m_state)"

text \<open>
  In \<open>try_lock\<close> and \<open>try_lock_shared\<close> the lock of \<open>m_mutex\<close> is blocking (there is no
  \<open>try_to_lock\<close>), so nothing here fails before its body.
\<close>

definition shared_fail :: "shared_phase \<Rightarrow> shared_result" where
  "shared_fail b = Sm_locked False"

text \<open>A client knows whether it holds the mutex exclusively, and how many shares it holds.\<close>

type_synonym shares = "bool \<times> nat"

definition shared_calls :: "shares \<Rightarrow> (shared_phase, shared_result) mon_frame \<Rightarrow> shares \<Rightarrow> bool" where
  "shared_calls h f h' \<longleftrightarrow> (case f of
       M_lock b \<Rightarrow> (case b of
           Sm_unlock \<Rightarrow> fst h \<and> h' = (False, snd h)
         | Sm_unlock_shared \<Rightarrow> snd h = Suc (snd h') \<and> fst h' = fst h
         | Sm_lock2 \<Rightarrow> False | Sm_until2 tp \<Rightarrow> False | Sm_woken1 tp \<Rightarrow> False
         | Sm_woken2 tp \<Rightarrow> False | Sm_sh_woken tp \<Rightarrow> False
         | _ \<Rightarrow> h' = h)
     | M_tick d \<Rightarrow> h' = h
     | _ \<Rightarrow> False)"

text \<open>The relative variants start with a reading of the clock; they are among the calls.\<close>

definition Shared_timed_mutex_try_lock_for ::
  "int \<Rightarrow> time_point \<Rightarrow> (shared_phase, shared_result) mon_frame" where
  "Shared_timed_mutex_try_lock_for rel_time now = M_lock (Sm_until1 (now + rel_time))"

definition Shared_timed_mutex_try_lock_shared_for ::
  "int \<Rightarrow> time_point \<Rightarrow> (shared_phase, shared_result) mon_frame" where
  "Shared_timed_mutex_try_lock_shared_for rel_time now = M_lock (Sm_sh_until (now + rel_time))"

lemma Shared_timed_mutex_for_calls:
  "shared_calls h (Shared_timed_mutex_try_lock_for rel_time now) h"
  "shared_calls h (Shared_timed_mutex_try_lock_shared_for rel_time now) h"
  by (simp_all add: shared_calls_def Shared_timed_mutex_try_lock_for_def
      Shared_timed_mutex_try_lock_shared_for_def)

definition shared_ret :: "shared_result mon_result \<Rightarrow> shares \<Rightarrow> shares" where
  "shared_ret r h = (case r of
       Mon_done (Sm_locked b) \<Rightarrow> (fst h \<or> b, snd h)
     | Mon_done (Sm_shared_locked b) \<Rightarrow> (fst h, if b then Suc (snd h) else snd h)
     | _ \<Rightarrow> h)"

section \<open>The invariant\<close>

text \<open>
  The ghost: who has set the write flag, whether it has passed gate 2, and the bag of the holders
  of shares.
\<close>

record sm_ghost =
  g_writer :: "tid option"
  g_active :: bool
  g_readers :: "tid multiset"

definition shared_dinv :: "sm_ghost \<Rightarrow> u32 \<Rightarrow> bool" where
  "shared_dinv w st \<longleftrightarrow> (has_write st \<longleftrightarrow> g_writer w \<noteq> None) \<and> sm_count st = size (g_readers w) \<and>
     (g_active w \<longrightarrow> g_writer w \<noteq> None \<and> g_readers w = {#})"

definition at_gate2 :: "shared_phase \<Rightarrow> bool" where
  "at_gate2 b \<longleftrightarrow> (case b of Sm_lock2 \<Rightarrow> True | Sm_until2 tp \<Rightarrow> True | Sm_woken2 tp \<Rightarrow> True | _ \<Rightarrow> False)"

definition waits_phase :: "shared_phase \<Rightarrow> bool" where
  "waits_phase b \<longleftrightarrow> (case b of Sm_lock1 \<Rightarrow> True | Sm_lock2 \<Rightarrow> True | Sm_shared \<Rightarrow> True
     | Sm_woken1 tp \<Rightarrow> True | Sm_woken2 tp \<Rightarrow> True | Sm_sh_woken tp \<Rightarrow> True | _ \<Rightarrow> False)"

text \<open>The writer as thread \<open>t\<close> in stage \<open>s\<close> sees it: it is passing gate 2, or inside, or not.\<close>

definition writer_view :: "bool \<Rightarrow> bool \<Rightarrow> bool \<Rightarrow> (shared_phase, shared_result) op_stage \<Rightarrow> bool" where
  "writer_view mine active excl s \<longleftrightarrow> (case s of
       St_to b \<Rightarrow> if at_gate2 b then mine \<and> \<not> active \<and> \<not> excl
         else if b = Sm_unlock then mine \<and> active \<and> \<not> excl else (excl \<longleftrightarrow> mine) \<and> (excl \<longrightarrow> active)
     | St_wait b \<Rightarrow> waits_phase b \<and> (if at_gate2 b then mine \<and> \<not> active \<and> \<not> excl
         else (excl \<longleftrightarrow> mine) \<and> (excl \<longrightarrow> active))
     | St_try b \<Rightarrow> False
     | St_done (Sm_locked b) \<Rightarrow> (excl \<or> b \<longleftrightarrow> mine) \<and> (mine \<longrightarrow> active)
     | _ \<Rightarrow> (excl \<longleftrightarrow> mine) \<and> (excl \<longrightarrow> active))"

definition extra_share :: "(shared_phase, shared_result) op_stage \<Rightarrow> nat" where
  "extra_share s = (case s of
       St_to b \<Rightarrow> (if b = Sm_unlock_shared then 1 else 0)
     | St_done (Sm_shared_locked b) \<Rightarrow> (if b then 1 else 0)
     | _ \<Rightarrow> 0)"

definition shared_dok ::
  "sm_ghost \<Rightarrow> tid \<Rightarrow> shares \<Rightarrow> (shared_phase, shared_result) op_stage \<Rightarrow> bool" where
  "shared_dok w t h s \<longleftrightarrow> writer_view (g_writer w = Some t) (g_active w) (fst h) s \<and>
     count (g_readers w) t = snd h + extra_share s"

lemma writer_view_inactive: "writer_view False a e s \<Longrightarrow> \<not> e \<and> writer_view False a' e s"
  by (auto simp: writer_view_def split: op_stage.splits shared_result.splits if_splits)

lemma shared_dok_other:
  assumes "shared_dok w u k s" and "(g_writer w' = Some u) = (g_writer w = Some u)"
    and "g_writer w = Some u \<Longrightarrow> g_active w' = g_active w"
    and "count (g_readers w') u = count (g_readers w) u"
  shows "shared_dok w' u k s"
  using assms writer_view_inactive [of "g_active w" "fst k" s "g_active w'"]
  by (cases "g_writer w = Some u") (auto simp: shared_dok_def)

definition shared_change ::
  "sm_ghost \<Rightarrow> tid \<Rightarrow> shares \<Rightarrow> (shared_phase, shared_result) outcome \<Rightarrow> u32 \<Rightarrow> bool" where
  "shared_change w t h out d' \<longleftrightarrow> (\<exists>w'. shared_dinv w' d' \<and> shared_dok w' t h (stage_after out) \<and>
     (\<forall>u. u \<noteq> t \<longrightarrow> (g_writer w' = Some u) = (g_writer w = Some u) \<and>
        (g_writer w = Some u \<longrightarrow> g_active w' = g_active w) \<and>
        count (g_readers w') u = count (g_readers w) u))"

lemma shared_changeI:
  assumes "shared_dinv w' d'" and "shared_dok w' t h (stage_after out)"
    and "g_writer w' = g_writer w \<or> (g_writer w = None \<or> g_writer w = Some t) \<and>
      (g_writer w' = None \<or> g_writer w' = Some t)"
    and "g_active w' = g_active w \<or> g_writer w = None \<or> g_writer w = Some t"
    and "g_readers w' = g_readers w \<or> g_readers w' = add_mset t (g_readers w) \<or>
      g_readers w = add_mset t (g_readers w')"
  shows "shared_change w t h out d'"
  unfolding shared_change_def
  using assms by (intro exI [of _ w']) auto

lemmas shared_views = shared_dinv_def shared_dok_def writer_view_def extra_share_def at_gate2_def
  waits_phase_def

lemma shared_same:
  assumes "shared_dinv w st" and "shared_dok w t h (stage_after out)"
  shows "shared_change w t h out st"
  by (rule shared_changeI [OF assms]) auto

lemma shared_write:
  assumes "shared_dinv w st" and "shared_dok w t h (St_to b)" and "\<not> at_gate2 b" and "b \<noteq> Sm_unlock"
    and "b \<noteq> Sm_unlock_shared" and "\<not> has_write st"
  shows "at_gate2 b' \<Longrightarrow> shared_change w t h (O_goto b') (set_write st)"
    and "\<not> has_readers st \<Longrightarrow> shared_change w t h (O_leave (Sm_locked True) ns) (set_write st)"
proof -
  have w: "g_writer w = None" "\<not> fst h" "count (g_readers w) t = snd h"
    using assms by (auto simp: shared_dinv_def shared_dok_def writer_view_def extra_share_def)
  show "shared_change w t h (O_goto b') (set_write st)" if "at_gate2 b'"
    by (rule shared_changeI [of "w\<lparr>g_writer := Some t, g_active := False\<rparr>"])
      (use assms(1) w that in \<open>auto simp: shared_dinv_def shared_dok_def writer_view_def
        extra_share_def at_gate2_def\<close>)
  show "shared_change w t h (O_leave (Sm_locked True) ns) (set_write st)" if "\<not> has_readers st"
    by (rule shared_changeI [of "w\<lparr>g_writer := Some t, g_active := True\<rparr>"])
      (use assms(1) w that in \<open>auto simp: shared_dinv_def shared_dok_def writer_view_def
        extra_share_def has_readers_count\<close>)
qed

lemma shared_enter:
  assumes "shared_dinv w st" and "shared_dok w t h (St_to b)" and "at_gate2 b"
    and "\<not> has_readers st"
  shows "shared_change w t h (O_leave (Sm_locked True) ns) st"
  by (rule shared_changeI [of "w\<lparr>g_active := True\<rparr>"])
    (use assms in \<open>auto simp: shared_dinv_def shared_dok_def writer_view_def extra_share_def
      has_readers_count at_gate2_def split: shared_phase.splits\<close>)

lemma shared_leave:
  assumes "shared_dinv w st" and "shared_dok w t h (St_to b)" and "at_gate2 b \<or> b = Sm_unlock"
    and "r = Sm_unlocked \<or> r = Sm_locked False"
  shows "shared_change w t h (O_leave r ns) (unset_write st)"
  by (rule shared_changeI [of "w\<lparr>g_writer := None, g_active := False\<rparr>"])
    (use assms in \<open>auto simp: shared_dinv_def shared_dok_def writer_view_def extra_share_def
      at_gate2_def split: shared_phase.splits\<close>)

lemma shared_inc:
  assumes "shared_dinv w st" and "shared_dok w t h (St_to b)" and "\<not> at_gate2 b" and "b \<noteq> Sm_unlock"
    and "b \<noteq> Sm_unlock_shared" and "\<not> has_write st" and "\<not> max_readers st"
  shows "shared_change w t h (O_leave (Sm_shared_locked True) ns) (inc_readers st)"
  by (rule shared_changeI [of "w\<lparr>g_readers := add_mset t (g_readers w)\<rparr>"])
    (use assms inc_readers_view [OF assms(7)] in \<open>auto simp: shared_dinv_def shared_dok_def
      writer_view_def extra_share_def split: if_splits\<close>)

lemma shared_dec:
  assumes "shared_dinv w st" and "shared_dok w t h (St_to Sm_unlock_shared)"
  shows "has_readers st \<and> shared_change w t h (O_leave Sm_unlocked ns) (dec_readers st)"
proof -
  have c: "count (g_readers w) t = Suc (snd h)" using assms(2) by (simp add: shared_dok_def extra_share_def)
  then obtain R where R: "g_readers w = add_mset t R" by (metis count_inI mset_add nat.distinct(1))
  then have hr: "has_readers st" using assms(1) by (simp add: has_readers_count shared_dinv_def)
  have "shared_change w t h (O_leave Sm_unlocked ns) (dec_readers st)"
    by (rule shared_changeI [of "w\<lparr>g_readers := R\<rparr>"])
      (use assms R c dec_readers_view [OF hr] in \<open>auto simp: shared_dinv_def shared_dok_def
        writer_view_def extra_share_def at_gate2_def\<close>)
  with hr show ?thesis ..
qed

lemmas shared_defs = wait_defs after_gate1_def after_gate2_def after_shared_wait_def shared_body_def Shared_mutex_lock_def Shared_mutex_try_lock_def
  Shared_mutex_unlock_def Shared_mutex_lock_shared_def Shared_mutex_try_lock_shared_def
  Shared_mutex_unlock_shared_def Shared_timed_mutex_try_lock_until_def
  Shared_timed_mutex_try_lock_shared_until_def Let_def

lemmas shared_cases = shared_defs shared_dok_def writer_view_def extra_share_def at_gate2_def
  waits_phase_def

text \<open>One lemma for each kind of phase: at gate 1, at gate 2, readers.\<close>

lemma shared_gate1_change:
  assumes i: "shared_dinv w st" and d: "shared_dok w t h (St_to b)"
    and b: "b = Sm_lock1 \<or> (\<exists>tp. b = Sm_until1 tp \<or> b = Sm_woken1 tp)"
  shows "shared_change w t h (fst (shared_body t n b st)) (snd (shared_body t n b st))"
proof -
  note same = shared_same [OF i] and writing = shared_write [OF i d]
  show ?thesis
  proof (cases b)
    case Sm_lock1
    then show ?thesis using d writing
      by (cases "has_write st") (auto simp: shared_cases intro!: same)
  next
    case (Sm_until1 tp)
    then show ?thesis using d writing
      by (cases "has_write st") (auto simp: shared_cases intro!: same split: if_splits)
  next
    case (Sm_woken1 tp)
    then show ?thesis using d writing
      by (cases "has_write st") (auto simp: shared_cases intro!: same split: if_splits)
  qed (use b in auto)
qed

lemma shared_gate2_change:
  assumes i: "shared_dinv w st" and d: "shared_dok w t h (St_to b)"
    and b: "b = Sm_lock2 \<or> (\<exists>tp. b = Sm_until2 tp \<or> b = Sm_woken2 tp)"
  shows "shared_change w t h (fst (shared_body t n b st)) (snd (shared_body t n b st))"
proof (cases "has_readers st")
  case True
  note same = shared_same [OF i] and leave = shared_leave [OF i d]
  show ?thesis using b d leave True
    by (elim disjE exE) (auto simp: shared_cases intro!: same split: if_splits)
next
  case False
  note enter = shared_enter [OF i d _ False] and same = shared_same [OF i, of t h "O_goto b" for b]
  show ?thesis using b d enter False same
    by (elim disjE exE) (auto simp: shared_cases split: if_splits)
qed

lemma shared_reader_change:
  assumes i: "shared_dinv w st" and d: "shared_dok w t h (St_to b)"
    and b: "b = Sm_shared \<or> b = Sm_try_shared \<or> (\<exists>tp. b = Sm_sh_until tp \<or> b = Sm_sh_woken tp)"
  shows "shared_change w t h (fst (shared_body t n b st)) (snd (shared_body t n b st))"
proof -
  note same = shared_same [OF i] and inc = shared_inc [OF i d]
  from b show ?thesis using d inc
    by (cases "has_write st \<or> max_readers st"; elim disjE exE)
      (auto simp: shared_cases intro!: same split: if_splits)
qed

lemma shared_body_change:
  assumes i: "shared_dinv w st" and d: "shared_dok w t h (St_to b)"
  shows "shared_change w t h (fst (shared_body t n b st)) (snd (shared_body t n b st))"
proof (cases b)
  case Sm_try
  then show ?thesis using d shared_write [OF i d]
    by (cases "\<not> has_readers st \<and> \<not> has_write st")
      (auto simp: shared_cases intro!: shared_same [OF i])
next
  case Sm_unlock
  then show ?thesis using shared_leave [OF i d] by (auto simp: shared_defs)
next
  case Sm_unlock_shared
  then show ?thesis using d shared_dec [OF i] by (auto simp: shared_defs)
qed (use shared_gate1_change [OF i d] shared_gate2_change [OF i d] shared_reader_change [OF i d] in auto)

text \<open>The writer flag is set and no reader is left: the writer at gate 2 may pass.\<close>

definition gate2_open :: "u32 \<Rightarrow> bool" where
  "gate2_open st \<longleftrightarrow> has_write st \<and> \<not> has_readers st"

lemma shared_body_wakes:
  assumes "shared_dinv w st" and "shared_dok w t h (St_to b)"
  shows "\<not> gate2_open (snd (shared_body t n b st)) \<or>
      (case fst (shared_body t n b st) of
        O_wait g tp b' \<Rightarrow> g \<noteq> 2 \<and> \<not> at_gate2 b \<and> gate2_open st
      | O_goto b' \<Rightarrow> at_gate2 b' \<or> \<not> at_gate2 b \<and> gate2_open st
      | O_leave r ns \<Rightarrow> wakes 2 ns \<or> \<not> at_gate2 b \<and> gate2_open st \<or>
          (\<forall>u k b'. u \<noteq> t \<longrightarrow> at_gate2 b' \<longrightarrow> \<not> shared_dok w u k (St_wait b')))"
proof -
  have "\<not> shared_dok w u k (St_wait b')" if "u \<noteq> t" "at_gate2 b'"
    "g_writer w = None \<or> g_writer w = Some t" for u k b'
    using that by (auto simp: shared_dok_def writer_view_def)
  moreover have "g_writer w = None" if "\<not> has_write st"
    using assms(1) that by (simp add: shared_dinv_def)
  moreover have "g_writer w = Some t" if "at_gate2 b"
    using assms(2) that by (simp add: shared_dok_def writer_view_def)
  moreover have "has_write (dec_readers st) = has_write st" if "b = Sm_unlock_shared"
    using shared_dec [OF assms(1)] assms(2) that dec_readers_view by blast
  moreover have "\<not> has_write (inc_readers st)" if "\<not> has_write st" "\<not> max_readers st"
    using inc_readers_view that by blast
  ultimately show ?thesis
    by (cases b) (auto simp: shared_defs at_gate2_def wakes_def has_readers_count gate2_open_def)
qed

lemma shared_body_gate2:
  "shared_body t n b st = (O_wait 2 tp b', st') \<Longrightarrow> at_gate2 b'"
  by (auto simp: shared_defs at_gate2_def split: shared_phase.splits if_splits)

interpretation sm: wake_one shared_calls shared_body shared_fail shared_ret shared_dinv shared_dok
  2 "\<lambda>st. \<not> gate2_open st" at_gate2
proof
  show "shared_calls h f h' \<Longrightarrow> (\<exists>b. f = M_lock b \<or> f = M_try b) \<or> (\<exists>d. f = M_tick d)" for h f h'
    by (auto simp: shared_calls_def split: mon_frame.splits)
  show "shared_dok w t h St_out \<Longrightarrow> shared_calls h f h' \<Longrightarrow> shared_dok w t h' (stage (Some f))"
    for w t h f h'
    by (auto simp: shared_calls_def shared_dok_def writer_view_def extra_share_def at_gate2_def
        split: mon_frame.splits shared_phase.splits)
  show "shared_ret Mon_ticked h = h" for h by (simp add: shared_ret_def)
  show "shared_dok w t h (St_try b) \<Longrightarrow> shared_dok w t h (St_to b)" for w t h b
    by (simp add: shared_dok_def writer_view_def)
  show "shared_dok w t h (St_wait b) \<Longrightarrow> shared_dok w t h (St_to b)" for w t h b
    by (auto simp: shared_dok_def writer_view_def extra_share_def waits_phase_def at_gate2_def
        split: shared_phase.splits)
  show "shared_dok w t h (St_try b) \<Longrightarrow>
      shared_dok w t (shared_ret (Mon_done (shared_fail b)) h) St_out" for w t h b
    by (simp add: shared_dok_def writer_view_def)
  show "shared_dok w t h (St_done r) \<Longrightarrow> shared_dok w t (shared_ret (Mon_done r) h) St_out" for w t h r
    by (auto simp: shared_dok_def shared_ret_def writer_view_def extra_share_def
        split: shared_result.splits)
  fix w d t h b n out d'
  assume a: "shared_dinv w d" "shared_dok w t h (St_to b)"
  note wk = shared_body_wakes [OF a, of n]
  show "shared_body t n b d = (out, d') \<Longrightarrow> \<exists>w'. shared_dinv w' d' \<and>
      shared_dok w' t h (stage_after out) \<and>
      (\<forall>u k s. u \<noteq> t \<longrightarrow> shared_dok w u k s \<longrightarrow> shared_dok w' u k s)"
    using shared_body_change [OF a, of n] shared_dok_other unfolding shared_change_def by fastforce
  show "shared_body t n b d = (O_wait g tp b', d') \<Longrightarrow>
      if g = 2 then at_gate2 b' \<and> \<not> gate2_open d'
      else \<not> gate2_open d' \<or> \<not> at_gate2 b \<and> \<not> \<not> gate2_open d" for g tp b'
    using wk shared_body_gate2 [of t n b d tp b' d'] by auto
  show "shared_body t n b d = (O_goto b', d') \<Longrightarrow>
      \<not> gate2_open d' \<or> at_gate2 b' \<or> \<not> at_gate2 b \<and> \<not> \<not> gate2_open d" for b'
    using wk by auto
  show "shared_body t n b d = (O_leave r ns, d') \<Longrightarrow>
      \<not> gate2_open d' \<or> wakes 2 ns \<or> \<not> at_gate2 b \<and> \<not> \<not> gate2_open d \<or>
      (\<forall>u k b'. u \<noteq> t \<longrightarrow> at_gate2 b' \<longrightarrow> \<not> shared_dok w u k (St_wait b'))" for r ns
    using wk by auto
qed

abbreviation shared_start where
  "shared_start \<equiv> mon_start (\<lambda>_. (False, 0)) 0"

lemma shared_start_owned: "sm.owned \<lparr>g_writer = None, g_active = False, g_readers = {#}\<rparr> shared_start"
  by (rule sm.start_owned)
    (simp_all add: shared_dinv_def shared_dok_def writer_view_def extra_share_def has_write_def
      sm_write_def sm_count_def)

text \<open>When every thread is at rest and a writer sleeps at gate 2, some client holds a share.\<close>

lemma shared_gate2_holder:
  assumes "sm.sys\<^sup>*\<^sup>* shared_start c" and rest: "at_rest c" "waits_at 2 c t"
  shows "\<exists>v. 0 < snd (th_held (thread_of c v))"
proof -
  obtain w where w: "sm.owned w c" by (rule sm.reach_owned [OF assms(1) shared_start_owned])
  have view: "shared_dok w v (th_held (thread_of c v)) (stage (th_call (thread_of c v)))"
    "shared_dinv w (mon_data (shared c))" for v
    using w by (simp_all add: sm.owned_def sm.ok_def sm.minv_def)
  obtain tp b where q: "th_call (thread_of c t) = Some (M_wait 2 tp Cv_park b)"
    using rest(2) by (auto simp: waits_at_def)
  have "\<not> stray 2 at_gate2 (th_call (thread_of c t))"
    using sm.served.inv_steps [OF assms(1) sm.start_served [OF shared_start_owned]]
    unfolding sm.served_def by blast
  then have "g_writer w = Some t"
    using view(1) [of t] q by (simp add: shared_dok_def writer_view_def)
  moreover have "\<not> gate2_open (mon_data (shared c))"
    using sm.no_lost_wakeup [OF assms(1) shared_start_owned rest] .
  ultimately have "g_readers w \<noteq> {#}"
    using view(2) by (auto simp: gate2_open_def shared_dinv_def has_readers_count)
  then obtain v where v: "0 < count (g_readers w) v" by (metis count_greater_zero_iff multiset_nonemptyE)
  have "at_rest_frame (shared c) v (th_call (thread_of c v))" using rest(1) by (simp add: at_rest_def)
  then have "extra_share (stage (th_call (thread_of c v))) = 0"
    by (cases "(shared c, v, th_call (thread_of c v))" rule: at_rest_frame.cases)
      (auto simp: extra_share_def)
  then have "0 < snd (th_held (thread_of c v))" using v view(1) [of v] unfolding shared_dok_def by linarith
  then show ?thesis ..
qed

section \<open>Properties\<close>

text \<open>
  C34: \<open>Shared_mutex\<close> and \<open>Shared_timed_mutex\<close>: at most one thread holds the mutex exclusively, and
  while one does no thread holds a share; the shares of a client never exceed the reader count in
  the packed state. And a writer is not left behind: when every thread is at rest and a writer sleeps at gate 2, some client
  still holds a share.
\<close>

theorem Shared_mutex_correct:
  assumes "sm.sys\<^sup>*\<^sup>* shared_start c"
  shows "(fst (th_held (thread_of c t)) \<and> fst (th_held (thread_of c u)) \<longrightarrow> t = u) \<and>
    (fst (th_held (thread_of c t)) \<longrightarrow> snd (th_held (thread_of c u)) = 0) \<and>
    snd (th_held (thread_of c t)) \<le> sm_count (mon_data (shared c)) \<and>
    (at_rest c \<and> waits_at 2 c t \<longrightarrow> (\<exists>v. 0 < snd (th_held (thread_of c v))))"
proof -
  obtain w where w: "sm.owned w c" by (rule sm.reach_owned [OF assms shared_start_owned])
  have view: "shared_dok w v (th_held (thread_of c v)) (stage (th_call (thread_of c v)))"
    "shared_dinv w (mon_data (shared c))" for v
    using w by (simp_all add: sm.owned_def sm.ok_def sm.minv_def)
  have excl: "g_writer w = Some v \<and> g_active w" if "fst (th_held (thread_of c v))" for v
    using view(1) [of v] that
    by (auto simp: shared_dok_def writer_view_def split: op_stage.splits shared_result.splits if_splits)
  have cnt: "snd (th_held (thread_of c v)) \<le> count (g_readers w) v" for v
    using view(1) [of v] by (simp add: shared_dok_def)
  have "snd (th_held (thread_of c t)) \<le> sm_count (mon_data (shared c))"
    using cnt [of t] count_le_size [of "g_readers w" t] view(2) by (simp add: shared_dinv_def)
  moreover have "snd (th_held (thread_of c u)) = 0" if "fst (th_held (thread_of c t))"
    using excl [OF that] cnt [of u] view(2) by (simp add: shared_dinv_def)
  moreover have "\<exists>v. 0 < snd (th_held (thread_of c v))" if "at_rest c" "waits_at 2 c t"
    by (rule shared_gate2_holder [OF assms that])
  ultimately show ?thesis using excl [of t] excl [of u] by auto
qed

text \<open>Thread 1 takes a share, thread 2 sets the write flag and falls asleep at gate 2.\<close>

definition shared_ex ::
  "(u32 mon, shares, (shared_phase, shared_result) mon_frame, shared_result mon_result) conf" where
  "shared_ex = the (exec shared_calls (mon_code shared_body shared_fail) shared_ret
     ([(1, Some (M_lock Sm_shared, (False, 0))), (1, None), (1, None), (1, None), (1, None)] @
      [(2, Some (M_lock Sm_lock1, (False, 0))), (2, None), (2, None), (2, None), (2, None),
       (2, None), (2, None)]) shared_start)"

theorem Shared_mutex_correct_witness: "\<exists>v. 0 < snd (th_held (thread_of shared_ex v))"
proof -
  have e: "exec shared_calls (mon_code shared_body shared_fail) shared_ret
     ([(1, Some (M_lock Sm_shared, (False, 0))), (1, None), (1, None), (1, None), (1, None)] @
      [(2, Some (M_lock Sm_lock1, (False, 0))), (2, None), (2, None), (2, None), (2, None),
       (2, None), (2, None)]) shared_start = Some shared_ex"
    and "at_rest shared_ex" "waits_at 2 shared_ex 2"
    by (simp_all add: shared_ex_def shared_defs shared_calls_def shared_ret_def mon_exec_defs
        at_rest_def waits_at_def has_write_def has_readers_def max_readers_def sm_write_def
        sm_readers_def readers_bits_def write_bits_def inc_readers_def set_write_def)
  then show ?thesis using Shared_mutex_correct [OF exec_sound [OF e], of 2] by blast
qed

end
