(* ===== verification/Wakeup_All.thy ===== *)
theory Wakeup_All
  imports Wakeup
begin

text \<open>
  The second principle for the absence of lost wake-ups: a class that waits on a condition variable
  only while its object is closed, and that notifies all waiters when the object ceases to be
  closed, leaves no waiter behind: when all threads are at rest and one of them waits, the object
  is closed. The principle may hold only in states of the data that are \<open>fine\<close>.
\<close>

section \<open>Who has been told, or will be\<close>

fun announces :: "nat \<Rightarrow> ('b, 'r) mon_frame option \<Rightarrow> bool" where
  "announces g (Some (M_unlock r ns)) \<longleftrightarrow> N_all g \<in> set ns"
| "announces g (Some (M_notify r ns)) \<longleftrightarrow> N_all g \<in> set ns"
| "announces g q \<longleftrightarrow> False"

definition cv_settled :: "cv_pc \<Rightarrow> bool" where
  "cv_settled pc \<longleftrightarrow> pc = Cv_park \<or> pc = Cv_relock \<or> pc = Cv_remove"

fun told :: "nat \<Rightarrow> bool \<Rightarrow> bool \<Rightarrow> 'd mon \<Rightarrow> tid \<Rightarrow> ('b, 'r) mon_frame option \<Rightarrow> bool" where
  "told g cl an m t (Some (M_wait g' tp pc b)) \<longleftrightarrow>
     g' \<noteq> g \<or> cl \<or> cv_settled pc \<and> (an \<or> cv_awake t pc m)"
| "told g cl an m t q \<longleftrightarrow> True"

lemma told_mono:
  assumes "told g cl an m t q" and "keeps_awake t m m'" and "cl \<Longrightarrow> cl'" and "an \<Longrightarrow> an'"
  shows "told g cl' an' m' t q"
  using assms keeps_awake_check [OF assms(2)]
  by (cases "(g, cl, an, m, t, q)" rule: told.cases) (auto simp: cv_awake_def)

text \<open>When the object opens, a waiter that has not released the mutex does not exist.\<close>

lemma told_open:
  assumes "told g cl an m t q" and "\<not> mon_cs q \<or> (\<exists>b. q = Some (M_body b))" and "an'"
  shows "told g cl' an' m' t q"
  using assms
  by (cases "(g, cl, an, m, t, q)" rule: told.cases) (auto simp: cv_holds_def cv_settled_def)

text \<open>A notification of all reaches every settled waiter.\<close>

lemma told_notify_all:
  assumes "told g cl an m t q" and "\<And>g. t \<in> set (cv_waiters m g) \<longleftrightarrow> mon_listed g q"
  shows "told g cl an' (mon_notify (N_all g) m) t q"
  using assms
  by (cases "(g, cl, an, m, t, q)" rule: told.cases)
    (auto simp: cv_awake_def cv_settled_def cv_listed_def cv_check_wait_info_def mon_notify_def
      notify_all_eq)

section \<open>Where a phase waits\<close>

definition waits_as ::
  "(nat \<Rightarrow> 'b \<Rightarrow> bool) \<Rightarrow> ('d mon, 'h, ('b, 'r) mon_frame, 'r mon_result) conf \<Rightarrow> bool" where
  "waits_as R c \<longleftrightarrow>
     (\<forall>t g tp pc b. th_call (thread_of c t) = Some (M_wait g tp pc b) \<longrightarrow> R g b)"

lemma code_waits_as:
  assumes "mon_code body fail t f m = (Inl (M_wait g tp pc b), m')"
    and "\<And>g tp pc b. f = M_wait g tp pc b \<Longrightarrow> R g b"
    and "\<And>t n b d g tp b' d'. body t n b d = (O_wait g tp b', d') \<Longrightarrow> R g b'"
  shows "R g b"
proof (cases f)
  case (M_body b0)
  obtain out d' where o: "body t (cv_now m) b0 (mon_data m) = (out, d')" by fastforce
  then show ?thesis using assms(1) M_body assms(3) [of t "cv_now m" b0 "mon_data m" g tp b d']
    by (auto simp: mon_code_def split: outcome.splits)
next
  case (M_wait g' tp' pc' b')
  then show ?thesis using assms(1) assms(2) [OF M_wait]
    by (auto simp: mon_code_def split: prod.splits sum.splits)
qed (use assms(1) in \<open>auto simp: mon_code_def split: list.splits prod.splits cv_attempt.splits\<close>)

context monitor
begin

lemma waits_as_step:
  assumes w: "waits_as R c" and st: "thread_step calls code ret t c c'"
    and bodies: "\<And>t n b d g tp b' d'. body t n b d = (O_wait g tp b', d') \<Longrightarrow> R g b'"
  shows "waits_as R c'"
proof -
  have old: "th_call (thread_of c u) = Some (M_wait g tp pc b) \<Longrightarrow> R g b" for u g tp pc b
    using w unfolding waits_as_def by blast
  have "R g b" if q: "th_call (thread_of c' u) = Some (M_wait g tp pc b)" for u g tp pc b
  proof (cases "u = t")
    case False
    then show ?thesis using old [of u g tp pc b] q thread_step_other [OF st False] by simp
  next
    case True
    from st show ?thesis
    proof cases
      case (call f h')
      then show ?thesis using q True call_frame [OF call(3)] by auto
    next
      case (access f f' m')
      then have "mon_code body fail t f (shared c) = (Inl (M_wait g tp pc b), m')" using q True by simp
      then show ?thesis
      proof (rule code_waits_as [where R = R])
        show "f = M_wait g' tp' pc' b' \<Longrightarrow> R g' b'" for g' tp' pc' b' using old access(2) by blast
      qed (rule bodies)
    next
      case (return f r m')
      then show ?thesis using q True by simp
    qed
  qed
  then show ?thesis unfolding waits_as_def by blast
qed

lemma waits_as_steps:
  assumes "sys\<^sup>*\<^sup>* (mon_start h d) c"
    and bodies: "\<And>t n b d g tp b' d'. body t n b d = (O_wait g tp b', d') \<Longrightarrow> R g b'"
  shows "waits_as R c"
  using assms(1)
proof (induction rule: rtranclp_induct)
  case (step c c')
  then obtain t where "thread_step calls code ret t c c'" by (auto simp: any_step_def)
  then show ?case by (rule waits_as_step [OF step.IH]) (rule bodies)
qed (simp add: waits_as_def mon_start_def)

end

section \<open>Runs on which the data stay fine\<close>

definition fine_step ::
  "('h \<Rightarrow> 'f \<Rightarrow> 'h \<Rightarrow> bool) \<Rightarrow> (tid \<Rightarrow> 'f \<Rightarrow> 'd mon \<Rightarrow> ('f + 'r) \<times> 'd mon) \<Rightarrow> ('r \<Rightarrow> 'h \<Rightarrow> 'h) \<Rightarrow>
   ('d \<Rightarrow> bool) \<Rightarrow> ('d mon, 'h, 'f, 'r) conf \<Rightarrow> ('d mon, 'h, 'f, 'r) conf \<Rightarrow> bool" where
  "fine_step calls code ret fine c c' \<longleftrightarrow>
     any_step calls code ret c c' \<and> fine (mon_data (shared c))"

fun fine_exec ::
  "('h \<Rightarrow> 'f \<Rightarrow> 'h \<Rightarrow> bool) \<Rightarrow> (tid \<Rightarrow> 'f \<Rightarrow> 'd mon \<Rightarrow> ('f + 'r) \<times> 'd mon) \<Rightarrow> ('r \<Rightarrow> 'h \<Rightarrow> 'h) \<Rightarrow>
   ('d \<Rightarrow> bool) \<Rightarrow> (tid \<times> ('f \<times> 'h) option) list \<Rightarrow> ('d mon, 'h, 'f, 'r) conf \<Rightarrow>
   ('d mon, 'h, 'f, 'r) conf option" where
  "fine_exec calls code ret fine [] c = Some c"
| "fine_exec calls code ret fine ((t, a) # xs) c =
     (if \<not> fine (mon_data (shared c)) then None
      else case exec_step calls code ret t a c of
        Some c' \<Rightarrow> fine_exec calls code ret fine xs c' | None \<Rightarrow> None)"

lemma fine_stepI:
  "exec_step calls code ret t a c = Some c' \<Longrightarrow> fine (mon_data (shared c)) \<Longrightarrow>
    fine_step calls code ret fine c c'"
  by (auto simp: fine_step_def dest: exec_step_any)

lemma fine_exec_sound:
  "fine_exec calls code ret fine xs c = Some c' \<Longrightarrow> (fine_step calls code ret fine)\<^sup>*\<^sup>* c c'"
  by (induction calls code ret fine xs c rule: fine_exec.induct)
    (auto split: option.splits if_splits intro: converse_rtranclp_into_rtranclp fine_stepI)

section \<open>All at once\<close>

locale wake_all = monitor calls body fail ret dinv dok
  for calls :: "'h \<Rightarrow> ('b, 'r) mon_frame \<Rightarrow> 'h \<Rightarrow> bool"
    and body :: "('b, 'r, 'd) body"
    and fail :: "'b \<Rightarrow> 'r"
    and ret :: "'r mon_result \<Rightarrow> 'h \<Rightarrow> 'h"
    and dinv :: "'w \<Rightarrow> 'd \<Rightarrow> bool"
    and dok :: "'w \<Rightarrow> tid \<Rightarrow> 'h \<Rightarrow> ('b, 'r) op_stage \<Rightarrow> bool" +
  fixes gate :: nat
    and closed :: "'d \<Rightarrow> bool"
    and fine :: "'d \<Rightarrow> bool"
  assumes wait_closed: "dinv w d \<Longrightarrow> dok w t h (St_to b) \<Longrightarrow> fine d \<Longrightarrow>
      body t n b d = (O_wait gate tp b', d') \<Longrightarrow> closed d'"
    and opens: "dinv w d \<Longrightarrow> dok w t h (St_to b) \<Longrightarrow> fine d \<Longrightarrow> body t n b d = (out, d') \<Longrightarrow>
      closed d \<Longrightarrow> \<not> closed d' \<Longrightarrow> \<exists>r ns. out = O_leave r ns \<and> N_all gate \<in> set ns"
begin

abbreviation announced :: "('d mon, 'h, ('b, 'r) mon_frame, 'r mon_result) conf \<Rightarrow> bool" where
  "announced c \<equiv> \<exists>u. announces gate (th_call (thread_of c u))"

definition all_told :: "('d mon, 'h, ('b, 'r) mon_frame, 'r mon_result) conf \<Rightarrow> bool" where
  "all_told c \<longleftrightarrow> (\<exists>w. owned w c) \<and> (\<forall>t. told gate (closed (mon_data (shared c))) (announced c)
     (shared c) t (th_call (thread_of c t)))"

text \<open>What an access does to the thread itself; only a body opens the object, and announces it.\<close>

lemma told_self:
  assumes "code t f m = (x, m')" and "minv w m" and "ok w m t h (Some f)" and "fine (mon_data m)"
    and "told gate (closed (mon_data m)) an m t (Some f)" and "\<not> announces gate (Some f) \<Longrightarrow> an \<Longrightarrow> an'"
  shows "told gate (closed (mon_data m')) an' m' t (case x of Inl f' \<Rightarrow> Some f' | Inr _ \<Rightarrow> None)"
proof (cases f)
  case (M_body b)
  obtain out d' where o: "body t (cv_now m) b (mon_data m) = (out, d')" by fastforce
  have dd: "dinv w (mon_data m)" "dok w t h (St_to b)"
    using assms(2,3) M_body by (simp_all add: minv_def ok_def)
  show ?thesis
  proof (cases out)
    case (O_wait g tp b')
    then show ?thesis using wait_closed [OF dd assms(4), of "cv_now m" tp b' d'] assms(1) M_body o
      by (cases "g = gate") (auto simp: mon_code_def)
  qed (use assms(1) M_body o in \<open>auto simp: mon_code_def\<close>)
next
  case (M_wait g tp pc b)
  then show ?thesis using assms(1,5,6)
    by (cases pc) (auto simp: mon_code_def cv_defs cv_settled_def cv_awake_def split: if_splits)
next
  case (M_notify r ns)
  then show ?thesis using assms(1) by (cases ns) (auto simp: mon_code_def)
qed (use assms(1) in \<open>auto simp: mon_code_def cv_defs split: if_splits\<close>)

text \<open>An announcement lasts until it is made.\<close>

lemma announced_kept:
  assumes "announced c" and f: "th_call (thread_of c t) = Some f" and x: "code t f (shared c) = (x, m')"
    and c': "\<forall>u. u \<noteq> t \<longrightarrow> thread_of c' u = thread_of c u"
      "th_call (thread_of c' t) = (case x of Inl f' \<Rightarrow> Some f' | Inr _ \<Rightarrow> None)"
    and n: "\<And>r ns. f \<noteq> M_notify r (N_all gate # ns)"
  shows "announced c'"
proof -
  obtain v where v: "announces gate (th_call (thread_of c v))" using assms(1) by blast
  show ?thesis
  proof (cases "v = t")
    case True
    then have "announces gate (Some f)" using v f by simp
    then have "announces gate (th_call (thread_of c' t))" using x n unfolding c'(2)
      by (cases "(gate, Some f)" rule: announces.cases)
        (auto simp: mon_code_def split: list.splits)
    then show ?thesis ..
  next
    case False
    then show ?thesis using v c'(1) by (intro exI [of _ v]) simp
  qed
qed

text \<open>Who opens the object announces it, and nobody else is between the test and the wait then.\<close>

lemma told_opened:
  assumes w: "owned w c" and f: "th_call (thread_of c t) = Some (M_body b)"
    and x: "code t (M_body b) (shared c) = (x, m')" and fine: "fine (mon_data (shared c))"
    and c': "th_call (thread_of c' t) = (case x of Inl f' \<Rightarrow> Some f' | Inr _ \<Rightarrow> None)"
    and cl: "closed (mon_data (shared c))" "\<not> closed (mon_data m')" and u: "u \<noteq> t"
    and old: "told gate (closed (mon_data (shared c))) (announced c) (shared c) u (th_call (thread_of c u))"
  shows "told gate (closed (mon_data m')) (announced c') m' u (th_call (thread_of c u))"
proof -
  obtain out where o: "body t (cv_now (shared c)) b (mon_data (shared c)) = (out, mon_data m')"
    using x by (auto simp: mon_code_def split: prod.splits outcome.splits)
  have "dinv w (mon_data (shared c))" "dok w t (th_held (thread_of c t)) (St_to b)"
    using w f unfolding owned_def minv_def ok_def by (auto dest: spec [of _ t])
  then obtain r ns where l: "out = O_leave r ns" "N_all gate \<in> set ns"
    using opens [OF _ _ fine o] cl by blast
  then have "th_call (thread_of c' t) = Some (M_unlock r ns)"
    using x o c' by (auto simp: mon_code_def)
  then have "announced c'" using l(2) by (intro exI [of _ t]) simp
  moreover have "\<not> mon_cs (th_call (thread_of c u))"
    using one_in_section [OF w, of t u] f u by auto
  ultimately show ?thesis by (intro told_open [OF old] disjI1)
qed

lemma told_code:
  assumes s: "all_told c" and fine: "fine (mon_data (shared c))"
    and f: "th_call (thread_of c t) = Some f" and x: "code t f (shared c) = (x, m')"
    and c': "shared c' = m'" "\<forall>u. u \<noteq> t \<longrightarrow> thread_of c' u = thread_of c u"
      "th_call (thread_of c' t) = (case x of Inl f' \<Rightarrow> Some f' | Inr _ \<Rightarrow> None)"
    and "\<exists>w. owned w c'"
  shows "all_told c'"
proof -
  let ?m = "shared c" and ?cl = "closed (mon_data (shared c))" and ?cl' = "closed (mon_data m')"
  obtain w where w: "owned w c" using s by (auto simp: all_told_def)
  have inv: "minv w ?m" "\<And>u. ok w ?m u (th_held (thread_of c u)) (th_call (thread_of c u))"
    using w by (simp_all add: owned_def)
  have view: "mon_wf ?m" "\<And>u. mon_view ?m u (th_call (thread_of c u))"
    using inv by (simp_all add: minv_def ok_def)
  have old: "told gate ?cl (announced c) ?m u (th_call (thread_of c u))" for u
    using s by (simp add: all_told_def)
  have same: "mon_data m' = mon_data ?m" if "\<not> (\<exists>b. f = M_body b)"
    using mon_code_step [OF view(1) _ x] view(2) [of t] f that by auto
  note an = announced_kept [OF _ f x c'(2,3)]
  have self: "told gate ?cl' (announced c') m' t (th_call (thread_of c' t))"
    unfolding c'(3)
  proof (rule told_self [OF x inv(1) inv(2) [of t, unfolded f] fine old [of t, unfolded f]])
    show "announced c'" if "\<not> announces gate (Some f)" "announced c"
      by (rule an [OF that(2)]) (use that(1) in auto)
  qed
  have other: "told gate ?cl' (announced c') m' u (th_call (thread_of c u))" if u: "u \<noteq> t" for u
  proof (cases "\<exists>r ns. f = M_notify r (N_all gate # ns)")
    case True
    then have "m' = mon_notify (N_all gate) ?m" using x by (auto simp: mon_code_def)
    then show ?thesis
      using told_notify_all [OF old, of u "announced c'"] mon_view_listed [OF view(2) [of u]] by simp
  next
    case False
    show ?thesis
    proof (cases "?cl \<longrightarrow> ?cl'")
      case True
      then have step: "?cl \<Longrightarrow> ?cl'" by blast
      have keep: "announced c'" if "announced c"
        by (rule an [OF that]) (use False in auto)
      show ?thesis by (rule told_mono [OF old mon_code_keeps [OF x u] step keep])
    next
      case becomes: False
      have "\<exists>b. f = M_body b" by (rule ccontr) (use same becomes in simp)
      then obtain b where b: "f = M_body b" ..
      show ?thesis
        by (rule told_opened [OF w f [unfolded b] x [unfolded b] fine c'(3) _ _ u old])
          (use becomes in auto)
    qed
  qed
  have "told gate ?cl' (announced c') m' u (th_call (thread_of c' u))" for u
    using self other [of u] c'(2) by (cases "u = t") auto
  then show ?thesis using assms(8) c'(1) by (simp add: all_told_def)
qed

abbreviation "fine_sys \<equiv> fine_step calls code ret fine"

sublocale told: transition_system fine_sys all_told
proof
  fix c c'
  assume s: "all_told c" and st0: "fine_sys c c'"
  then obtain t where st: "thread_step calls code ret t c c'"
    by (auto simp: fine_step_def any_step_def)
  have fine: "fine (mon_data (shared c))" using st0 by (simp add: fine_step_def)
  obtain w where "owned w c" using s by (auto simp: all_told_def)
  then have o: "\<exists>w. owned w c'" using owned_step st by blast
  from st show "all_told c'"
  proof cases
    case (call f h')
    have "announces gate (th_call (thread_of c u)) \<longrightarrow> u \<noteq> t" for u using call(2) by auto
    then have an: "announced c \<Longrightarrow> announced c'" unfolding call(1) by auto
    have "told gate (closed (mon_data (shared c'))) (announced c') (shared c') u
        (th_call (thread_of c' u))" for u
    proof (cases "u = t")
      case True
      then show ?thesis using call_frame [OF call(3)] call(1) by auto
    next
      case False
      have "told gate (closed (mon_data (shared c))) (announced c) (shared c) u
          (th_call (thread_of c u))" using s by (simp add: all_told_def)
      then have "told gate (closed (mon_data (shared c))) (announced c') (shared c) u
          (th_call (thread_of c u))" by (rule told_mono) (use an in \<open>simp_all add: keeps_awake_def\<close>)
      then show ?thesis using False call(1) by simp
    qed
    then show ?thesis using o by (simp add: all_told_def)
  next
    case (access f f' m')
    then show ?thesis by (intro told_code [OF s fine access(2,3) _ _ _ o]) auto
  next
    case (return f r m')
    then show ?thesis by (intro told_code [OF s fine return(2,3) _ _ _ o]) auto
  qed
qed

lemma start_told: "owned w (mon_start h d) \<Longrightarrow> all_told (mon_start h d)"
  by (auto simp: all_told_def mon_start_def mon_init_def)

lemma fine_sys_sys: "fine_sys\<^sup>*\<^sup>* c c' \<Longrightarrow> sys\<^sup>*\<^sup>* c c'"
  by (rule rtranclp_mono [THEN predicate2D]) (auto simp: fine_step_def)

lemma none_left_behind:
  assumes "fine_sys\<^sup>*\<^sup>* (mon_start h d) c" and "owned w (mon_start h d)"
    and "at_rest c" and "waits_at gate c t"
  shows "closed (mon_data (shared c))"
proof -
  have s: "all_told c" using told.inv_steps [OF assms(1) start_told [OF assms(2)]] .
  obtain tp b where q: "th_call (thread_of c t) = Some (M_wait gate tp Cv_park b)"
    using assms(4) by (auto simp: waits_at_def)
  have r: "at_rest_frame (shared c) u (th_call (thread_of c u))" for u
    using assms(3) by (simp add: at_rest_def)
  have "\<not> announces gate (th_call (thread_of c u))" for u
    using r [of u] by (cases "(gate, th_call (thread_of c u))" rule: announces.cases) auto
  moreover have "\<not> cv_awake t Cv_park (shared c)" using r [of t] q by (simp add: cv_awake_def)
  moreover have "told gate (closed (mon_data (shared c))) (announced c) (shared c) t
      (th_call (thread_of c t))" using s by (simp add: all_told_def)
  ultimately show ?thesis unfolding q told.simps by blast
qed

end

end
