(* ===== verification/Shared_gates.thy ===== *)
theory Shared_gates
  imports Shared_mutex Wakeup_All
begin

text \<open>
  The first gate of \<open>Shared_mutex\<close>: writers wait there for the write flag to be cleared, readers for
  that and for the number of readers to drop below its maximum. Whoever clears the flag notifies
  all. When the number of readers drops from its maximum only one waiter is notified, and none
  when it drops further, so the principle of the theory Wakeup_All applies to the runs that do not
  reach the maximum of 2147483647 shares; a run that does can leave a waiter behind.
\<close>

lemma shared_gate1_wait:
  assumes "\<not> max_readers d" and "shared_body t n b d = (O_wait 1 tp b', d')"
  shows "has_write d'"
  using assms by (cases b) (auto simp: shared_defs split: if_splits)

lemma shared_gate1_opens:
  assumes "shared_dinv w d" and "shared_dok w t h (St_to b)"
    and "shared_body t n b d = (out, d')" and "has_write d" and "\<not> has_write d'"
  shows "\<exists>r ns. out = O_leave r ns \<and> N_all 1 \<in> set ns"
proof (cases "b = Sm_unlock_shared")
  case True
  then have "has_readers d" using shared_dec [OF assms(1)] assms(2) by blast
  then have "has_write (dec_readers d) = has_write d" using dec_readers_view by blast
  then show ?thesis using assms(3-5) True by (simp add: shared_defs)
next
  case False
  then show ?thesis using assms(3-5)
    by (cases b) (auto simp: shared_defs split: if_splits)
qed

interpretation gate1: wake_all shared_calls shared_body shared_fail shared_ret shared_dinv shared_dok
  1 has_write "\<lambda>st. \<not> max_readers st"
  by unfold_locales (use shared_gate1_wait shared_gate1_opens in blast)+

lemma shared_wait_gate:
  "sm.sys\<^sup>*\<^sup>* shared_start c \<Longrightarrow> waits_as (\<lambda>g b. at_gate2 b \<longrightarrow> g = 2) c"
  by (rule monitor.waits_as_steps [OF sm.monitor_axioms])
    (auto simp: shared_defs at_gate2_def split: shared_phase.splits if_splits)

text \<open>A run that is not fine has passed the maximum.\<close>

lemma fine_or_maximum:
  assumes "sm.sys\<^sup>*\<^sup>* c0 c"
  shows "gate1.fine_sys\<^sup>*\<^sup>* c0 c \<or>
    (\<exists>c'. sm.sys\<^sup>*\<^sup>* c0 c' \<and> sm.sys\<^sup>*\<^sup>* c' c \<and> max_readers (mon_data (shared c')))"
  using assms
proof (induction rule: rtranclp_induct)
  case (step c1 c2)
  show ?case
  proof (cases "max_readers (mon_data (shared c1))")
    case True
    then show ?thesis using step.hyps by blast
  next
    case False
    then have "gate1.fine_sys c1 c2" using step.hyps(2) by (simp add: fine_step_def)
    then show ?thesis using step.IH step.hyps(2) by (meson rtranclp.rtrancl_into_rtrancl)
  qed
qed blast

lemma shared_gate1_holder:
  assumes run: "gate1.fine_sys\<^sup>*\<^sup>* shared_start c" and rest: "at_rest c"
    and one: "waits_at 1 c t" and two: "\<And>u. \<not> waits_at 2 c u"
  shows "\<exists>v. fst (th_held (thread_of c v))"
proof -
  have hw: "has_write (mon_data (shared c))"
    by (rule gate1.none_left_behind [OF run shared_start_owned rest one])
  obtain w where w: "sm.owned w c"
    by (rule sm.reach_owned [OF gate1.fine_sys_sys [OF run] shared_start_owned])
  then obtain v where v: "g_writer w = Some v"
    using hw by (auto simp: sm.owned_def sm.minv_def shared_dinv_def)
  have view: "writer_view True (g_active w) (fst (th_held (thread_of c v)))
      (stage (th_call (thread_of c v)))"
    using w v unfolding sm.owned_def sm.ok_def shared_dok_def by metis
  have "at_rest_frame (shared c) v (th_call (thread_of c v))" using rest by (simp add: at_rest_def)
  then have "fst (th_held (thread_of c v))"
  proof (cases "th_call (thread_of c v)")
    case (Some f)
    obtain g tp b where f: "f = M_wait g tp Cv_park b"
      using \<open>at_rest_frame (shared c) v (th_call (thread_of c v))\<close> Some by (cases f) auto
    have "at_gate2 b \<Longrightarrow> g = 2"
      using shared_wait_gate [OF gate1.fine_sys_sys [OF run]] Some f unfolding waits_as_def by blast
    then have "\<not> at_gate2 b" using two Some f by (auto simp: waits_at_def)
    then show ?thesis using view Some f by (simp add: writer_view_def)
  qed (use view in \<open>simp add: writer_view_def\<close>)
  then show ?thesis by blast
qed

text \<open>
  C20: \<open>Shared_mutex\<close> and \<open>Shared_timed_mutex\<close> leave nobody behind, but for one case. When every
  thread is at rest and one of them, reader or writer, sleeps at a gate, then some client holds the
  mutex, exclusively or shared. The exception is a sleeper at gate 1 in a run in which the number of
  shares has reached its maximum of 2147483647 before: when it drops from there, \<open>unlock_shared\<close>
  wakes only one of those that wait for a share.
\<close>

theorem Shared_mutex_none_left_behind:
  assumes run: "sm.sys\<^sup>*\<^sup>* shared_start c" and rest: "at_rest c"
    and "waits_at 1 c t \<or> waits_at 2 c t"
  shows "(\<exists>v. fst (th_held (thread_of c v)) \<or> 0 < snd (th_held (thread_of c v))) \<or>
    \<not> waits_at 2 c t \<and> (\<exists>c'. sm.sys\<^sup>*\<^sup>* shared_start c' \<and> sm.sys\<^sup>*\<^sup>* c' c \<and>
      sm_count (mon_data (shared c')) = 2147483647)"
proof (cases "\<exists>u. waits_at 2 c u")
  case True
  then show ?thesis using shared_gate2_holder [OF run] rest by blast
next
  case False
  then have one: "waits_at 1 c t" using assms(3) by blast
  from fine_or_maximum [OF run] show ?thesis
  proof
    assume "gate1.fine_sys\<^sup>*\<^sup>* shared_start c"
    then show ?thesis using shared_gate1_holder [OF _ rest one] False by blast
  qed (use False in \<open>auto simp: max_readers_count\<close>)
qed

text \<open>
  Thread 1 holds the mutex shared; thread 2 asks for it exclusively and sleeps at gate 2; thread 3
  asks for a share and sleeps at gate 1. The witness is about both sleepers.
\<close>

definition gates_run :: "(tid \<times> ((shared_phase, shared_result) mon_frame \<times> shares) option) list" where
  "gates_run =
     [(1, Some (M_lock Sm_shared, (False, 0))), (1, None), (1, None), (1, None), (1, None)] @
     [(2, Some (M_lock Sm_lock1, (False, 0))), (2, None), (2, None), (2, None), (2, None), (2, None),
      (2, None)] @
     [(3, Some (M_lock Sm_shared, (False, 0))), (3, None), (3, None), (3, None), (3, None), (3, None)]"

definition gates_ex ::
  "(u32 mon, shares, (shared_phase, shared_result) mon_frame, shared_result mon_result) conf" where
  "gates_ex = the (exec shared_calls (mon_code shared_body shared_fail) shared_ret gates_run shared_start)"

theorem Shared_mutex_none_left_behind_witness:
  "waits_at 1 gates_ex 3 \<and> waits_at 2 gates_ex 2 \<and>
   (\<exists>v. fst (th_held (thread_of gates_ex v)) \<or> 0 < snd (th_held (thread_of gates_ex v)))"
proof -
  have e: "exec shared_calls (mon_code shared_body shared_fail) shared_ret gates_run shared_start
      = Some gates_ex"
    and *: "at_rest gates_ex" "waits_at 1 gates_ex 3" "waits_at 2 gates_ex 2"
    by (simp_all add: gates_ex_def gates_run_def shared_defs shared_calls_def shared_ret_def mon_exec_defs
        at_rest_def waits_at_def has_write_def has_readers_def max_readers_def sm_write_def
        sm_readers_def readers_bits_def write_bits_def inc_readers_def set_write_def)
  then show ?thesis
    using Shared_mutex_none_left_behind [OF exec_sound [OF e], of 2] by blast
qed

end
