(* ===== verification/Shared_max.thy ===== *)
theory Shared_max
  imports Shared_gates
begin

text \<open>
  \<open>Shared_mutex\<close> at its maximum of 2147483647 shares. \<open>unlock_shared\<close> notifies the waiters of gate 1
  only when the number of shares drops from the maximum, and then only one of them. This theory
  executes the run in which that is not enough: it takes all shares, lets two threads ask for one
  more, and releases everything. The two long parts of the run are inductions over single calls.
\<close>

section \<open>One call\<close>

type_synonym shared_conf =
  "(u32 mon, shares, (shared_phase, shared_result) mon_frame, shared_result mon_result) conf"

definition idle_thread ::
  "bool \<Rightarrow> nat \<Rightarrow> shared_result mon_result option \<Rightarrow>
   (shares, (shared_phase, shared_result) mon_frame, shared_result mon_result) thread" where
  "idle_thread x k r = \<lparr>th_held = (x, k), th_call = None, th_last = r\<rparr>"

lemmas shared_exec_simps = shared_defs shared_calls_def shared_ret_def mon_exec_defs idle_thread_def

definition calls_of :: "tid \<Rightarrow> shared_phase \<Rightarrow> shares \<Rightarrow> nat \<Rightarrow>
   (tid \<times> ((shared_phase, shared_result) mon_frame \<times> shares) option) list" where
  "calls_of t b h n = (t, Some (M_lock b, h)) # replicate n (t, None)"

lemma lock_shared_run:
  assumes "cv_owner (shared c) = None" and "mon_data (shared c) = d"
    and "thread_of c t = idle_thread x k r" and "\<not> has_write d" and "\<not> max_readers d"
  shows "sm.sys\<^sup>*\<^sup>* c (c\<lparr>shared := (shared c)\<lparr>mon_data := inc_readers d\<rparr>, thread_of := (thread_of c)
     (t := idle_thread x (Suc k) (Some (Mon_done (Sm_shared_locked True))))\<rparr>)"
proof (rule exec_sound)
  show "exec shared_calls (mon_code shared_body shared_fail) shared_ret
      (calls_of t Sm_shared (x, k) 4) c =
    Some (c\<lparr>shared := (shared c)\<lparr>mon_data := inc_readers d\<rparr>, thread_of := (thread_of c)
     (t := idle_thread x (Suc k) (Some (Mon_done (Sm_shared_locked True))))\<rparr>)"
    using assms by (simp add: calls_of_def shared_exec_simps numeral_eq_Suc)
qed

lemma unlock_shared_run:
  assumes "cv_owner (shared c) = None" and "mon_data (shared c) = d"
    and "thread_of c t = idle_thread x (Suc k) r" and "\<not> has_write (dec_readers d)"
    and "\<not> max_readers d"
  shows "sm.sys\<^sup>*\<^sup>* c (c\<lparr>shared := (shared c)\<lparr>mon_data := dec_readers d\<rparr>, thread_of := (thread_of c)
     (t := idle_thread x k (Some (Mon_done Sm_unlocked)))\<rparr>)"
proof (rule exec_sound)
  show "exec shared_calls (mon_code shared_body shared_fail) shared_ret
      (calls_of t Sm_unlock_shared (x, k) 4) c =
    Some (c\<lparr>shared := (shared c)\<lparr>mon_data := dec_readers d\<rparr>, thread_of := (thread_of c)
     (t := idle_thread x k (Some (Mon_done Sm_unlocked)))\<rparr>)"
    using assms by (simp add: calls_of_def shared_exec_simps numeral_eq_Suc)
qed

section \<open>Many calls\<close>

lemma of_nat_state:
  assumes "m < 2 ^ 31"
  shows "\<not> has_write (of_nat m)" and "max_readers (of_nat m) \<longleftrightarrow> m = 2 ^ 31 - 1"
    and "inc_readers (of_nat m) = of_nat (Suc m)" and "dec_readers (of_nat (Suc m)) = of_nat m"
proof -
  have u: "unat (of_nat m :: u32) = m" using assms by (simp add: unat_of_nat)
  show "\<not> has_write (of_nat m)" using assms by (simp only: write_of_unat u not_le)
  show "max_readers (of_nat m) \<longleftrightarrow> m = 2 ^ 31 - 1"
    using assms by (simp only: max_readers_count sm_count_mod u mod_less)
  show "inc_readers (of_nat m) = of_nat (Suc m)" "dec_readers (of_nat (Suc m)) = of_nat m"
    by (simp_all add: inc_readers_def dec_readers_def)
qed

definition with_shares :: "tid \<Rightarrow> bool \<Rightarrow> nat \<Rightarrow> nat \<Rightarrow> shared_result mon_result option \<Rightarrow>
   shared_conf \<Rightarrow> shared_conf" where
  "with_shares t x k m r c = c\<lparr>shared := (shared c)\<lparr>mon_data := of_nat m\<rparr>,
     thread_of := (thread_of c)(t := idle_thread x k r)\<rparr>"

lemma with_shares_simps [simp]:
  "cv_owner (shared (with_shares t x k m r c)) = cv_owner (shared c)"
  "mon_data (shared (with_shares t x k m r c)) = of_nat m"
  "thread_of (with_shares t x k m r c) t = idle_thread x k r"
  "with_shares t x' k' m' r' (with_shares t x k m r c) = with_shares t x' k' m' r' c"
  by (simp_all add: with_shares_def)

lemma lock_shared_many:
  assumes "cv_owner (shared c) = None" and "m + n \<le> 2 ^ 31 - 1"
  shows "\<exists>r'. sm.sys\<^sup>*\<^sup>* (with_shares t x k m r c) (with_shares t x (k + n) (m + n) r' c)"
  using assms(2)
proof (induction n)
  case (Suc n)
  then obtain r' where r: "sm.sys\<^sup>*\<^sup>* (with_shares t x k m r c) (with_shares t x (k + n) (m + n) r' c)"
    by auto
  have b: "m + n < 2 ^ 31" "m + n \<noteq> 2 ^ 31 - 1" using Suc.prems by simp_all
  have "sm.sys\<^sup>*\<^sup>* (with_shares t x (k + n) (m + n) r' c) (with_shares t x (k + Suc n) (m + Suc n)
      (Some (Mon_done (Sm_shared_locked True))) c)"
    using lock_shared_run [of "with_shares t x (k + n) (m + n) r' c" "of_nat (m + n)" t x "k + n" r']
      assms(1) of_nat_state [OF b(1)] b(2) by (simp add: with_shares_def)
  then show ?case using r by (meson rtranclp_trans)
qed auto

lemma unlock_shared_many:
  assumes "cv_owner (shared c) = None" and "m + n < 2 ^ 31 - 1"
  shows "\<exists>r'. sm.sys\<^sup>*\<^sup>* (with_shares t x (k + n) (m + n) r c) (with_shares t x k m r' c)"
  using assms(2)
proof (induction n arbitrary: r)
  case (Suc n)
  have b: "m + n < 2 ^ 31" "Suc (m + n) < 2 ^ 31" "Suc (m + n) \<noteq> 2 ^ 31 - 1" using Suc.prems by simp_all
  have "sm.sys\<^sup>*\<^sup>* (with_shares t x (k + Suc n) (m + Suc n) r c) (with_shares t x (k + n) (m + n)
      (Some (Mon_done Sm_unlocked)) c)"
    using unlock_shared_run [of "with_shares t x (k + Suc n) (m + Suc n) r c" "of_nat (m + Suc n)"
        t x "k + n" r] assms(1) of_nat_state [OF b(1)] of_nat_state(2) [OF b(2)] b(3)
    by (simp add: with_shares_def del: of_nat_Suc)
  moreover have "\<exists>r'. sm.sys\<^sup>*\<^sup>* (with_shares t x (k + n) (m + n) (Some (Mon_done Sm_unlocked)) c)
      (with_shares t x k m r' c)" using Suc by simp
  ultimately show ?case by (meson rtranclp_trans)
qed auto

section \<open>The waiter that is left behind\<close>

text \<open>
  At the maximum threads 2 and 3 ask for a share and fall asleep at gate 1. Thread 1 gives back two
  of its shares, thread 2 is woken, takes a share and gives it back.
\<close>

definition at_max :: "shared_result mon_result option \<Rightarrow> shared_conf" where
  "at_max r = with_shares 1 False 2147483647 2147483647 r shared_start"

definition max_run :: "(tid \<times> ((shared_phase, shared_result) mon_frame \<times> shares) option) list" where
  "max_run = calls_of 2 Sm_shared (False, 0) 5 @ calls_of 3 Sm_shared (False, 0) 5 @
     calls_of 1 Sm_unlock_shared (False, 2147483646) 5 @
     calls_of 1 Sm_unlock_shared (False, 2147483645) 4 @
     replicate 6 (2, None) @ calls_of 2 Sm_unlock_shared (False, 0) 4"

lemma calls_of_eval:
  "calls_of t b h 4 = [(t, Some (M_lock b, h)), (t, None), (t, None), (t, None), (t, None)]"
  "calls_of t b h 5 = [(t, Some (M_lock b, h)), (t, None), (t, None), (t, None), (t, None), (t, None)]"
  "replicate 6 x = [x, x, x, x, x, x]"
  by (simp_all add: calls_of_def numeral_eq_Suc)

lemma max_run_ends:
  "\<exists>c. exec shared_calls (mon_code shared_body shared_fail) shared_ret max_run (at_max r) = Some c \<and>
    with_shares 1 False 2147483645 2147483645 (Some (Mon_done Sm_unlocked)) c = c \<and>
    cv_owner (shared c) = None \<and> \<not> cv_check_wait_info 3 (shared c) \<and> waits_at 1 c 3 \<and>
    (\<forall>t. th_held (thread_of c t) = (False, if t = 1 then 2147483645 else 0)) \<and>
    (\<forall>t. t \<noteq> 3 \<longrightarrow> th_call (thread_of c t) = None)"
  by (simp add: at_max_def with_shares_def max_run_def calls_of_eval shared_exec_simps
      waits_at_def has_write_def has_readers_def max_readers_def sm_write_def fun_eq_iff
      sm_readers_def readers_bits_def write_bits_def inc_readers_def dec_readers_def set_write_def)

text \<open>
  C17: At the maximum of shares a waiter is left behind. A state is reachable in which every thread
  is at rest and nobody holds the mutex, exclusively or shared, but a thread that asked for a share
  still sleeps at gate 1: \<open>unlock_shared\<close> wakes only one thread when the number of shares drops from
  its maximum, and none when it drops further.
\<close>

theorem Shared_mutex_waiter_at_maximum:
  "\<exists>c. sm.sys\<^sup>*\<^sup>* shared_start c \<and> at_rest c \<and> waits_at 1 c 3 \<and>
     (\<forall>t. th_held (thread_of c t) = (False, 0))"
proof -
  have "with_shares 1 False 0 0 None shared_start = shared_start"
    by (simp add: with_shares_def idle_thread_def mon_start_def mon_init_def fun_eq_iff)
  then obtain r where r: "sm.sys\<^sup>*\<^sup>* shared_start (at_max r)"
    using lock_shared_many [of shared_start 0 2147483647 1 False 0 None]
    by (auto simp: at_max_def mon_start_def mon_init_def)
  obtain c where c: "sm.sys\<^sup>*\<^sup>* (at_max r) c"
      "with_shares 1 False 2147483645 2147483645 (Some (Mon_done Sm_unlocked)) c = c"
      "cv_owner (shared c) = None" "\<not> cv_check_wait_info 3 (shared c)" "waits_at 1 c 3"
      "\<And>t. th_held (thread_of c t) = (False, if t = 1 then 2147483645 else 0)"
      "\<And>t. t \<noteq> 3 \<Longrightarrow> th_call (thread_of c t) = None"
    using max_run_ends [of r] exec_sound by blast
  obtain r' where "sm.sys\<^sup>*\<^sup>* c (with_shares 1 False 0 0 r' c)"
    using unlock_shared_many [OF c(3), of 0 2147483645 1 False 0 "Some (Mon_done Sm_unlocked)"] c(2)
    by auto
  then have "sm.sys\<^sup>*\<^sup>* shared_start (with_shares 1 False 0 0 r' c)" using r c(1) by (meson rtranclp_trans)
  moreover have "at_rest (with_shares 1 False 0 0 r' c)"
  proof -
    obtain tp b where "th_call (thread_of c 3) = Some (M_wait 1 tp Cv_park b)"
      using c(5) by (auto simp: waits_at_def)
    then have "at_rest_frame (shared (with_shares 1 False 0 0 r' c)) t
        (th_call (thread_of (with_shares 1 False 0 0 r' c) t))" for t
      using c(4) c(7) [of t] by (cases "t = 3")
        (auto simp: with_shares_def idle_thread_def cv_check_wait_info_def time_reached_def)
    then show ?thesis by (simp add: at_rest_def)
  qed
  moreover have "waits_at 1 (with_shares 1 False 0 0 r' c) 3"
    using c(5) by (simp add: waits_at_def with_shares_def)
  moreover have "th_held (thread_of (with_shares 1 False 0 0 r' c) t) = (False, 0)" for t
    using c(6) [of t] by (simp add: with_shares_def idle_thread_def)
  ultimately show ?thesis by blast
qed

end
