(* ===== verification/Semaphore.thy ===== *)
theory Semaphore
  imports Wakeup
begin

text \<open>
  A client of \<open>Mutex\<close> and \<open>Condition_variable\<close>: a counting semaphore, written as one writes it with
  \<open>std::mutex\<close> and \<open>std::condition_variable\<close>. Its only purpose is to show what \<open>notify_one\<close> does when
  several threads wait. \<open>acquire\<close> waits for the count to be positive and takes one; \<open>release\<close> adds one
  and, after leaving the mutex, calls \<open>notify_one\<close>.
\<close>

datatype sem_phase = Sem_acquire | Sem_release

definition sem_body :: "(sem_phase, unit, nat) body" where
  "sem_body t now b n = (case b of
       Sem_acquire \<Rightarrow> wait_pred (n \<noteq> 0) 0 Sem_acquire n (O_leave () [], n - 1)
     | Sem_release \<Rightarrow> (O_leave () [N_one 0], Suc n))"

definition sem_calls :: "unit \<Rightarrow> (sem_phase, unit) mon_frame \<Rightarrow> unit \<Rightarrow> bool" where
  "sem_calls h f h' \<longleftrightarrow> (\<exists>b. f = M_lock b) \<or> (\<exists>d. f = M_tick d)"

abbreviation "sem_code \<equiv> mon_code sem_body (\<lambda>b. ())"
abbreviation "sem_ret \<equiv> \<lambda>(r :: unit mon_result) (h :: unit). ()"

text \<open>
  C35: \<open>notify_one\<close> can be lost. Two threads wait for a semaphore and it is released twice, with one
  call of \<open>notify_one\<close> each; a state is reachable in which all threads are at rest and the count is
  one, but the second waiter still sleeps. Both calls have notified the thread at the front of the
  list, which stays there until it has locked the mutex again.
\<close>

theorem Second_notify_one_lost:
  "\<exists>c. (any_step sem_calls sem_code sem_ret)\<^sup>*\<^sup>* (mon_start (\<lambda>_. ()) 0) c \<and>
     at_rest c \<and> waits_at 0 c 2 \<and> mon_data (shared c) = 1"
proof -
  let ?acquire = "\<lambda>t. [(t, Some (M_lock Sem_acquire, ())), (t, None), (t, None), (t, None), (t, None),
    (t, None)]"
  let ?release = "[(3, Some (M_lock Sem_release, ())), (3, None), (3, None), (3, None), (3, None),
    (3, None)]"
  let ?run = "?acquire 1 @ ?acquire 2 @ ?release @ ?release @
    [(1, None), (1, None), (1, None), (1, None), (1, None), (1, None)]"
  let ?c = "the (exec sem_calls sem_code sem_ret ?run (mon_start (\<lambda>_. ()) 0))"
  have "exec sem_calls sem_code sem_ret ?run (mon_start (\<lambda>_. ()) 0) = Some ?c"
    and "at_rest ?c" "waits_at 0 ?c 2" "mon_data (shared ?c) = 1"
    by (simp_all add: sem_body_def wait_pred_def sem_calls_def mon_exec_defs at_rest_def waits_at_def)
  from exec_sound [OF this(1)] this(2-4) show ?thesis by blast
qed

end
