(* ===== verification/Condition_variable_any.thy ===== *)
theory Condition_variable_any
  imports Condition_variable
begin

text \<open>
  \<open>Condition_variable_any\<close> of \<open>condition_variable.hpp\<close> and \<open>condition_variable.cpp\<close>: a condition
  variable for any lock of the user's. It has a \<open>Mutex\<close> of its own, which a waiter takes before it
  releases the user's lock and which a notifier takes and releases before it notifies. One step
  is one operation on the two locks, the list of waiters, a wait info or the user's data.

  The user's lock is a lock that blocks until it is free. The user's data are one flag, the
  predicate that is waited for, which clients set and clear while they hold the lock.
\<close>

section \<open>State\<close>

record ca_mem = cv_mem +
  ca_user :: "tid option"
  ca_ready :: bool

definition ca_init :: ca_mem where
  "ca_init = \<lparr>cv_owner = None, cv_waiters = (\<lambda>_. []), cv_cond = (\<lambda>_. False),
     cv_time = (\<lambda>_. None), cv_now = 0, ca_user = None, ca_ready = False\<rparr>"

section \<open>Waiting without a predicate\<close>

datatype cv_status = No_timeout | Timeout | System_error

text \<open>
  The objects of \<open>wait\<close> and \<open>wait_until\<close>, in the order of their constructors, the wait on the inner
  condition variable, and the destructors in the reverse order. Without a time point the clock
  is not read: \<open>Cw_enter\<close> and \<open>Cw_clock\<close> then have no effect. \<open>System_error\<close> is the exception of
  \<open>Mutex::lock\<close>.
\<close>

datatype ca_pc =
    Cw_lock_inner | Cw_unlock_user | Cw_enter | Cw_wait cv_pc | Cw_clock
  | Cw_unlock_inner bool | Cw_lock_user bool

definition lock_user :: "tid \<Rightarrow> ca_mem \<Rightarrow> bool \<times> ca_mem" where
  "lock_user t m = (if ca_user m = None then (True, m\<lparr>ca_user := Some t\<rparr>) else (False, m))"

definition ca_wait ::
  "time_point option \<Rightarrow> tid \<Rightarrow> ca_pc \<Rightarrow> ca_mem \<Rightarrow> (ca_pc + cv_status) \<times> ca_mem" where
  "ca_wait tp t pc m = (case pc of
       Cw_lock_inner \<Rightarrow> (case cv_lock t m of
           (Cv_got, m') \<Rightarrow> (Inl Cw_unlock_user, m')
         | (Cv_error, m') \<Rightarrow> (Inr System_error, m')
         | (Cv_busy, m') \<Rightarrow> (Inl Cw_lock_inner, m'))
     | Cw_unlock_user \<Rightarrow> (Inl Cw_enter, m\<lparr>ca_user := None\<rparr>)
     | Cw_enter \<Rightarrow> (Inl (if time_reached tp (cv_now m) then Cw_unlock_inner True else Cw_wait Cv_add), m)
     | Cw_wait p \<Rightarrow> (case wait_internal 0 tp t p m of
           (Inl p', m') \<Rightarrow> (Inl (Cw_wait p'), m')
         | (Inr _, m') \<Rightarrow> (Inl Cw_clock, m'))
     | Cw_clock \<Rightarrow> (Inl (Cw_unlock_inner (time_reached tp (cv_now m))), m)
     | Cw_unlock_inner late \<Rightarrow> (Inl (Cw_lock_user late), cv_unlock m)
     | Cw_lock_user late \<Rightarrow> (case lock_user t m of
           (True, m') \<Rightarrow> (Inr (if late then Timeout else No_timeout), m')
         | (False, m') \<Rightarrow> (Inl (Cw_lock_user late), m')))"

section \<open>Notifying\<close>

datatype ca_npc = Cn_lock | Cn_unlock | Cn_notify

text \<open>\<open>notify_one\<close> and \<open>notify_all\<close>. The result \<open>False\<close> is \<open>std::terminate\<close>: they are \<open>noexcept\<close>.\<close>

definition ca_notify :: "bool \<Rightarrow> tid \<Rightarrow> ca_npc \<Rightarrow> ca_mem \<Rightarrow> (ca_npc + bool) \<times> ca_mem" where
  "ca_notify all t pc m = (case pc of
       Cn_lock \<Rightarrow> (case cv_lock t m of
           (Cv_got, m') \<Rightarrow> (Inl Cn_unlock, m')
         | (Cv_error, m') \<Rightarrow> (Inr False, m')
         | (Cv_busy, m') \<Rightarrow> (Inl Cn_lock, m'))
     | Cn_unlock \<Rightarrow> (Inl Cn_notify, cv_unlock m)
     | Cn_notify \<Rightarrow> (Inr True, if all then notify_all 0 m else notify_one 0 m))"

section \<open>Waiting for a predicate\<close>

text \<open>
  \<open>wait\<close> and \<open>wait_until\<close> with a predicate: it is tested, the thread waits, and after a timeout the
  predicate is tested once more for the result.
\<close>

datatype ca_apc = Cp_test | Cp_wait ca_pc | Cp_last

definition ca_await ::
  "time_point option \<Rightarrow> tid \<Rightarrow> ca_apc \<Rightarrow> ca_mem \<Rightarrow> (ca_apc + bool option) \<times> ca_mem" where
  "ca_await tp t pc m = (case pc of
       Cp_test \<Rightarrow> (if ca_ready m then Inr (Some True) else Inl (Cp_wait Cw_lock_inner), m)
     | Cp_wait p \<Rightarrow> (case ca_wait tp t p m of
           (Inl p', m') \<Rightarrow> (Inl (Cp_wait p'), m')
         | (Inr No_timeout, m') \<Rightarrow> (Inl Cp_test, m')
         | (Inr Timeout, m') \<Rightarrow> (Inl Cp_last, m')
         | (Inr System_error, m') \<Rightarrow> (Inr None, m'))
     | Cp_last \<Rightarrow> (Inr (Some (ca_ready m)), m))"

section \<open>Clients\<close>

text \<open>
  A client locks and unlocks, waits for the predicate, clears it, and signals: it sets the
  predicate and calls \<open>notify_all\<close>, after it has released the lock or while it holds it. It may
  notify at any other time too. \<open>Ca_notify all s pc\<close> is a notification, \<open>s\<close> if it is part of a signal.
\<close>

datatype ca_frame =
    Ca_lock | Ca_unlock | Ca_await "time_point option" ca_apc
  | Ca_clear | Ca_set bool | Ca_set_unlock | Ca_notify bool bool ca_npc | Ca_tick int

datatype ca_result = Ca_locked | Ca_done | Ca_awaited bool | Ca_error

definition ca_code :: "tid \<Rightarrow> ca_frame \<Rightarrow> ca_mem \<Rightarrow> (ca_frame + ca_result) \<times> ca_mem" where
  "ca_code t f m = (case f of
       Ca_lock \<Rightarrow> (case lock_user t m of
           (True, m') \<Rightarrow> (Inr Ca_locked, m') | (False, m') \<Rightarrow> (Inl Ca_lock, m'))
     | Ca_unlock \<Rightarrow> (Inr Ca_done, m\<lparr>ca_user := None\<rparr>)
     | Ca_await tp pc \<Rightarrow> (case ca_await tp t pc m of
           (Inl pc', m') \<Rightarrow> (Inl (Ca_await tp pc'), m')
         | (Inr (Some b), m') \<Rightarrow> (Inr (Ca_awaited b), m')
         | (Inr None, m') \<Rightarrow> (Inr Ca_error, m'))
     | Ca_clear \<Rightarrow> (Inr Ca_done, m\<lparr>ca_ready := False\<rparr>)
     | Ca_set first_unlock \<Rightarrow>
         (Inl (if first_unlock then Ca_set_unlock else Ca_notify True True Cn_lock), m\<lparr>ca_ready := True\<rparr>)
     | Ca_set_unlock \<Rightarrow> (Inl (Ca_notify True True Cn_lock), m\<lparr>ca_user := None\<rparr>)
     | Ca_notify all s pc \<Rightarrow> (case ca_notify all t pc m of
           (Inl pc', m') \<Rightarrow> (Inl (Ca_notify all s pc'), m')
         | (Inr b, m') \<Rightarrow> (Inr (if b then Ca_done else Ca_error), m'))
     | Ca_tick d \<Rightarrow> (Inr Ca_done, cv_advance d m))"

text \<open>A client knows whether it holds the lock, and whether the predicate holds since its last wait.\<close>

record ca_client =
  ca_held :: bool
  ca_knows :: bool

definition ca_calls :: "ca_client \<Rightarrow> ca_frame \<Rightarrow> ca_client \<Rightarrow> bool" where
  "ca_calls h f h' \<longleftrightarrow> (case f of
       Ca_lock \<Rightarrow> \<not> ca_held h \<and> h' = h
     | Ca_unlock \<Rightarrow> ca_held h \<and> h' = \<lparr>ca_held = False, ca_knows = False\<rparr>
     | Ca_await tp pc \<Rightarrow> ca_held h \<and> pc = Cp_test \<and> h' = h\<lparr>ca_knows := False\<rparr>
     | Ca_clear \<Rightarrow> ca_held h \<and> h' = h\<lparr>ca_knows := False\<rparr>
     | Ca_set first_unlock \<Rightarrow> ca_held h \<and> h' = \<lparr>ca_held = \<not> first_unlock, ca_knows = False\<rparr>
     | Ca_set_unlock \<Rightarrow> False
     | Ca_notify all s pc \<Rightarrow> \<not> s \<and> pc = Cn_lock \<and> h' = h
     | Ca_tick d \<Rightarrow> h' = h)"

text \<open>The relative variant with a predicate starts with a reading of the clock; it is one of the calls.\<close>

definition ca_wait_for :: "int \<Rightarrow> time_point \<Rightarrow> ca_frame" where
  "ca_wait_for rel_time now = Ca_await (Some (now + rel_time)) Cp_test"

lemma ca_wait_for_call: "ca_held h \<Longrightarrow> ca_calls h (ca_wait_for rel_time now) (h\<lparr>ca_knows := False\<rparr>)"
  by (simp add: ca_calls_def ca_wait_for_def)

definition ca_ret :: "ca_result \<Rightarrow> ca_client \<Rightarrow> ca_client" where
  "ca_ret r h = (case r of
       Ca_locked \<Rightarrow> h\<lparr>ca_held := True\<rparr>
     | Ca_awaited b \<Rightarrow> h\<lparr>ca_knows := b\<rparr>
     | _ \<Rightarrow> h)"

section \<open>The invariant\<close>

text \<open>Who holds which lock, who is listed, and who is in the middle of a signal: before and after
  taking the inner mutex.\<close>

definition ca_holds_user :: "bool \<Rightarrow> ca_frame option \<Rightarrow> bool" where
  "ca_holds_user held q \<longleftrightarrow> (case q of
       Some Ca_lock \<Rightarrow> False
     | Some Ca_unlock \<Rightarrow> True
     | Some (Ca_await tp (Cp_wait pc)) \<Rightarrow> pc = Cw_lock_inner \<or> pc = Cw_unlock_user
     | Some (Ca_await tp pc) \<Rightarrow> True
     | Some Ca_clear \<Rightarrow> True
     | Some (Ca_set b) \<Rightarrow> True
     | Some Ca_set_unlock \<Rightarrow> True
     | _ \<Rightarrow> held)"

fun ca_holds_inner :: "ca_frame option \<Rightarrow> bool" where
  "ca_holds_inner (Some (Ca_await tp (Cp_wait pc))) \<longleftrightarrow> (case pc of
       Cw_lock_inner \<Rightarrow> False | Cw_lock_user st \<Rightarrow> False | Cw_wait p \<Rightarrow> cv_holds p | _ \<Rightarrow> True)"
| "ca_holds_inner (Some (Ca_notify all s pc)) \<longleftrightarrow> pc = Cn_unlock"
| "ca_holds_inner q \<longleftrightarrow> False"

fun ca_listed :: "ca_frame option \<Rightarrow> bool" where
  "ca_listed (Some (Ca_await tp (Cp_wait (Cw_wait p)))) \<longleftrightarrow> cv_listed p"
| "ca_listed q \<longleftrightarrow> False"

fun ca_early :: "ca_frame option \<Rightarrow> bool" where
  "ca_early (Some Ca_set_unlock) \<longleftrightarrow> True"
| "ca_early (Some (Ca_notify all s pc)) \<longleftrightarrow> s \<and> pc = Cn_lock"
| "ca_early q \<longleftrightarrow> False"

fun ca_late :: "ca_frame option \<Rightarrow> bool" where
  "ca_late (Some (Ca_notify all s pc)) \<longleftrightarrow> s \<and> pc \<noteq> Cn_lock"
| "ca_late q \<longleftrightarrow> False"

text \<open>What the client knows during a call; a signal notifies all.\<close>

fun ca_frame_ok :: "ca_client \<Rightarrow> ca_frame option \<Rightarrow> bool" where
  "ca_frame_ok h None \<longleftrightarrow> True"
| "ca_frame_ok h (Some (Ca_tick d)) \<longleftrightarrow> True"
| "ca_frame_ok h (Some (Ca_notify all s pc)) \<longleftrightarrow> (s \<longrightarrow> all)"
| "ca_frame_ok h (Some (Ca_await tp pc)) \<longleftrightarrow> ca_held h \<and> \<not> ca_knows h"
| "ca_frame_ok h (Some Ca_clear) \<longleftrightarrow> ca_held h \<and> \<not> ca_knows h"
| "ca_frame_ok h (Some (Ca_set b)) \<longleftrightarrow> ca_held h = (\<not> b) \<and> \<not> ca_knows h"
| "ca_frame_ok h (Some f) \<longleftrightarrow> \<not> ca_held h \<and> \<not> ca_knows h"

record ca_ghost =
  ca_earlies :: "tid set"
  ca_lates :: "tid set"

text \<open>Why a waiter has not missed a signal.\<close>

fun ca_told :: "ca_ghost \<Rightarrow> ca_mem \<Rightarrow> tid \<Rightarrow> ca_frame option \<Rightarrow> bool" where
  "ca_told w m t (Some (Ca_await tp (Cp_wait Cw_lock_inner))) \<longleftrightarrow> \<not> ca_ready m"
| "ca_told w m t (Some (Ca_await tp (Cp_wait Cw_unlock_user))) \<longleftrightarrow> \<not> ca_ready m"
| "ca_told w m t (Some (Ca_await tp (Cp_wait Cw_enter))) \<longleftrightarrow> \<not> ca_ready m \<or> ca_earlies w \<noteq> {}"
| "ca_told w m t (Some (Ca_await tp (Cp_wait (Cw_wait Cv_add)))) \<longleftrightarrow> \<not> ca_ready m \<or> ca_earlies w \<noteq> {}"
| "ca_told w m t (Some (Ca_await tp (Cp_wait (Cw_wait Cv_set)))) \<longleftrightarrow> \<not> ca_ready m \<or> ca_earlies w \<noteq> {}"
| "ca_told w m t (Some (Ca_await tp (Cp_wait (Cw_wait Cv_unlock)))) \<longleftrightarrow> \<not> ca_ready m \<or> ca_earlies w \<noteq> {}"
| "ca_told w m t (Some (Ca_await tp (Cp_wait (Cw_wait Cv_park)))) \<longleftrightarrow>
     \<not> ca_ready m \<or> ca_earlies w \<noteq> {} \<or> ca_lates w \<noteq> {} \<or> cv_check_wait_info t m"
| "ca_told w m t q \<longleftrightarrow> True"

definition ca_minv :: "ca_ghost \<Rightarrow> ca_mem \<Rightarrow> bool" where
  "ca_minv w m \<longleftrightarrow> distinct (cv_waiters m 0)"

definition ca_ok :: "ca_ghost \<Rightarrow> ca_mem \<Rightarrow> tid \<Rightarrow> ca_client \<Rightarrow> ca_frame option \<Rightarrow> bool" where
  "ca_ok w m t h q \<longleftrightarrow> (ca_holds_user (ca_held h) q \<longleftrightarrow> ca_user m = Some t) \<and>
     (ca_holds_inner q \<longleftrightarrow> cv_owner m = Some t) \<and>
     (t \<in> set (cv_waiters m 0) \<longleftrightarrow> ca_listed q) \<and>
     (t \<in> ca_earlies w \<longleftrightarrow> ca_early q) \<and> (t \<in> ca_lates w \<longleftrightarrow> ca_late q) \<and>
     ca_frame_ok h q \<and> (ca_knows h \<longrightarrow> ca_held h \<and> ca_ready m) \<and> ca_told w m t q"

lemmas ca_defs = ca_code_def ca_await_def ca_wait_def ca_notify_def lock_user_def

text \<open>What an access leaves to another thread: one line for each clause of \<open>ca_ok\<close>.\<close>

definition ca_others :: "tid \<Rightarrow> ca_ghost \<Rightarrow> ca_ghost \<Rightarrow> ca_mem \<Rightarrow> ca_mem \<Rightarrow> bool" where
  "ca_others t w w' m m' \<longleftrightarrow> (\<forall>u. u \<noteq> t \<longrightarrow>
     (ca_user m' = Some u \<longleftrightarrow> ca_user m = Some u) \<and> (cv_owner m' = Some u \<longleftrightarrow> cv_owner m = Some u) \<and>
     (u \<in> set (cv_waiters m' 0) \<longleftrightarrow> u \<in> set (cv_waiters m 0)) \<and>
     (u \<in> ca_earlies w' \<longleftrightarrow> u \<in> ca_earlies w) \<and> (u \<in> ca_lates w' \<longleftrightarrow> u \<in> ca_lates w) \<and>
     (cv_check_wait_info u m \<longrightarrow> cv_check_wait_info u m') \<and>
     (ca_user m = Some u \<longrightarrow> ca_ready m' = ca_ready m) \<and>
     (cv_owner m = Some u \<longrightarrow> \<not> ca_ready m \<or> ca_earlies w \<noteq> {} \<longrightarrow> \<not> ca_ready m' \<or> ca_earlies w' \<noteq> {}) \<and>
     (u \<in> set (cv_waiters m 0) \<longrightarrow> \<not> ca_ready m \<or> ca_earlies w \<noteq> {} \<or> ca_lates w \<noteq> {} \<longrightarrow>
        \<not> ca_ready m' \<or> ca_earlies w' \<noteq> {} \<or> ca_lates w' \<noteq> {} \<or> cv_cond m' u))"

lemma ca_okD:
  assumes "ca_ok w m t h q"
  shows "ca_holds_user (ca_held h) q \<longleftrightarrow> ca_user m = Some t" "ca_holds_inner q \<longleftrightarrow> cv_owner m = Some t"
    "t \<in> set (cv_waiters m 0) \<longleftrightarrow> ca_listed q" "t \<in> ca_earlies w \<longleftrightarrow> ca_early q"
    "t \<in> ca_lates w \<longleftrightarrow> ca_late q" "ca_frame_ok h q" "ca_knows h \<Longrightarrow> ca_held h \<and> ca_ready m"
    "ca_told w m t q"
  using assms unfolding ca_ok_def by blast+

lemma ca_knows_holds: "ca_frame_ok h q \<Longrightarrow> ca_knows h \<Longrightarrow> ca_held h \<Longrightarrow> ca_holds_user (ca_held h) q"
  by (cases "(h, q)" rule: ca_frame_ok.cases) (auto simp: ca_holds_user_def)

lemma ca_others_ok:
  assumes o: "ca_others t w w' m m'" and "u \<noteq> t" and ok: "ca_ok w m u h q"
  shows "ca_ok w' m' u h q"
proof -
  note f = o [unfolded ca_others_def, rule_format, OF \<open>u \<noteq> t\<close>]
  note d = ca_okD [OF ok]
  have user: "ca_ready m' = ca_ready m" if "ca_holds_user (ca_held h) q" using f d(1) that by blast
  have inner: "\<not> ca_ready m' \<or> ca_earlies w' \<noteq> {}" if "ca_holds_inner q"
    "\<not> ca_ready m \<or> ca_earlies w \<noteq> {}" using f d(2) that by blast
  have park: "\<not> ca_ready m' \<or> ca_earlies w' \<noteq> {} \<or> ca_lates w' \<noteq> {} \<or> cv_check_wait_info u m'"
    if "ca_listed q" "\<not> ca_ready m \<or> ca_earlies w \<noteq> {} \<or> ca_lates w \<noteq> {} \<or> cv_check_wait_info u m"
    using f d(3) that unfolding cv_check_wait_info_def by blast
  have "ca_told w' m' u q"
    using d(8) user inner park
    by (cases "(w, m, u, q)" rule: ca_told.cases)
      (simp_all add: ca_holds_user_def cv_holds_def cv_listed_def)
  moreover have "ca_knows h \<longrightarrow> ca_held h \<and> ca_ready m'"
    using d(6,7) ca_knows_holds user by blast
  ultimately show ?thesis using f d unfolding ca_ok_def by blast
qed

section \<open>Preservation\<close>

text \<open>The ghost follows the thread's new frame.\<close>

definition ca_move :: "tid \<Rightarrow> ca_frame option \<Rightarrow> ca_ghost \<Rightarrow> ca_ghost" where
  "ca_move t q w = \<lparr>ca_earlies = (if ca_early q then insert t (ca_earlies w) else ca_earlies w - {t}),
     ca_lates = (if ca_late q then insert t (ca_lates w) else ca_lates w - {t})\<rparr>"

lemma ca_move_same:
  assumes "ca_ok w m t h q" and "ca_early q' = ca_early q" and "ca_late q' = ca_late q"
  shows "ca_move t q' w = w"
proof -
  have "(t \<in> ca_earlies w) = ca_early q" "(t \<in> ca_lates w) = ca_late q" using ca_okD [OF assms(1)] by auto
  then show ?thesis using assms(2,3) by (auto simp: ca_move_def insert_absorb)
qed

lemma ca_move_self [simp]:
  "t \<in> ca_earlies (ca_move t q w) \<longleftrightarrow> ca_early q" "t \<in> ca_lates (ca_move t q w) \<longleftrightarrow> ca_late q"
  by (auto simp: ca_move_def)

lemma ca_move_other [simp]:
  "u \<noteq> t \<Longrightarrow> u \<in> ca_earlies (ca_move t q w) \<longleftrightarrow> u \<in> ca_earlies w"
  "u \<noteq> t \<Longrightarrow> u \<in> ca_lates (ca_move t q w) \<longleftrightarrow> u \<in> ca_lates w"
  by (auto simp: ca_move_def)

lemma ca_move_some [simp]:
  "ca_early q \<Longrightarrow> ca_earlies (ca_move t q w) \<noteq> {}" "ca_late q \<Longrightarrow> ca_lates (ca_move t q w) \<noteq> {}"
  by (auto simp: ca_move_def)

lemma ca_move_keep [simp]:
  "\<not> ca_early q \<Longrightarrow> t \<notin> ca_earlies w \<Longrightarrow> ca_earlies (ca_move t q w) = ca_earlies w"
  "\<not> ca_late q \<Longrightarrow> t \<notin> ca_lates w \<Longrightarrow> ca_lates (ca_move t q w) = ca_lates w"
  by (auto simp: ca_move_def)

text \<open>What an access must achieve, and one lemma for each kind of access.\<close>

definition ca_next :: "ca_ghost \<Rightarrow> ca_mem \<Rightarrow> tid \<Rightarrow> ca_client \<Rightarrow> ca_mem \<Rightarrow> ca_frame + ca_result \<Rightarrow> bool" where
  "ca_next w m t h m' r \<longleftrightarrow> (\<exists>w'. ca_minv w' m' \<and> ca_others t w w' m m' \<and>
     (case r of Inl f' \<Rightarrow> ca_ok w' m' t h (Some f') | Inr x \<Rightarrow> ca_ok w' m' t (ca_ret x h) None))"

lemma ca_next_frame:
  assumes "ca_minv w m'" and "ca_others t w (ca_move t (Some f') w) m m'"
    and "ca_ok (ca_move t (Some f') w) m' t h (Some f')"
  shows "ca_next w m t h m' (Inl f')"
  using assms by (auto simp: ca_next_def ca_minv_def)

lemma ca_next_none:
  assumes "ca_minv w m'" and "ca_others t w (ca_move t None w) m m'"
    and "ca_ok (ca_move t None w) m' t (ca_ret x h) None"
  shows "ca_next w m t h m' (Inr x)"
  using assms by (auto simp: ca_next_def ca_minv_def)

lemmas ca_go = ca_minv_def ca_others_def ca_ok_def ca_holds_user_def cv_check_wait_info_def

lemma ca_lock_next:
  assumes "ca_minv w m" and "ca_ok w m t h (Some Ca_lock)" and "ca_code t Ca_lock m = (r, m')"
  shows "ca_next w m t h m' r"
proof (cases "ca_user m = None")
  case True
  then have "r = Inr Ca_locked" "m' = m\<lparr>ca_user := Some t\<rparr>" using assms(3) by (auto simp: ca_defs)
  moreover have "ca_move t None w = w" using ca_move_same [OF assms(2), of None] by simp
  ultimately show ?thesis using assms True
    by (auto simp: ca_go ca_ret_def intro!: ca_next_none)
next
  case False
  then have "r = Inl Ca_lock" "m' = m" using assms(3) by (auto simp: ca_defs)
  moreover have "ca_move t (Some Ca_lock) w = w" using ca_move_same [OF assms(2)] by simp
  ultimately show ?thesis using assms by (auto simp: ca_go intro!: ca_next_frame)
qed


lemma ca_unlock_next:
  assumes "ca_minv w m" and "ca_ok w m t h (Some Ca_unlock)" and "ca_code t Ca_unlock m = (r, m')"
  shows "ca_next w m t h m' r"
proof -
  have "r = Inr Ca_done" "m' = m\<lparr>ca_user := None\<rparr>" using assms(3) by (auto simp: ca_defs)
  moreover have "ca_move t None w = w" using ca_move_same [OF assms(2), of None] by simp
  ultimately show ?thesis using assms by (auto simp: ca_go ca_ret_def intro!: ca_next_none)
qed

lemma ca_clear_next:
  assumes "ca_minv w m" and "ca_ok w m t h (Some Ca_clear)" and "ca_code t Ca_clear m = (r, m')"
  shows "ca_next w m t h m' r"
proof -
  have "r = Inr Ca_done" "m' = m\<lparr>ca_ready := False\<rparr>" using assms(3) by (auto simp: ca_defs)
  moreover have "ca_move t None w = w" using ca_move_same [OF assms(2), of None] by simp
  ultimately show ?thesis using assms by (auto simp: ca_go ca_ret_def intro!: ca_next_none)
qed

lemma ca_tick_next:
  assumes "ca_minv w m" and "ca_ok w m t h (Some (Ca_tick d))" and "ca_code t (Ca_tick d) m = (r, m')"
  shows "ca_next w m t h m' r"
proof -
  have "r = Inr Ca_done" "m' = cv_advance d m" using assms(3) by (auto simp: ca_defs)
  moreover have "ca_move t None w = w" using ca_move_same [OF assms(2), of None] by simp
  moreover have "time_reached tp n \<Longrightarrow> time_reached tp (n + max 0 d)" for tp n
    by (auto simp: time_reached_def split: option.splits)
  ultimately show ?thesis using assms by (auto simp: ca_go ca_ret_def cv_advance_def intro!: ca_next_none)
qed

lemma ca_set_next:
  assumes "ca_minv w m" and "ca_ok w m t h (Some (Ca_set b))" and "ca_code t (Ca_set b) m = (r, m')"
  shows "ca_next w m t h m' r"
  using assms by (cases b) (auto simp: ca_go ca_defs intro!: ca_next_frame)

lemma ca_set_unlock_next:
  assumes "ca_minv w m" and "ca_ok w m t h (Some Ca_set_unlock)" and "ca_code t Ca_set_unlock m = (r, m')"
  shows "ca_next w m t h m' r"
proof -
  have "r = Inl (Ca_notify True True Cn_lock)" "m' = m\<lparr>ca_user := None\<rparr>" using assms(3) by (auto simp: ca_defs)
  moreover have "ca_move t (Some (Ca_notify True True Cn_lock)) w = w" using ca_move_same [OF assms(2)] by simp
  ultimately show ?thesis using assms by (auto simp: ca_go intro!: ca_next_frame)
qed

lemma ca_notify_lock_next:
  assumes "ca_minv w m" and "ca_ok w m t h (Some (Ca_notify all s Cn_lock))"
    and "ca_code t (Ca_notify all s Cn_lock) m = (r, m')"
  shows "ca_next w m t h m' r"
proof (cases "cv_owner m")
  case None
  then have "r = Inl (Ca_notify all s Cn_unlock)" "m' = m\<lparr>cv_owner := Some t\<rparr>"
    using assms(3) by (auto simp: ca_defs cv_lock_def)
  then show ?thesis using assms None ca_move_same [OF assms(2), of "Some (Ca_notify all s Cn_unlock)"]
    by (cases s) (auto simp: ca_go intro!: ca_next_frame)
next
  case (Some v)
  have "v \<noteq> t" using ca_okD(2) [OF assms(2)] Some by auto
  then have "r = Inl (Ca_notify all s Cn_lock)" "m' = m"
    using assms(3) Some by (auto simp: ca_defs cv_lock_def)
  moreover have "ca_move t (Some (Ca_notify all s Cn_lock)) w = w" using ca_move_same [OF assms(2)] by simp
  ultimately show ?thesis using assms by (auto simp: ca_go intro!: ca_next_frame)
qed

lemma ca_notify_unlock_next:
  assumes "ca_minv w m" and "ca_ok w m t h (Some (Ca_notify all s Cn_unlock))"
    and "ca_code t (Ca_notify all s Cn_unlock) m = (r, m')"
  shows "ca_next w m t h m' r"
proof -
  have "r = Inl (Ca_notify all s Cn_notify)" "m' = m\<lparr>cv_owner := None\<rparr>"
    using assms(3) by (auto simp: ca_defs cv_unlock_def)
  moreover have "ca_move t (Some (Ca_notify all s Cn_notify)) w = w" using ca_move_same [OF assms(2)] by simp
  ultimately show ?thesis using assms by (auto simp: ca_go intro!: ca_next_frame)
qed


lemma ca_notify_notify_next:
  assumes "ca_minv w m" and "ca_ok w m t h (Some (Ca_notify all s Cn_notify))"
    and "ca_code t (Ca_notify all s Cn_notify) m = (r, m')"
  shows "ca_next w m t h m' r"
proof -
  have r: "r = Inr Ca_done" "m' = (if all then notify_all 0 m else notify_one 0 m)"
    using assms(3) by (auto simp: ca_defs)
  then have f: "cv_owner m' = cv_owner m" "cv_waiters m' = cv_waiters m" "cv_time m' = cv_time m"
    "cv_now m' = cv_now m" "ca_user m' = ca_user m" "ca_ready m' = ca_ready m"
    by (simp_all add: notify_all_eq notify_one_def notify_waiter_def split: list.split)
  have c: "cv_cond m u \<Longrightarrow> cv_cond m' u" "s \<Longrightarrow> u \<in> set (cv_waiters m 0) \<Longrightarrow> cv_cond m' u" for u
    using ca_okD(6) [OF assms(2)] r(2)
    by (auto simp: notify_all_eq notify_one_cond split: list.split)
  have "ca_others t w (ca_move t None w) m m'"
    using ca_move_same [OF assms(2), of None] ca_okD(4) [OF assms(2)]
    by (cases s) (auto simp: ca_others_def cv_check_wait_info_def f dest: c)
  moreover have "ca_ok (ca_move t None w) m' t (ca_ret Ca_done h) None"
    using assms(2) by (auto simp: ca_ok_def ca_holds_user_def ca_ret_def f)
  ultimately show ?thesis unfolding r(1) using assms(1)
    by (intro ca_next_none) (auto simp: ca_minv_def f)
qed

lemma ca_await_move:
  assumes "ca_ok w m t h (Some (Ca_await tp pc))"
  shows "ca_move t (Some (Ca_await tp pc')) w = w" "ca_move t None w = w"
  by (rule ca_move_same [OF assms]; simp)+

lemma ca_await_inner_next:
  assumes "ca_minv w m" and "ca_ok w m t h (Some (Ca_await tp (Cp_wait (Cw_wait p))))"
    and "ca_code t (Ca_await tp (Cp_wait (Cw_wait p))) m = (r, m')"
  shows "ca_next w m t h m' r"
proof -
  note mv = ca_await_move [OF assms(2)]
  show ?thesis using assms
    by (cases p) (auto simp: mv ca_go ca_defs cv_defs cv_holds_def cv_listed_def time_reached_def
      split: if_splits option.splits intro!: ca_next_frame)
qed

lemma ca_await_next:
  assumes "ca_minv w m" and "ca_ok w m t h (Some (Ca_await tp pc))"
    and "ca_code t (Ca_await tp pc) m = (r, m')"
  shows "ca_next w m t h m' r"
proof -
  note mv = ca_await_move [OF assms(2)]
  show ?thesis
  proof (cases pc)
    case (Cp_wait p)
    show ?thesis
    proof (cases "\<exists>p'. p = Cw_wait p'")
      case False
      then show ?thesis using assms Cp_wait
        by (cases p) (auto simp: mv ca_go ca_defs ca_ret_def cv_lock_def cv_unlock_def cv_holds_def cv_listed_def
          split: if_splits cv_status.splits intro!: ca_next_frame ca_next_none)
    qed (use ca_await_inner_next assms Cp_wait in blast)
  qed (use assms in \<open>auto simp: mv ca_go ca_defs ca_ret_def split: if_splits intro!: ca_next_frame ca_next_none\<close>)
qed

lemma ca_code_next:
  assumes "ca_minv w m" and "ca_ok w m t h (Some f)" and "ca_code t f m = (r, m')"
  shows "ca_next w m t h m' r"
proof (cases f)
  case (Ca_notify all s pc)
  then show ?thesis using assms
    by (cases pc) (auto intro: ca_notify_lock_next ca_notify_unlock_next ca_notify_notify_next)
qed (use assms in \<open>auto intro: ca_lock_next ca_unlock_next ca_await_next ca_clear_next ca_set_next
       ca_set_unlock_next ca_tick_next\<close>)

lemma ca_call_ok:
  assumes "ca_ok w m t h None" and "ca_calls h f h'"
  shows "ca_ok w m t h' (Some f)"
  using assms by (cases f) (auto simp: ca_ok_def ca_calls_def ca_holds_user_def)

interpretation ca: ghost_machine ca_calls ca_code ca_ret ca_minv ca_ok
proof
  fix w m t h f r m'
  assume "ca_minv w m" "ca_ok w m t h (Some f)" "ca_code t f m = (r, m')"
  then have "ca_next w m t h m' r" by (rule ca_code_next)
  then show "\<exists>w'. ca_minv w' m' \<and>
      (case r of Inl f' \<Rightarrow> ca_ok w' m' t h (Some f') | Inr x \<Rightarrow> ca_ok w' m' t (ca_ret x h) None) \<and>
      (\<forall>u k q. u \<noteq> t \<longrightarrow> ca_ok w m u k q \<longrightarrow> ca_ok w' m' u k q)"
    unfolding ca_next_def using ca_others_ok by blast
qed (rule ca_call_ok)

definition ca_start :: "(ca_mem, ca_client, ca_frame, ca_result) conf" where
  "ca_start = \<lparr>shared = ca_init, thread_of = (\<lambda>_. \<lparr>th_held = \<lparr>ca_held = False, ca_knows = False\<rparr>,
     th_call = None, th_last = None\<rparr>)\<rparr>"

lemma ca_start_owned: "ca.owned \<lparr>ca_earlies = {}, ca_lates = {}\<rparr> ca_start"
  by (simp add: ca.owned_def ca_start_def ca_init_def ca_minv_def ca_ok_def ca_holds_user_def)

lemma ca_no_error:
  assumes "ca_ok w m t h (Some f)" shows "fst (ca_code t f m) \<noteq> Inr Ca_error"
proof (cases f)
  case (Ca_await tp pc)
  show ?thesis
  proof (cases pc)
    case (Cp_wait p)
    then show ?thesis using ca_okD(2) [OF assms] Ca_await
      by (cases p) (auto simp: ca_defs cv_lock_def split: if_splits prod.splits sum.splits cv_status.splits)
  qed (use Ca_await in \<open>auto simp: ca_defs split: if_splits\<close>)
next
  case (Ca_notify all s pc)
  then show ?thesis using ca_okD(2) [OF assms] by (cases pc) (auto simp: ca_defs cv_lock_def)
qed (auto simp: ca_defs split: if_splits)

text \<open>A thread in the middle of a signal.\<close>

fun ca_signals :: "ca_frame option \<Rightarrow> bool" where
  "ca_signals (Some Ca_set_unlock) \<longleftrightarrow> True"
| "ca_signals (Some (Ca_notify all s pc)) \<longleftrightarrow> s"
| "ca_signals q \<longleftrightarrow> False"

lemma ca_signals_iff: "ca_early q \<or> ca_late q \<longleftrightarrow> ca_signals q"
  by (cases q rule: ca_signals.cases) auto

section \<open>Properties\<close>

text \<open>
  C22: \<open>Condition_variable_any\<close> in every interleaving of its clients. The user's lock is held by one
  thread at most, although \<open>wait\<close> releases and retakes it: who has it between two calls, or inside a
  call that must have it, is its owner. A client whose \<open>wait\<close> returned true and which has done
  nothing with the lock since may rely on the predicate. No call ends in the exception of
  \<open>Mutex::lock\<close>, which would end the process in \<open>notify_one\<close> and \<open>notify_all\<close>. And no signal is missed:
  when the predicate holds, a thread that is parked in \<open>wait\<close> may go on, or a thread that has set
  the predicate is still about to notify it.
\<close>

theorem Condition_variable_any_correct:
  assumes "(any_step ca_calls ca_code ca_ret)\<^sup>*\<^sup>* ca_start c"
  shows "(\<forall>t. ca_holds_user (ca_held (th_held (thread_of c t))) (th_call (thread_of c t)) \<longleftrightarrow>
       ca_user (shared c) = Some t) \<and>
     (\<forall>t. ca_knows (th_held (thread_of c t)) \<longrightarrow> ca_held (th_held (thread_of c t)) \<and> ca_ready (shared c)) \<and>
     (\<forall>t f. th_call (thread_of c t) = Some f \<longrightarrow> fst (ca_code t f (shared c)) \<noteq> Inr Ca_error) \<and>
     (\<forall>t tp. th_call (thread_of c t) = Some (Ca_await tp (Cp_wait (Cw_wait Cv_park))) \<longrightarrow>
       ca_ready (shared c) \<longrightarrow>
       cv_check_wait_info t (shared c) \<or> (\<exists>u. ca_signals (th_call (thread_of c u))))"
proof -
  obtain w where w: "ca.owned w c" by (rule ca.reach_owned [OF assms ca_start_owned])
  have d: "ca_ok w (shared c) t (th_held (thread_of c t)) (th_call (thread_of c t))" for t
    using w by (simp add: ca.owned_def)
  have "cv_check_wait_info t (shared c) \<or> (\<exists>u. ca_signals (th_call (thread_of c u)))"
    if "th_call (thread_of c t) = Some (Ca_await tp (Cp_wait (Cw_wait Cv_park)))"
      "ca_ready (shared c)" for t tp
  proof -
    have "ca_earlies w \<noteq> {} \<or> ca_lates w \<noteq> {} \<or> cv_check_wait_info t (shared c)"
      using ca_okD(8) [OF d [of t]] that by simp
    then show ?thesis using ca_okD(4,5) [OF d] ca_signals_iff by blast
  qed
  then show ?thesis using ca_okD(1,7) [OF d] ca_no_error d by metis
qed

text \<open>Thread 1 waits for the predicate and is parked; thread 2 takes the lock and sets the predicate.\<close>

definition ca_ex :: "(ca_mem, ca_client, ca_frame, ca_result) conf" where
  "ca_ex = the (exec ca_calls ca_code ca_ret
     ([(1, Some (Ca_lock, \<lparr>ca_held = False, ca_knows = False\<rparr>)), (1, None),
       (1, Some (Ca_await None Cp_test, \<lparr>ca_held = True, ca_knows = False\<rparr>))] @
      [(1, None), (1, None), (1, None), (1, None), (1, None), (1, None), (1, None)] @
      [(2, Some (Ca_lock, \<lparr>ca_held = False, ca_knows = False\<rparr>)), (2, None),
       (2, Some (Ca_set True, \<lparr>ca_held = False, ca_knows = False\<rparr>)), (2, None)]) ca_start)"

theorem Condition_variable_any_correct_witness:
  "cv_check_wait_info 1 (shared ca_ex) \<or> (\<exists>u. ca_signals (th_call (thread_of ca_ex u)))"
proof -
  have e: "exec ca_calls ca_code ca_ret
     ([(1, Some (Ca_lock, \<lparr>ca_held = False, ca_knows = False\<rparr>)), (1, None),
       (1, Some (Ca_await None Cp_test, \<lparr>ca_held = True, ca_knows = False\<rparr>))] @
      [(1, None), (1, None), (1, None), (1, None), (1, None), (1, None), (1, None)] @
      [(2, Some (Ca_lock, \<lparr>ca_held = False, ca_knows = False\<rparr>)), (2, None),
       (2, Some (Ca_set True, \<lparr>ca_held = False, ca_knows = False\<rparr>)), (2, None)]) ca_start = Some ca_ex"
    and "th_call (thread_of ca_ex 1) = Some (Ca_await None (Cp_wait (Cw_wait Cv_park)))"
    and "ca_ready (shared ca_ex)"
    by (simp_all add: ca_ex_def ca_start_def ca_init_def exec_step_def ca_calls_def ca_ret_def ca_defs cv_defs
        time_reached_def)
  then show ?thesis using Condition_variable_any_correct [OF exec_sound [OF e]] by blast
qed

end
