(* ===== verification/Weak_memory.thy ===== *)
theory Weak_memory
  imports Threads
begin

text \<open>
  The locks under the memory orders that the code gives. The theories Spinlock, Mutex and
  Recursive_mutex interleave sequentially consistent accesses; here the same frames are executed
  on the memory of C++: an atomic variable is the list of its writes in modification order, a load
  may return an old one, and what a thread knows of the others' accesses (what happens before) is
  passed on only by a release store and an acquire exchange that reads from it. An access to
  ordinary data is a race unless all earlier ones happen before it.

  What the model leaves out permits more behaviour, not less: two loads of one thread may see the
  writes of others in any order, a load of another location tells nothing. Writes are read after
  they have been made.
\<close>

section \<open>Messages and views\<close>

datatype mem_order = Relaxed | Acquire | Release

text \<open>
  What a frame does next: nothing to shared memory, an access to ordinary data, an access to the
  flag of the spinlock, or to \<open>m_tid\<close>.
\<close>

datatype access =
    Ac_none | Ac_plain
  | Ac_load mem_order | Ac_swap mem_order | Ac_store mem_order
  | Ac_load_id mem_order | Ac_store_id mem_order

text \<open>
  A write: its value, its number, the accesses that happen before whoever acquires it, and whether
  an exchange has read it. Two exchanges never read the same write.
\<close>

record 'v message =
  msg_val :: 'v
  msg_event :: nat
  msg_view :: "nat set"
  msg_taken :: bool

text \<open>
  \<open>wm_plain\<close> holds the ordinary variables, \<open>wm_view t\<close> what happens before the next access of
  thread \<open>t\<close>, \<open>wm_touched\<close> the accesses to ordinary data so far.
\<close>

record 'm weak_memory =
  wm_plain :: 'm
  wm_flag :: "u32 message list"
  wm_id :: "tid option message list"
  wm_view :: "tid \<Rightarrow> nat set"
  wm_touched :: "nat set"
  wm_clock :: nat
  wm_race :: bool

definition weak_start :: "'m \<Rightarrow> 'm weak_memory" where
  "weak_start p = \<lparr>wm_plain = p,
     wm_flag = [\<lparr>msg_val = 0, msg_event = 0, msg_view = {0}, msg_taken = False\<rparr>],
     wm_id = [\<lparr>msg_val = None, msg_event = 0, msg_view = {0}, msg_taken = False\<rparr>],
     wm_view = (\<lambda>t. {0}), wm_touched = {}, wm_clock = 1, wm_race = False\<rparr>"

text \<open>Coherence: no later write happens before the load, or before the new write.\<close>

definition readable :: "nat set \<Rightarrow> 'v message list \<Rightarrow> nat \<Rightarrow> bool" where
  "readable V ms k \<longleftrightarrow> k < length ms \<and> list_all (\<lambda>x. msg_event x \<notin> V) (drop (Suc k) ms)"

definition writable :: "nat set \<Rightarrow> 'v message list \<Rightarrow> nat \<Rightarrow> bool" where
  "writable V ms k \<longleftrightarrow> k \<le> length ms \<and> list_all (\<lambda>x. msg_event x \<notin> V) (drop k ms) \<and>
     (0 < k \<longrightarrow> \<not> msg_taken (ms ! (k - 1)))"

definition acquired :: "mem_order \<Rightarrow> 'v message \<Rightarrow> nat set \<Rightarrow> nat set" where
  "acquired mo x V = (if mo = Acquire then V \<union> msg_view x else V)"

definition released :: "mem_order \<Rightarrow> nat \<Rightarrow> nat set \<Rightarrow> nat set" where
  "released mo e V = (if mo = Release then insert e V else {e})"

definition insert_at :: "nat \<Rightarrow> 'a \<Rightarrow> 'a list \<Rightarrow> 'a list" where
  "insert_at k x xs = take k xs @ x # drop k xs"

text \<open>
  The exchange takes the write that it reads; its own write comes right after it and continues its
  release sequence.
\<close>

definition swap_at :: "nat \<Rightarrow> 'v \<Rightarrow> nat \<Rightarrow> 'v message list \<Rightarrow> 'v message list" where
  "swap_at k v e ms = take k ms @ (ms ! k)\<lparr>msg_taken := True\<rparr> #
     \<lparr>msg_val = v, msg_event = e, msg_view = insert e (msg_view (ms ! k)), msg_taken = False\<rparr> #
     drop (Suc k) ms"

definition see :: "tid \<Rightarrow> nat set \<Rightarrow> 'm weak_memory \<Rightarrow> 'm weak_memory" where
  "see t V m = m\<lparr>wm_view := (wm_view m)(t := V)\<rparr>"

definition tick :: "tid \<Rightarrow> 'm weak_memory \<Rightarrow> 'm weak_memory" where
  "tick t m = m\<lparr>wm_view := (wm_view m)(t := insert (wm_clock m) (wm_view m t)),
     wm_clock := Suc (wm_clock m)\<rparr>"

definition touch :: "tid \<Rightarrow> 'm weak_memory \<Rightarrow> 'm weak_memory" where
  "touch t m = tick t (m\<lparr>wm_touched := insert (wm_clock m) (wm_touched m),
     wm_race := (wm_race m \<or> \<not> wm_touched m \<subseteq> wm_view m t)\<rparr>)"

section \<open>One access\<close>

text \<open>
  How the two atomic variables lie in the memory \<open>'m\<close> that the code of a lock works on. An access
  is executed by that code on the ordinary variables and the value that has been read.
\<close>

record 'm cells =
  put_cells :: "u32 \<Rightarrow> tid option \<Rightarrow> 'm \<Rightarrow> 'm"
  flag_cell :: "'m \<Rightarrow> u32"
  id_cell :: "'m \<Rightarrow> tid option"

definition weak_access ::
  "'m cells \<Rightarrow> (tid \<Rightarrow> 'f \<Rightarrow> 'm \<Rightarrow> ('f + 'r) \<times> 'm) \<Rightarrow> ('f \<Rightarrow> access) \<Rightarrow> nat \<Rightarrow> tid \<Rightarrow> 'f \<Rightarrow>
   'm weak_memory \<Rightarrow> (('f + 'r) \<times> 'm weak_memory) option"
where
  "weak_access C code acc k t f m =
    (let p = wm_plain m; V = wm_view m t; e = wm_clock m in
     case acc f of
       Ac_none \<Rightarrow> Some (fst (code t f p), m)
     | Ac_plain \<Rightarrow> Some (fst (code t f p), touch t (m\<lparr>wm_plain := snd (code t f p)\<rparr>))
     | Ac_load mo \<Rightarrow>
         (if readable V (wm_flag m) k
          then Some (fst (code t f (put_cells C (msg_val (wm_flag m ! k)) None p)),
            see t (acquired mo (wm_flag m ! k) V) m)
          else None)
     | Ac_swap mo \<Rightarrow>
         (if readable V (wm_flag m) k \<and> \<not> msg_taken (wm_flag m ! k)
          then let (r, p') = code t f (put_cells C (msg_val (wm_flag m ! k)) None p)
            in Some (r, tick t (see t (acquired mo (wm_flag m ! k) V)
                 (m\<lparr>wm_flag := swap_at k (flag_cell C p') e (wm_flag m)\<rparr>)))
          else None)
     | Ac_store mo \<Rightarrow>
         (if writable V (wm_flag m) k
          then let (r, p') = code t f (put_cells C 0 None p)
            in Some (r, tick t (m\<lparr>wm_flag := insert_at k \<lparr>msg_val = flag_cell C p',
                 msg_event = e, msg_view = released mo e V, msg_taken = False\<rparr> (wm_flag m)\<rparr>))
          else None)
     | Ac_load_id mo \<Rightarrow>
         (if readable V (wm_id m) k
          then Some (fst (code t f (put_cells C 0 (msg_val (wm_id m ! k)) p)),
            see t (acquired mo (wm_id m ! k) V) m)
          else None)
     | Ac_store_id mo \<Rightarrow>
         (if writable V (wm_id m) k
          then let (r, p') = code t f (put_cells C 0 None p)
            in Some (r, tick t (m\<lparr>wm_id := insert_at k \<lparr>msg_val = id_cell C p',
                 msg_event = e, msg_view = released mo e V, msg_taken = False\<rparr> (wm_id m)\<rparr>))
          else None))"

text \<open>
  A thread calls an operation, executes one access of it, or, inside its critical section and
  between calls, accesses the data that the lock protects.
\<close>

inductive weak_step ::
  "'m cells \<Rightarrow> ('f \<Rightarrow> access) \<Rightarrow> ('h \<Rightarrow> bool) \<Rightarrow> ('h \<Rightarrow> 'f \<Rightarrow> 'h \<Rightarrow> bool) \<Rightarrow>
   (tid \<Rightarrow> 'f \<Rightarrow> 'm \<Rightarrow> ('f + 'r) \<times> 'm) \<Rightarrow> ('r \<Rightarrow> 'h \<Rightarrow> 'h) \<Rightarrow>
   ('m weak_memory, 'h, 'f, 'r) conf \<Rightarrow> ('m weak_memory, 'h, 'f, 'r) conf \<Rightarrow> bool"
  for C acc inside calls code ret where
  call: "th_call (thread_of c t) = None \<Longrightarrow> calls (th_held (thread_of c t)) f h' \<Longrightarrow>
    weak_step C acc inside calls code ret c (c\<lparr>thread_of := (thread_of c)(t :=
      \<lparr>th_held = h', th_call = Some f, th_last = th_last (thread_of c t)\<rparr>)\<rparr>)"
| access: "th_call (thread_of c t) = Some f \<Longrightarrow>
    weak_access C code acc k t f (shared c) = Some (Inl f', m') \<Longrightarrow>
    weak_step C acc inside calls code ret c (\<lparr>shared = m', thread_of = (thread_of c)(t :=
      (thread_of c t)\<lparr>th_call := Some f'\<rparr>)\<rparr>)"
| return: "th_call (thread_of c t) = Some f \<Longrightarrow>
    weak_access C code acc k t f (shared c) = Some (Inr r, m') \<Longrightarrow>
    weak_step C acc inside calls code ret c (\<lparr>shared = m', thread_of = (thread_of c)(t :=
      \<lparr>th_held = ret r (th_held (thread_of c t)), th_call = None, th_last = Some r\<rparr>)\<rparr>)"
| data: "th_call (thread_of c t) = None \<Longrightarrow> inside (th_held (thread_of c t)) \<Longrightarrow>
    weak_step C acc inside calls code ret c (c\<lparr>shared := touch t (shared c)\<rparr>)"

text \<open>A concrete execution; an access comes with the place in the modification order it uses.\<close>

datatype ('f, 'h) weak_act = W_call 'f 'h | W_access nat | W_data

definition weak_exec_step ::
  "'m cells \<Rightarrow> ('f \<Rightarrow> access) \<Rightarrow> ('h \<Rightarrow> bool) \<Rightarrow> ('h \<Rightarrow> 'f \<Rightarrow> 'h \<Rightarrow> bool) \<Rightarrow>
   (tid \<Rightarrow> 'f \<Rightarrow> 'm \<Rightarrow> ('f + 'r) \<times> 'm) \<Rightarrow> ('r \<Rightarrow> 'h \<Rightarrow> 'h) \<Rightarrow> tid \<Rightarrow> ('f, 'h) weak_act \<Rightarrow>
   ('m weak_memory, 'h, 'f, 'r) conf \<Rightarrow> ('m weak_memory, 'h, 'f, 'r) conf option"
where
  "weak_exec_step C acc inside calls code ret t a c =
    (case (a, th_call (thread_of c t)) of
       (W_call f h', None) \<Rightarrow> (if calls (th_held (thread_of c t)) f h'
         then Some (c\<lparr>thread_of := (thread_of c)(t :=
           \<lparr>th_held = h', th_call = Some f, th_last = th_last (thread_of c t)\<rparr>)\<rparr>) else None)
     | (W_data, None) \<Rightarrow> (if inside (th_held (thread_of c t))
         then Some (c\<lparr>shared := touch t (shared c)\<rparr>) else None)
     | (W_access k, Some f) \<Rightarrow> map_option (\<lambda>(r, m'). case r of
           Inl f' \<Rightarrow> \<lparr>shared = m',
             thread_of = (thread_of c)(t := (thread_of c t)\<lparr>th_call := Some f'\<rparr>)\<rparr>
         | Inr y \<Rightarrow> \<lparr>shared = m', thread_of = (thread_of c)(t :=
             \<lparr>th_held = ret y (th_held (thread_of c t)), th_call = None, th_last = Some y\<rparr>)\<rparr>)
         (weak_access C code acc k t f (shared c))
     | _ \<Rightarrow> None)"

fun weak_exec ::
  "'m cells \<Rightarrow> ('f \<Rightarrow> access) \<Rightarrow> ('h \<Rightarrow> bool) \<Rightarrow> ('h \<Rightarrow> 'f \<Rightarrow> 'h \<Rightarrow> bool) \<Rightarrow>
   (tid \<Rightarrow> 'f \<Rightarrow> 'm \<Rightarrow> ('f + 'r) \<times> 'm) \<Rightarrow> ('r \<Rightarrow> 'h \<Rightarrow> 'h) \<Rightarrow> (tid \<times> ('f, 'h) weak_act) list \<Rightarrow>
   ('m weak_memory, 'h, 'f, 'r) conf \<Rightarrow> ('m weak_memory, 'h, 'f, 'r) conf option"
where
  "weak_exec C acc inside calls code ret [] c = Some c"
| "weak_exec C acc inside calls code ret ((t, a) # as) c =
     (case weak_exec_step C acc inside calls code ret t a c of
        None \<Rightarrow> None | Some c' \<Rightarrow> weak_exec C acc inside calls code ret as c')"

lemma weak_exec_step_sound:
  assumes "weak_exec_step C acc inside calls code ret t a c = Some c'"
  shows "weak_step C acc inside calls code ret c c'"
proof (cases "th_call (thread_of c t)")
  case None
  then show ?thesis using assms
    by (auto simp: weak_exec_step_def split: weak_act.splits if_splits intro: weak_step.intros)
next
  case (Some f)
  then obtain k r m' where w: "weak_access C code acc k t f (shared c) = Some (r, m')"
    and "a = W_access k"
    using assms by (auto simp: weak_exec_step_def split: weak_act.splits)
  then show ?thesis using assms Some weak_step.access [OF Some, of C code acc k _ m']
      weak_step.return [OF Some, of C code acc k _ m']
    by (cases r) (auto simp: weak_exec_step_def)
qed

lemma weak_exec_sound: "weak_exec C acc inside calls code ret as c = Some c' \<Longrightarrow>
    (weak_step C acc inside calls code ret)\<^sup>*\<^sup>* c c'"
  by (induction C acc inside calls code ret as c rule: weak_exec.induct)
    (auto split: option.splits intro: converse_rtranclp_into_rtranclp weak_exec_step_sound)

section \<open>Facts about the modification order\<close>

lemma readable_mono: "readable V ms k \<Longrightarrow> U \<subseteq> V \<Longrightarrow> readable U ms k"
  by (auto simp: readable_def list_all_iff)

lemma set_insert_at [simp]: "set (insert_at k x ms) = insert x (set ms)"
proof -
  have "set (insert_at k x ms) = insert x (set (take k ms @ drop k ms))"
    by (simp add: insert_at_def del: append_take_drop_id)
  then show ?thesis by simp
qed

lemma filter_insert_at_empty:
  assumes "filter P ms = []"
  shows "filter P (insert_at k x ms) = (if P x then [x] else [])"
proof -
  have "filter P (take k ms) @ filter P (drop k ms) = []"
    using assms filter_append [of P "take k ms" "drop k ms"] by simp
  then show ?thesis by (simp add: insert_at_def)
qed

lemma filter_swap_at:
  assumes "k < length ms" and "\<not> P ((ms ! k)\<lparr>msg_taken := True\<rparr>)"
    and "\<not> P \<lparr>msg_val = v, msg_event = e, msg_view = insert e (msg_view (ms ! k)), msg_taken = False\<rparr>"
    and "filter P ms = (if P (ms ! k) then [ms ! k] else zs)"
  shows "filter P (swap_at k v e ms) = (if P (ms ! k) then [] else zs)"
proof -
  have "filter P (take k ms @ ms ! k # drop (Suc k) ms) = filter P ms"
    using id_take_nth_drop [OF assms(1)] by simp
  then show ?thesis using assms(2-4)
    by (auto simp: swap_at_def append_eq_Cons_conv split: if_splits)
qed

lemma set_swap_at: "k < length ms \<Longrightarrow> x \<in> set (swap_at k v e ms) \<Longrightarrow>
    msg_val x = v \<or> (\<exists>y \<in> set ms. msg_val x = msg_val y)"
  by (auto simp: swap_at_def dest: in_set_takeD in_set_dropD intro: nth_mem)

text \<open>Whoever knows all writes reads the last one and writes after it.\<close>

lemma none_unknown:
  assumes "list_all (\<lambda>x. msg_event x \<notin> V) (drop k ms)" and "msg_event ` set ms \<subseteq> V"
  shows "drop k ms = []"
proof (rule ccontr)
  assume "drop k ms \<noteq> []"
  then have "hd (drop k ms) \<in> set (drop k ms)" by (rule hd_in_set)
  then show False using assms in_set_dropD by (fastforce simp: list_all_iff)
qed

lemma readable_last: "readable V ms k \<Longrightarrow> msg_event ` set ms \<subseteq> V \<Longrightarrow> ms ! k = last ms"
  using none_unknown [of V "Suc k" ms] by (cases ms rule: rev_cases) (auto simp: readable_def nth_append)

lemma writable_end: "writable V ms k \<Longrightarrow> msg_event ` set ms \<subseteq> V \<Longrightarrow> insert_at k x ms = ms @ [x]"
  using none_unknown [of V k ms] by (simp add: insert_at_def writable_def)

section \<open>Locks that need no stronger order\<close>

text \<open>
  Ghost: the owner \<open>w\<close>. While the lock is free exactly one write of 0 has not been taken by an
  exchange, and it carries everything the earlier owners have done; while it is owned there is none,
  and the owner knows all that. The writes to \<open>m_tid\<close> count as done by the owners too.
\<close>

definition msg_free :: "u32 message \<Rightarrow> bool" where
  "msg_free x \<longleftrightarrow> msg_val x = 0 \<and> \<not> msg_taken x"

definition owners_work :: "'m weak_memory \<Rightarrow> nat set" where
  "owners_work m = wm_touched m \<union> msg_event ` set (wm_id m)"

text \<open>A thread does not read its own id when the last write has another value.\<close>

definition id_gone :: "'m weak_memory \<Rightarrow> tid \<Rightarrow> bool" where
  "id_gone m t \<longleftrightarrow> (\<forall>k. readable (wm_view m t) (wm_id m) k \<longrightarrow> msg_val (wm_id m ! k) \<noteq> Some t)"

definition last_id :: "'m weak_memory \<Rightarrow> tid option" where
  "last_id m = msg_val (last (wm_id m))"

definition passed_on :: "tid option \<Rightarrow> 'm weak_memory \<Rightarrow> bool" where
  "passed_on w m \<longleftrightarrow> (case w of
       None \<Rightarrow> (\<exists>z. filter msg_free (wm_flag m) = [z] \<and> owners_work m \<subseteq> msg_view z)
     | Some t \<Rightarrow> filter msg_free (wm_flag m) = [] \<and> owners_work m \<subseteq> wm_view m t)"

definition weak_inv :: "tid option \<Rightarrow> 'm weak_memory \<Rightarrow> bool" where
  "weak_inv w m \<longleftrightarrow> passed_on w m \<and> \<not> wm_race m \<and> wm_id m \<noteq> [] \<and>
     (\<forall>x \<in> set (wm_flag m). msg_val x = 0 \<or> msg_val x = 1) \<and>
     (\<forall>t. last_id m \<noteq> Some t \<longrightarrow> id_gone m t)"

definition flag_of_owner :: "tid option \<Rightarrow> u32" where
  "flag_of_owner w = (if w = None then 0 else 1)"

text \<open>
  The sequentially consistent memory that a state stands for: the theorems about it come from the
  theories of the locks.
\<close>

definition sc_memory :: "'m cells \<Rightarrow> tid option \<Rightarrow> 'm weak_memory \<Rightarrow> 'm" where
  "sc_memory C w m = put_cells C (flag_of_owner w) (last_id m) (wm_plain m)"

lemma weak_inv_start: "weak_inv None (weak_start p)"
  by (auto simp: weak_inv_def passed_on_def weak_start_def owners_work_def msg_free_def last_id_def
      id_gone_def readable_def)

lemma owners_work_see [simp]: "owners_work (see t V m) = owners_work m"
  by (simp add: owners_work_def see_def)

lemma last_id_simps [simp]:
  "last_id (see t V m) = last_id m" "last_id (tick t m) = last_id m" "last_id (touch t m) = last_id m"
  "last_id (m\<lparr>wm_flag := fs\<rparr>) = last_id m" "last_id (m\<lparr>wm_plain := p\<rparr>) = last_id m"
  by (simp_all add: last_id_def see_def tick_def touch_def)

text \<open>More knowledge of one thread, and writes to the flag, keep what is said about \<open>m_tid\<close>.\<close>

lemma id_gone_mono:
  "id_gone m t \<Longrightarrow> wm_id m' = wm_id m \<Longrightarrow> wm_view m t \<subseteq> wm_view m' t \<Longrightarrow> id_gone m' t"
  using readable_mono unfolding id_gone_def by metis

lemma weak_inv_see:
  assumes "weak_inv w m" and "wm_view m t \<subseteq> V"
  shows "weak_inv w (see t V m)"
proof -
  have "id_gone (see t V m) u" if "id_gone m u" for u
    by (rule id_gone_mono [OF that]) (use assms(2) in \<open>auto simp: see_def\<close>)
  moreover have "passed_on w (see t V m)"
    using assms by (auto simp: weak_inv_def passed_on_def split: option.splits) (auto simp: see_def)
  ultimately show ?thesis using assms(1) by (auto simp: weak_inv_def) (auto simp: see_def)
qed

lemma acquired_more: "V \<subseteq> acquired mo x V"
  by (simp add: acquired_def)

lemma weak_inv_tick: "weak_inv w m \<Longrightarrow> weak_inv w (tick t m)"
proof -
  assume "weak_inv w m"
  then have "weak_inv w (see t (insert (wm_clock m) (wm_view m t)) m)"
    by (rule weak_inv_see) auto
  then show ?thesis
    by (cases w) (auto simp: weak_inv_def passed_on_def owners_work_def last_id_def id_gone_def
        see_def tick_def split: if_splits)
qed

lemma weak_inv_flag:
  assumes "weak_inv w m" and "passed_on w' (m\<lparr>wm_flag := fs\<rparr>)"
    and "\<And>x. x \<in> set fs \<Longrightarrow> msg_val x = 0 \<or> msg_val x = 1"
  shows "weak_inv w' (m\<lparr>wm_flag := fs\<rparr>)"
  using assms by (auto simp: weak_inv_def id_gone_def)

lemma flag_values_swap:
  assumes "weak_inv w m" and "k < length (wm_flag m)" and "x \<in> set (swap_at k 1 e (wm_flag m))"
  shows "msg_val x = 0 \<or> msg_val x = 1"
  using set_swap_at [OF assms(2,3)] assms(1) by (auto simp: weak_inv_def)

lemma weak_inv_swap_busy:
  assumes inv: "weak_inv w m" and k: "k < length (wm_flag m)" and "msg_val (wm_flag m ! k) = 1"
  shows "weak_inv w (m\<lparr>wm_flag := swap_at k 1 e (wm_flag m)\<rparr>)"
proof (rule weak_inv_flag [OF inv])
  have "filter msg_free (swap_at k 1 e (wm_flag m)) = filter msg_free (wm_flag m)"
    using filter_swap_at [OF k, of msg_free 1 e "filter msg_free (wm_flag m)"] assms(3)
    by (simp add: msg_free_def)
  then show "passed_on w (m\<lparr>wm_flag := swap_at k 1 e (wm_flag m)\<rparr>)"
    using inv by (auto simp: weak_inv_def passed_on_def owners_work_def split: option.splits)
qed (rule flag_values_swap [OF inv k])

lemma weak_inv_swap_taken:
  assumes inv: "weak_inv w m" and k: "k < length (wm_flag m)" and free: "msg_free (wm_flag m ! k)"
  shows "w = None"
    and "weak_inv (Some t) ((see t (wm_view m t \<union> msg_view (wm_flag m ! k)) m)
      \<lparr>wm_flag := swap_at k 1 e (wm_flag m)\<rparr>)"
proof -
  have mem: "wm_flag m ! k \<in> set (filter msg_free (wm_flag m))" using k free by simp
  then have "filter msg_free (wm_flag m) \<noteq> []" by (metis empty_iff empty_set)
  then show w: "w = None" using inv by (simp add: weak_inv_def passed_on_def split: option.splits)
  then obtain x where x: "filter msg_free (wm_flag m) = [x]" "owners_work m \<subseteq> msg_view x"
    using inv by (auto simp: weak_inv_def passed_on_def)
  then have z: "filter msg_free (wm_flag m) = [wm_flag m ! k]"
    "owners_work m \<subseteq> msg_view (wm_flag m ! k)"
    using mem unfolding x(1) by simp_all
  let ?m = "see t (wm_view m t \<union> msg_view (wm_flag m ! k)) m"
  have "weak_inv None ?m" using weak_inv_see [OF inv, of t] w by simp
  moreover have "filter msg_free (swap_at k 1 e (wm_flag m)) = []"
    using filter_swap_at [OF k, of msg_free 1 e] free z(1) by (simp add: msg_free_def)
  then have "passed_on (Some t) (?m\<lparr>wm_flag := swap_at k 1 e (wm_flag m)\<rparr>)"
    using z(2) by (auto simp: passed_on_def owners_work_def see_def)
  ultimately show "weak_inv (Some t) (?m\<lparr>wm_flag := swap_at k 1 e (wm_flag m)\<rparr>)"
    by (rule weak_inv_flag) (rule flag_values_swap [OF inv k])
qed

lemma weak_inv_store:
  assumes "weak_inv (Some t) m" and "msg_val x = 0" "\<not> msg_taken x" "wm_view m t \<subseteq> msg_view x"
  shows "weak_inv None (m\<lparr>wm_flag := insert_at k x (wm_flag m)\<rparr>)"
proof (rule weak_inv_flag [OF assms(1)])
  have "filter msg_free (insert_at k x (wm_flag m)) = [x]"
    using assms by (simp add: filter_insert_at_empty weak_inv_def passed_on_def msg_free_def)
  then show "passed_on None (m\<lparr>wm_flag := insert_at k x (wm_flag m)\<rparr>)"
    using assms by (auto simp: weak_inv_def passed_on_def owners_work_def)
qed (use assms in \<open>auto simp: weak_inv_def\<close>)

lemma weak_inv_touch: "weak_inv (Some t) m \<Longrightarrow> weak_inv (Some t) (touch t m)"
  using weak_inv_tick [of "Some t" m t]
  by (auto simp: weak_inv_def passed_on_def owners_work_def last_id_def id_gone_def touch_def tick_def)

lemma weak_inv_plain: "weak_inv w (m\<lparr>wm_plain := p\<rparr>) = weak_inv w m"
  by (auto simp: weak_inv_def passed_on_def owners_work_def last_id_def id_gone_def split: option.splits)

lemma weak_inv_store_id:
  assumes inv: "weak_inv (Some t) m" and e: "msg_event x \<in> wm_view m t"
    and id: "last_id m = None \<or> last_id m = Some t"
  shows "weak_inv (Some t) (m\<lparr>wm_id := wm_id m @ [x]\<rparr>)"
proof -
  let ?m = "m\<lparr>wm_id := wm_id m @ [x]\<rparr>"
  have "id_gone ?m u" if "msg_val x \<noteq> Some u" for u
    unfolding id_gone_def
  proof (intro allI impI)
    fix k assume r: "readable (wm_view ?m u) (wm_id ?m) k"
    show "msg_val (wm_id ?m ! k) \<noteq> Some u"
    proof (cases "k = length (wm_id m)")
      case False
      then have k: "readable (wm_view m u) (wm_id m) k" "msg_event x \<notin> wm_view m u"
        "k < length (wm_id m)"
        using r by (auto simp: readable_def)
      then have "u \<noteq> t" using e by auto
      then have "id_gone m u" using inv id by (auto simp: weak_inv_def)
      then show ?thesis using k by (auto simp: id_gone_def nth_append)
    qed (use that in simp)
  qed
  moreover have "owners_work ?m = insert (msg_event x) (owners_work m)"
    by (simp add: owners_work_def)
  ultimately show ?thesis using inv e
    by (auto simp: weak_inv_def passed_on_def last_id_def)
qed

section \<open>The theorems about interleaved accesses carry over\<close>

text \<open>
  What a lock has to satisfy, one law for each kind of access: the thread keeps its view \<open>ok\<close> of the
  lock when a load or an exchange finds the flag set, whatever the owner; an exchange that finds it
  clear makes the thread the owner; only the owner stores to the flag, to \<open>m_tid\<close>, or touches
  ordinary data; and the exchange acquires, the store to the flag releases.
\<close>

definition next_ok ::
  "(tid option \<Rightarrow> 'm \<Rightarrow> tid \<Rightarrow> 'h \<Rightarrow> 'f option \<Rightarrow> bool) \<Rightarrow> ('r \<Rightarrow> 'h \<Rightarrow> 'h) \<Rightarrow>
   tid option \<Rightarrow> 'm \<Rightarrow> tid \<Rightarrow> 'h \<Rightarrow> 'f + 'r \<Rightarrow> bool"
where
  "next_ok ok ret w m t h r =
     (case r of Inl f' \<Rightarrow> ok w m t h (Some f') | Inr y \<Rightarrow> ok w m t (ret y h) None)"

definition others_keep ::
  "(tid option \<Rightarrow> 'm \<Rightarrow> tid \<Rightarrow> 'h \<Rightarrow> 'f option \<Rightarrow> bool) \<Rightarrow> tid \<Rightarrow> tid option \<Rightarrow> 'm \<Rightarrow>
   tid option \<Rightarrow> 'm \<Rightarrow> bool"
where
  "others_keep ok t w m w' m' \<longleftrightarrow> (\<forall>u k q. u \<noteq> t \<longrightarrow> ok w m u k q \<longrightarrow> ok w' m' u k q)"

locale weak_lock =
  fixes C :: "'m cells" and acc :: "'f \<Rightarrow> access" and inside :: "'h \<Rightarrow> bool"
    and calls :: "'h \<Rightarrow> 'f \<Rightarrow> 'h \<Rightarrow> bool"
    and code :: "tid \<Rightarrow> 'f \<Rightarrow> 'm \<Rightarrow> ('f + 'r) \<times> 'm"
    and ret :: "'r \<Rightarrow> 'h \<Rightarrow> 'h"
    and minv :: "tid option \<Rightarrow> 'm \<Rightarrow> bool"
    and ok :: "tid option \<Rightarrow> 'm \<Rightarrow> tid \<Rightarrow> 'h \<Rightarrow> 'f option \<Rightarrow> bool"
  assumes orders: "acc f = Ac_swap mo \<Longrightarrow> mo = Acquire" "acc f = Ac_store mo \<Longrightarrow> mo = Release"
    and ok_call: "minv w m \<Longrightarrow> ok w m t h None \<Longrightarrow> calls h f h' \<Longrightarrow> ok w m t h' (Some f)"
    and inside_owner: "minv w m \<Longrightarrow> ok w m t h q \<Longrightarrow> inside h \<Longrightarrow> w = Some t"
    and id_owner: "minv w (put_cells C v x p) \<Longrightarrow> x = None \<or> x = w"
    and none_code: "acc f = Ac_none \<Longrightarrow> minv w (put_cells C v x p) \<Longrightarrow>
      ok w (put_cells C v x p) t h (Some f) \<Longrightarrow>
      code t f p = (r, p') \<Longrightarrow>
      next_ok ok ret w (put_cells C v x p) t h r"
    and plain_code: "acc f = Ac_plain \<Longrightarrow> minv w (put_cells C v x p) \<Longrightarrow>
      ok w (put_cells C v x p) t h (Some f) \<Longrightarrow> code t f p = (r, p') \<Longrightarrow>
      w = Some t \<and> minv w (put_cells C v x p') \<and>
      next_ok ok ret w (put_cells C v x p') t h r \<and>
      others_keep ok t w (put_cells C v x p) w (put_cells C v x p')"
    and load_code: "acc f = Ac_load mo \<Longrightarrow> minv w (put_cells C v x p) \<Longrightarrow>
      ok w (put_cells C v x p) t h (Some f) \<Longrightarrow>
      code t f (put_cells C v' None p) = (r, p') \<Longrightarrow>
      next_ok ok ret w (put_cells C v x p) t h r"
    and swap_busy: "acc f = Ac_swap mo \<Longrightarrow> minv w (put_cells C v x p) \<Longrightarrow>
      ok w (put_cells C v x p) t h (Some f) \<Longrightarrow>
      code t f (put_cells C 1 None p) = (r, p') \<Longrightarrow> flag_cell C p' = 1 \<and>
      next_ok ok ret w (put_cells C v x p) t h r"
    and swap_free: "acc f = Ac_swap mo \<Longrightarrow> minv None (put_cells C 0 x p) \<Longrightarrow>
      ok None (put_cells C 0 x p) t h (Some f) \<Longrightarrow> code t f (put_cells C 0 None p) = (r, p') \<Longrightarrow>
      flag_cell C p' = 1 \<and> minv (Some t) (put_cells C 1 x p) \<and>
      next_ok ok ret (Some t) (put_cells C 1 x p) t h r \<and>
      others_keep ok t None (put_cells C 0 x p) (Some t) (put_cells C 1 x p)"
    and store_code: "acc f = Ac_store mo \<Longrightarrow> minv w (put_cells C v x p) \<Longrightarrow>
      ok w (put_cells C v x p) t h (Some f) \<Longrightarrow> code t f (put_cells C 0 None p) = (r, p') \<Longrightarrow>
      w = Some t \<and> flag_cell C p' = 0 \<and> minv None (put_cells C 0 x p) \<and>
      next_ok ok ret None (put_cells C 0 x p) t h r \<and>
      others_keep ok t w (put_cells C v x p) None (put_cells C 0 x p)"
    and load_id_code: "acc f = Ac_load_id mo \<Longrightarrow> minv w (put_cells C v x p) \<Longrightarrow>
      ok w (put_cells C v x p) t h (Some f) \<Longrightarrow>
      (x' = Some t \<longleftrightarrow> x = Some t) \<Longrightarrow> code t f (put_cells C 0 x' p) = (r, p') \<Longrightarrow>
      next_ok ok ret w (put_cells C v x p) t h r"
    and store_id_code: "acc f = Ac_store_id mo \<Longrightarrow> minv w (put_cells C v x p) \<Longrightarrow>
      ok w (put_cells C v x p) t h (Some f) \<Longrightarrow> code t f (put_cells C 0 None p) = (r, p') \<Longrightarrow>
      w = Some t \<and> minv w (put_cells C v (id_cell C p') p) \<and>
      next_ok ok ret w (put_cells C v (id_cell C p') p) t h r \<and>
      others_keep ok t w (put_cells C v x p) w (put_cells C v (id_cell C p') p)"
begin

text \<open>One access, for all kinds: a new owner \<open>w'\<close>, and everybody's view as it must be.\<close>

definition carried :: "tid option \<Rightarrow> 'm weak_memory \<Rightarrow> tid \<Rightarrow> 'h \<Rightarrow> 'f + 'r \<Rightarrow> 'm weak_memory \<Rightarrow> bool"
where
  "carried w m t h r m' \<longleftrightarrow> (\<exists>w'. weak_inv w' m' \<and> minv w' (sc_memory C w' m') \<and>
     next_ok ok ret w' (sc_memory C w' m') t h r \<and>
     others_keep ok t w (sc_memory C w m) w' (sc_memory C w' m'))"

lemma carried_same:
  assumes "weak_inv w m'" and "sc_memory C w m' = sc_memory C w m" and "minv w (sc_memory C w m)"
    and "next_ok ok ret w (sc_memory C w m) t h r"
  shows "carried w m t h r m'"
  unfolding carried_def using assms by (intro exI [of _ w]) (simp add: others_keep_def)

lemma carried_swap:
  assumes inv: "weak_inv w m" "minv w (sc_memory C w m)" "ok w (sc_memory C w m) t h (Some f)"
    and acc: "acc f = Ac_swap mo" and k: "k < length (wm_flag m)" "\<not> msg_taken (wm_flag m ! k)"
    and code: "code t f (put_cells C (msg_val (wm_flag m ! k)) None (wm_plain m)) = (r, p')"
  shows "carried w m t h r (tick t (see t (acquired mo (wm_flag m ! k) (wm_view m t))
      (m\<lparr>wm_flag := swap_at k (flag_cell C p') e (wm_flag m)\<rparr>)))" (is "carried w m t h r (tick t ?m)")
proof (cases "msg_val (wm_flag m ! k) = 0")
  case True
  then have free: "msg_free (wm_flag m ! k)" using k(2) by (simp add: msg_free_def)
  have w: "w = None" by (rule weak_inv_swap_taken(1) [OF inv(1) k(1) free])
  note sw = swap_free [OF acc, of "last_id m" "wm_plain m" t h r p']
  have pre: "minv None (put_cells C 0 (last_id m) (wm_plain m))"
    "ok None (put_cells C 0 (last_id m) (wm_plain m)) t h (Some f)"
    "code t f (put_cells C 0 None (wm_plain m)) = (r, p')"
    using inv(2,3) code True by (simp_all add: w sc_memory_def flag_of_owner_def)
  have m': "?m = (see t (wm_view m t \<union> msg_view (wm_flag m ! k)) m)
      \<lparr>wm_flag := swap_at k 1 e (wm_flag m)\<rparr>"
    using sw [OF pre] orders(1) [OF acc] by (simp add: see_def acquired_def)
  have "weak_inv (Some t) (tick t ?m)"
    unfolding m' by (rule weak_inv_tick) (rule weak_inv_swap_taken(2) [OF inv(1) k(1) free])
  moreover have "sc_memory C (Some t) (tick t ?m) = put_cells C 1 (last_id m) (wm_plain m)"
    by (simp add: sc_memory_def flag_of_owner_def) (simp add: see_def tick_def)
  ultimately show ?thesis
    unfolding carried_def using sw [OF pre]
    by (intro exI [of _ "Some t"]) (simp add: w sc_memory_def flag_of_owner_def)
next
  case False
  then have one: "msg_val (wm_flag m ! k) = 1" using inv(1) k(1) by (auto simp: weak_inv_def)
  then have busy: "flag_cell C p' = 1 \<and> next_ok ok ret w (sc_memory C w m) t h r"
    using swap_busy [OF acc, of w "flag_of_owner w" "last_id m" "wm_plain m" t h r p'] inv(2,3) code
    by (simp add: sc_memory_def)
  have "weak_inv w (m\<lparr>wm_flag := swap_at k 1 e (wm_flag m)\<rparr>)"
    by (rule weak_inv_swap_busy [OF inv(1) k(1) one])
  then have "weak_inv w (tick t ?m)"
    using busy by (intro weak_inv_tick weak_inv_see) (auto simp: acquired_def)
  moreover have "sc_memory C w (tick t ?m) = sc_memory C w m"
    by (simp add: sc_memory_def) (simp add: see_def tick_def)
  ultimately show ?thesis using busy inv(2) by (intro carried_same) auto
qed

lemma carried_read:
  assumes "weak_inv w m" "minv w (sc_memory C w m)" "next_ok ok ret w (sc_memory C w m) t h r"
  shows "carried w m t h r (see t (acquired mo x (wm_view m t)) m)"
proof (rule carried_same)
  show "weak_inv w (see t (acquired mo x (wm_view m t)) m)"
    by (rule weak_inv_see [OF assms(1) acquired_more])
  show "sc_memory C w (see t (acquired mo x (wm_view m t)) m) = sc_memory C w m"
    by (simp add: sc_memory_def) (simp add: see_def)
qed (rule assms)+

lemma carried_store:
  assumes inv: "weak_inv w m" "minv w (sc_memory C w m)" "ok w (sc_memory C w m) t h (Some f)"
    and acc: "acc f = Ac_store mo" and code: "code t f (put_cells C 0 None (wm_plain m)) = (r, p')"
  shows "carried w m t h r (tick t (m\<lparr>wm_flag := insert_at k \<lparr>msg_val = flag_cell C p',
      msg_event = e, msg_view = released mo e (wm_view m t), msg_taken = False\<rparr> (wm_flag m)\<rparr>))"
    (is "carried w m t h r (tick t ?m)")
proof -
  note st = store_code [OF acc, of w "flag_of_owner w" "last_id m" "wm_plain m" t h r p',
      folded sc_memory_def, OF inv(2,3) code]
  then have w: "w = Some t" by simp
  have "weak_inv None ?m"
    by (rule weak_inv_store [of t]) (use st inv(1) orders(2) [OF acc] in \<open>auto simp: released_def\<close>)
  then have "weak_inv None (tick t ?m)" by (rule weak_inv_tick)
  moreover have "sc_memory C None (tick t ?m) = put_cells C 0 (last_id m) (wm_plain m)"
    by (simp add: sc_memory_def flag_of_owner_def) (simp add: tick_def)
  ultimately show ?thesis unfolding carried_def using st by (intro exI [of _ None]) (simp add: w)
qed

lemma read_id:
  assumes "weak_inv w m" "minv w (sc_memory C w m)" and k: "readable (wm_view m t) (wm_id m) k"
  shows "msg_val (wm_id m ! k) = Some t \<longleftrightarrow> last_id m = Some t"
proof -
  have "last_id m = None \<or> last_id m = w" using assms(2) id_owner by (simp add: sc_memory_def)
  moreover have "wm_id m ! k = last (wm_id m)" if "w = Some t"
    using readable_last [OF k] assms(1) that by (auto simp: weak_inv_def passed_on_def owners_work_def)
  moreover have "msg_val (wm_id m ! k) \<noteq> Some t" if "last_id m \<noteq> Some t"
    using assms(1) k that by (auto simp: weak_inv_def id_gone_def)
  ultimately show ?thesis by (auto simp: last_id_def)
qed

lemma carried_load_id:
  assumes inv: "weak_inv w m" "minv w (sc_memory C w m)" "ok w (sc_memory C w m) t h (Some f)"
    and acc: "acc f = Ac_load_id mo" and k: "readable (wm_view m t) (wm_id m) k"
    and code: "code t f (put_cells C 0 (msg_val (wm_id m ! k)) (wm_plain m)) = (r, p')"
  shows "carried w m t h r (see t (acquired mo (wm_id m ! k) (wm_view m t)) m)"
proof (rule carried_read [OF inv(1,2)])
  show "next_ok ok ret w (sc_memory C w m) t h r"
    unfolding sc_memory_def
    by (intro load_id_code [OF acc inv(2,3) [unfolded sc_memory_def] read_id [OF inv(1,2) k] code])
qed

lemma carried_store_id:
  assumes inv: "weak_inv w m" "minv w (sc_memory C w m)" "ok w (sc_memory C w m) t h (Some f)"
    and acc: "acc f = Ac_store_id mo" and k: "writable (wm_view m t) (wm_id m) k"
    and code: "code t f (put_cells C 0 None (wm_plain m)) = (r, p')"
    and x: "msg_val x = id_cell C p'" "msg_event x = wm_clock m"
  shows "carried w m t h r (tick t (m\<lparr>wm_id := insert_at k x (wm_id m)\<rparr>))"
proof -
  note st = store_id_code [OF acc, of w "flag_of_owner w" "last_id m" "wm_plain m" t h r p',
      folded sc_memory_def, OF inv(2,3) code]
  then have w: "w = Some t" by simp
  have "insert_at k x (wm_id m) = wm_id m @ [x]"
    by (rule writable_end [OF k]) (use inv(1) w in \<open>auto simp: weak_inv_def passed_on_def owners_work_def\<close>)
  then have m': "tick t (m\<lparr>wm_id := insert_at k x (wm_id m)\<rparr>)
      = (tick t m)\<lparr>wm_id := wm_id (tick t m) @ [x]\<rparr>"
    by (simp add: tick_def)
  have last: "last_id m = None \<or> last_id m = Some t"
    using inv(2) id_owner w by (simp add: sc_memory_def)
  have "weak_inv (Some t) (tick t (m\<lparr>wm_id := insert_at k x (wm_id m)\<rparr>))"
    unfolding m' by (rule weak_inv_store_id)
      (use weak_inv_tick inv(1) w last in \<open>auto simp: x tick_def last_id_def\<close>)
  moreover have "sc_memory C w (tick t (m\<lparr>wm_id := insert_at k x (wm_id m)\<rparr>))
      = put_cells C (flag_of_owner w) (id_cell C p') (wm_plain m)"
    unfolding m' by (simp add: sc_memory_def last_id_def x tick_def)
  ultimately show ?thesis
    unfolding carried_def using st by (intro exI [of _ w]) (simp add: w)
qed

lemma carried_plain:
  assumes inv: "weak_inv w m" "minv w (sc_memory C w m)" "ok w (sc_memory C w m) t h (Some f)"
    and acc: "acc f = Ac_plain" and code: "code t f (wm_plain m) = (r, p')"
  shows "carried w m t h r (touch t (m\<lparr>wm_plain := p'\<rparr>))"
proof -
  note st = plain_code [OF acc, of w "flag_of_owner w" "last_id m" "wm_plain m" t h r p',
      folded sc_memory_def, OF inv(2,3) code]
  then have w: "w = Some t" by simp
  have "weak_inv (Some t) (touch t (m\<lparr>wm_plain := p'\<rparr>))"
    by (rule weak_inv_touch) (use inv(1) w in \<open>simp add: weak_inv_plain\<close>)
  moreover have "sc_memory C w (touch t (m\<lparr>wm_plain := p'\<rparr>))
      = put_cells C (flag_of_owner w) (last_id m) p'"
    by (simp add: sc_memory_def) (simp add: touch_def tick_def)
  ultimately show ?thesis
    unfolding carried_def using st by (intro exI [of _ w]) (simp add: w)
qed

lemma carried_access:
  assumes inv: "weak_inv w m" "minv w (sc_memory C w m)" "ok w (sc_memory C w m) t h (Some f)"
    and step: "weak_access C code acc k t f m = Some (r, m')"
  shows "carried w m t h r m'"
proof (cases "acc f")
  case Ac_none
  then have "r = fst (code t f (wm_plain m))" and m': "m' = m"
    using step by (auto simp: weak_access_def)
  then have "next_ok ok ret w (sc_memory C w m) t h r"
    using none_code [OF Ac_none, of w _ _ "wm_plain m" t h r "snd (code t f (wm_plain m))"] inv(2,3)
    by (simp add: sc_memory_def)
  then show ?thesis unfolding m' by (intro carried_same inv refl)
next
  case Ac_plain
  then show ?thesis using step carried_plain [OF inv Ac_plain, of r "snd (code t f (wm_plain m))"]
    by (auto simp: weak_access_def Let_def intro: prod_eqI)
next
  case (Ac_load mo)
  then have "next_ok ok ret w (sc_memory C w m) t h r"
    and "m' = see t (acquired mo (wm_flag m ! k) (wm_view m t)) m"
    using step inv(2,3) load_code [OF Ac_load, of w _ _ "wm_plain m" t h _ r]
    by (auto simp: weak_access_def Let_def sc_memory_def prod_eq_iff split: if_splits)
  then show ?thesis using carried_read [OF inv(1,2)] by simp
next
  case (Ac_swap mo)
  then show ?thesis using step carried_swap [OF inv Ac_swap]
    by (auto simp: weak_access_def Let_def readable_def split: if_splits prod.splits)
next
  case (Ac_store mo)
  then show ?thesis using step carried_store [OF inv Ac_store]
    by (auto simp: weak_access_def Let_def split: if_splits prod.splits)
next
  case (Ac_load_id mo)
  then show ?thesis
    using step carried_load_id [OF inv Ac_load_id, of k r
        "snd (code t f (put_cells C 0 (msg_val (wm_id m ! k)) (wm_plain m)))"]
    by (auto simp: weak_access_def Let_def split: if_splits)
next
  case (Ac_store_id mo)
  then show ?thesis using step carried_store_id [OF inv Ac_store_id, of k]
    by (auto simp: weak_access_def Let_def split: if_splits prod.splits)
qed

text \<open>The whole system: what \<open>owned\<close> says of interleaved accesses, and that all is passed on.\<close>

definition weak_owned :: "tid option \<Rightarrow> ('m weak_memory, 'h, 'f, 'r) conf \<Rightarrow> bool" where
  "weak_owned w c \<longleftrightarrow> weak_inv w (shared c) \<and> minv w (sc_memory C w (shared c)) \<and>
     (\<forall>t. ok w (sc_memory C w (shared c)) t (th_held (thread_of c t)) (th_call (thread_of c t)))"

lemma weak_owned_start:
  assumes "minv None (put_cells C 0 None p)"
    and "\<And>t. ok None (put_cells C 0 None p) t (th_held (th t)) (th_call (th t))"
  shows "weak_owned None \<lparr>shared = weak_start p, thread_of = th\<rparr>"
  using assms weak_inv_start
  by (simp add: weak_owned_def sc_memory_def flag_of_owner_def) (simp add: weak_start_def last_id_def)

lemma weak_owned_access:
  assumes own: "weak_owned w c" and f: "th_call (thread_of c t) = Some f"
    and step: "weak_access C code acc k t f (shared c) = Some (r, m')"
  shows "\<exists>w'. weak_owned w' \<lparr>shared = m', thread_of = (thread_of c)(t :=
      case r of Inl f' \<Rightarrow> (thread_of c t)\<lparr>th_call := Some f'\<rparr>
      | Inr y \<Rightarrow> \<lparr>th_held = ret y (th_held (thread_of c t)), th_call = None, th_last = Some y\<rparr>)\<rparr>"
proof -
  have "ok w (sc_memory C w (shared c)) t (th_held (thread_of c t)) (Some f)"
    using own f unfolding weak_owned_def by metis
  then have "carried w (shared c) t (th_held (thread_of c t)) r m'"
    using own step carried_access unfolding weak_owned_def by metis
  then show ?thesis using own
    by (fastforce simp: weak_owned_def carried_def next_ok_def others_keep_def split: sum.splits)
qed

lemma weak_owned_step:
  assumes own: "weak_owned w c" and "weak_step C acc inside calls code ret c c'"
  shows "\<exists>w'. weak_owned w' c'"
  using assms(2)
proof cases
  case (call t f h')
  then have "ok w (sc_memory C w (shared c)) t h' (Some f)"
    using own ok_call unfolding weak_owned_def by metis
  then have "weak_owned w c'" using own call by (auto simp: weak_owned_def)
  then show ?thesis ..
next
  case (access t f k f' m')
  then show ?thesis using weak_owned_access [OF own access(2,3)] by simp
next
  case (return t f k r m')
  then show ?thesis using weak_owned_access [OF own return(2,3)] by simp
next
  case (data t)
  then have w: "w = Some t" using own inside_owner unfolding weak_owned_def by metis
  then have "weak_owned w c'"
    using own data weak_inv_touch [of t "shared c"]
    by (auto simp: weak_owned_def sc_memory_def) (auto simp: touch_def tick_def)
  then show ?thesis ..
qed

sublocale weak: transition_system "weak_step C acc inside calls code ret" "\<lambda>c. \<exists>w. weak_owned w c"
  by unfold_locales (auto dest: weak_owned_step)

lemma reach_weak_owned:
  assumes "(weak_step C acc inside calls code ret)\<^sup>*\<^sup>* c0 c" and "weak_owned w c0"
  obtains w' where "weak_owned w' c"
  using weak.inv_steps [OF assms(1)] assms(2) by blast

text \<open>
  No race, one thread inside at a time, and all that was done inside before happens before what the
  thread inside does next.
\<close>

lemma weak_exclusion:
  assumes "(weak_step C acc inside calls code ret)\<^sup>*\<^sup>* c0 c" and "weak_owned w c0"
  shows "\<not> wm_race (shared c)"
    and "inside (th_held (thread_of c t)) \<Longrightarrow> wm_touched (shared c) \<subseteq> wm_view (shared c) t"
    and "inside (th_held (thread_of c t)) \<Longrightarrow> inside (th_held (thread_of c u)) \<Longrightarrow> t = u"
proof -
  obtain w' where own: "weak_owned w' c" by (rule reach_weak_owned [OF assms])
  then have owner: "w' = Some v" if "inside (th_held (thread_of c v))" for v
    using that inside_owner unfolding weak_owned_def by metis
  show "\<not> wm_race (shared c)" using own by (simp add: weak_owned_def weak_inv_def)
  show "wm_touched (shared c) \<subseteq> wm_view (shared c) t" if "inside (th_held (thread_of c t))"
    using own owner [OF that] by (simp add: weak_owned_def weak_inv_def passed_on_def owners_work_def)
  show "t = u" if "inside (th_held (thread_of c t))" "inside (th_held (thread_of c u))"
    using owner [OF that(1)] owner [OF that(2)] by simp
qed

end

end
