(* ===== verification/Weak_locks.thy ===== *)
theory Weak_locks
  imports Weak_memory Recursive_mutex
begin

text \<open>
  The memory orders of \<open>spinlock.cpp\<close> and \<open>mutex.cpp\<close>, and that they are enough: \<open>Spinlock\<close>,
  \<open>Mutex\<close> and \<open>Recursive_mutex\<close> are correct on the memory of the theory Weak_memory.
\<close>

section \<open>The orders in the code\<close>

text \<open>The loop condition loads relaxed and exchanges with acquire.\<close>

definition spin_load_order :: mem_order where "spin_load_order = Relaxed"

definition spin_exchange_order :: mem_order where "spin_exchange_order = Acquire"

definition spin_unlock_order :: mem_order where "spin_unlock_order = Release"

text \<open>\<open>m_tid\<close> is always accessed relaxed.\<close>

definition tid_order :: mem_order where "tid_order = Relaxed"

lemmas order_defs = spin_load_order_def spin_exchange_order_def spin_unlock_order_def tid_order_def

section \<open>What each frame accesses\<close>

definition cond_access :: "spin_pc \<Rightarrow> access" where
  "cond_access pc = (if pc = Sp_load then Ac_load spin_load_order else Ac_swap spin_exchange_order)"

definition spin_access :: "spin_frame \<Rightarrow> access" where
  "spin_access f = (if sp_pc f = Sp_pause then Ac_none else cond_access (sp_pc f))"

definition plain_access :: "plain_frame \<Rightarrow> access" where
  "plain_access f = (case f of
       Pl_timeout g \<Rightarrow> spin_access g | Pl_try g \<Rightarrow> cond_access (sp_pc g) | Pl_yield \<Rightarrow> Ac_none)"

definition rmutex_access :: "rmutex_frame \<Rightarrow> access" where
  "rmutex_access f = (case f of
       Rm_lock pc \<Rightarrow> (case pc of
           Rl_check \<Rightarrow> Ac_load_id tid_order | Rl_again \<Rightarrow> Ac_plain
         | Rl_acquire g \<Rightarrow> plain_access g | Rl_store \<Rightarrow> Ac_store_id tid_order | Rl_first \<Rightarrow> Ac_plain)
     | Rm_try pc \<Rightarrow> (case pc of
           Rt_check \<Rightarrow> Ac_load_id tid_order | Rt_again \<Rightarrow> Ac_plain
         | Rt_acquire g \<Rightarrow> cond_access (sp_pc g) | Rt_first \<Rightarrow> Ac_plain | Rt_store \<Rightarrow> Ac_store_id tid_order)
     | Rm_unlock pc \<Rightarrow> (case pc of
           Ru_dec \<Rightarrow> Ac_plain | Ru_clear \<Rightarrow> Ac_store_id tid_order
         | Ru_release \<Rightarrow> Ac_store spin_unlock_order))"

section \<open>What the routines of the spinlock do with a value they read\<close>

text \<open>A load never acquires, nor does a pause; an exchange writes 1 and acquires iff it reads 0.\<close>

lemma cond_load: "cond_access pc = Ac_load mo \<Longrightarrow> spin_cond pc v = (test, v') \<Longrightarrow> test \<noteq> T_taken"
  by (auto simp: cond_access_def spin_cond_def split: if_splits)

lemma cond_swap: "cond_access pc = Ac_swap mo \<Longrightarrow> spin_cond pc v = (test, v') \<Longrightarrow>
    v' = 1 \<and> test = (if v = 0 then T_taken else T_busy)"
  by (auto simp: cond_access_def spin_cond_def split: if_splits)

lemma plain_none: "plain_access f = Ac_none \<Longrightarrow> \<exists>f'. Plain_lock f v = (Inl f', v)"
  by (auto simp: plain_access_def spin_access_def cond_access_def Plain_lock_def
      Spinlock_lock_with_timeout_def split: plain_frame.splits if_splits)

lemma plain_load: "plain_access f = Ac_load mo \<Longrightarrow> \<exists>f'. Plain_lock f v = (Inl f', v)"
  by (auto simp: plain_access_def spin_access_def cond_access_def Plain_lock_def spin_cond_def
      Spinlock_lock_with_timeout_def Spinlock_try_lock_def split: plain_frame.splits if_splits)

lemma plain_swap: "plain_access f = Ac_swap mo \<Longrightarrow>
    (if v = 0 then Plain_lock f v = (Inr True, 1) else \<exists>f'. Plain_lock f v = (Inl f', 1))"
  by (auto simp: plain_access_def spin_access_def cond_access_def Plain_lock_def spin_cond_def
      Spinlock_lock_with_timeout_def Spinlock_try_lock_def split: plain_frame.splits if_splits)

lemma try_load: "cond_access (sp_pc f) = Ac_load mo \<Longrightarrow>
    (\<exists>f'. Spinlock_try_lock f v = (Inl f', v)) \<or> Spinlock_try_lock f v = (Inr False, v)"
  by (auto simp: cond_access_def spin_cond_def Spinlock_try_lock_def split: if_splits)

lemma try_swap: "cond_access (sp_pc f) = Ac_swap mo \<Longrightarrow>
    Spinlock_try_lock f v = (Inr (v = 0), 1)"
  by (auto simp: cond_access_def spin_cond_def Spinlock_try_lock_def split: if_splits)

lemma access_kinds:
  "cond_access pc \<noteq> Ac_none" "cond_access pc \<noteq> Ac_plain" "cond_access pc \<noteq> Ac_store mo"
  "cond_access pc \<noteq> Ac_load_id mo" "cond_access pc \<noteq> Ac_store_id mo"
  "plain_access f \<noteq> Ac_plain" "plain_access f \<noteq> Ac_store mo"
  "plain_access f \<noteq> Ac_load_id mo" "plain_access f \<noteq> Ac_store_id mo"
  by (auto simp: cond_access_def plain_access_def spin_access_def split: plain_frame.splits)

lemma swap_acquires: "cond_access pc = Ac_swap mo \<Longrightarrow> mo = Acquire"
  "plain_access f = Ac_swap mo \<Longrightarrow> mo = Acquire"
  by (auto simp: cond_access_def plain_access_def spin_access_def order_defs
      split: plain_frame.splits if_splits)

section \<open>Recursive_mutex\<close>

definition rmutex_cells :: "rmutex cells" where
  "rmutex_cells = \<lparr>put_cells = (\<lambda>v x m. m\<lparr>rm_flag := v, rm_tid := x\<rparr>),
     flag_cell = rm_flag, id_cell = rm_tid\<rparr>"

lemmas rmutex_access_cases = rmutex_frame.splits rlock_pc.splits rtry_pc.splits runlock_pc.splits

lemmas rm_weak = rmutex_cells_def rmutex_ok_def rmutex_code_def in_frame_def rmutex_access_def
  access_kinds rmutex_base_def rmutex_minv_def next_ok_def others_keep_def rmutex_ret_def
  Recursive_mutex_lock_def Recursive_mutex_try_lock_def Recursive_mutex_unlock_def

text \<open>One lemma for each law of \<open>weak_lock\<close>.\<close>

lemma rmutex_weak_none:
  assumes "rmutex_access f = Ac_none" "rmutex_ok w (put_cells rmutex_cells v x p) t h (Some f)"
    "rmutex_code t f p = (r, p')"
  shows "next_ok rmutex_ok rmutex_ret w (put_cells rmutex_cells v x p) t h r"
proof -
  obtain g where f: "f = Rm_lock (Rl_acquire g)" "plain_access g = Ac_none"
    using assms(1) by (auto simp: rmutex_access_def access_kinds order_defs split: rmutex_access_cases)
  show ?thesis using plain_none [OF f(2), of "rm_flag p"] assms(2,3) by (auto simp: rm_weak f(1))
qed

lemma rmutex_weak_load:
  assumes acc: "rmutex_access f = Ac_load mo" and "rmutex_minv w (put_cells rmutex_cells v x p)"
    "rmutex_ok w (put_cells rmutex_cells v x p) t h (Some f)"
    "rmutex_code t f (put_cells rmutex_cells v' None p) = (r, p')"
  shows "next_ok rmutex_ok rmutex_ret w (put_cells rmutex_cells v x p) t h r"
proof -
  from acc consider (lock) g where "f = Rm_lock (Rl_acquire g)" "plain_access g = Ac_load mo"
    | (trying) g where "f = Rm_try (Rt_acquire g)" "cond_access (sp_pc g) = Ac_load mo"
    by (auto simp: rmutex_access_def split: rmutex_access_cases)
  then show ?thesis
  proof cases
    case lock
    show ?thesis using plain_load [OF lock(2), of v'] assms(2-4) by (auto simp: rm_weak lock(1))
  next
    case trying
    show ?thesis using try_load [OF trying(2), of v'] assms(2-4)
      by (auto simp: rm_weak trying(1) Plain_try_lock_def)
  qed
qed

lemma rmutex_weak_swap:
  assumes acc: "rmutex_access f = Ac_swap mo" and "rmutex_minv w (put_cells rmutex_cells v x p)"
    "rmutex_ok w (put_cells rmutex_cells v x p) t h (Some f)"
    "rmutex_code t f (put_cells rmutex_cells 1 None p) = (r, p')"
  shows "flag_cell rmutex_cells p' = 1 \<and> next_ok rmutex_ok rmutex_ret w (put_cells rmutex_cells v x p) t h r"
proof -
  from acc consider (lock) g where "f = Rm_lock (Rl_acquire g)" "plain_access g = Ac_swap mo"
    | (trying) g where "f = Rm_try (Rt_acquire g)" "cond_access (sp_pc g) = Ac_swap mo"
    by (auto simp: rmutex_access_def split: rmutex_access_cases)
  then show ?thesis
  proof cases
    case lock
    show ?thesis using plain_swap [OF lock(2), of 1] assms(2-4) by (auto simp: rm_weak lock(1))
  next
    case trying
    show ?thesis using try_swap [OF trying(2), of 1] assms(2-4)
      by (auto simp: rm_weak trying(1) Plain_try_lock_def)
  qed
qed

lemma rmutex_weak_take:
  assumes acc: "rmutex_access f = Ac_swap mo" and "rmutex_minv None (put_cells rmutex_cells 0 x p)"
    "rmutex_ok None (put_cells rmutex_cells 0 x p) t h (Some f)"
    "rmutex_code t f (put_cells rmutex_cells 0 None p) = (r, p')"
  shows "flag_cell rmutex_cells p' = 1 \<and> rmutex_minv (Some t) (put_cells rmutex_cells 1 x p) \<and>
    next_ok rmutex_ok rmutex_ret (Some t) (put_cells rmutex_cells 1 x p) t h r \<and>
    others_keep rmutex_ok t None (put_cells rmutex_cells 0 x p) (Some t) (put_cells rmutex_cells 1 x p)"
proof -
  from acc consider (lock) g where "f = Rm_lock (Rl_acquire g)" "plain_access g = Ac_swap mo"
    | (trying) g where "f = Rm_try (Rt_acquire g)" "cond_access (sp_pc g) = Ac_swap mo"
    by (auto simp: rmutex_access_def split: rmutex_access_cases)
  then show ?thesis
  proof cases
    case lock
    show ?thesis using plain_swap [OF lock(2), of 0] assms(2-4)
      by (auto simp: rm_weak lock(1) flag_inv_def)
  next
    case trying
    show ?thesis using try_swap [OF trying(2), of 0] assms(2-4)
      by (auto simp: rm_weak trying(1) Plain_try_lock_def flag_inv_def)
  qed
qed

lemma rmutex_weak_store:
  assumes "rmutex_access f = Ac_store mo" and "rmutex_minv w (put_cells rmutex_cells v x p)"
    "rmutex_ok w (put_cells rmutex_cells v x p) t h (Some f)"
    "rmutex_code t f (put_cells rmutex_cells 0 None p) = (r, p')"
  shows "w = Some t \<and> flag_cell rmutex_cells p' = 0 \<and> rmutex_minv None (put_cells rmutex_cells 0 x p) \<and>
    next_ok rmutex_ok rmutex_ret None (put_cells rmutex_cells 0 x p) t h r \<and>
    others_keep rmutex_ok t w (put_cells rmutex_cells v x p) None (put_cells rmutex_cells 0 x p)"
proof -
  have f: "f = Rm_unlock Ru_release"
    using assms(1) by (auto simp: rmutex_access_def access_kinds split: rmutex_access_cases)
  show ?thesis using assms(2-4)
    by (auto simp: rm_weak f flag_inv_def Plain_unlock_def Spinlock_unlock_def)
qed

lemma rmutex_weak_load_id:
  assumes acc: "rmutex_access f = Ac_load_id mo" and "rmutex_minv w (put_cells rmutex_cells v x p)"
    "rmutex_ok w (put_cells rmutex_cells v x p) t h (Some f)" "x' = Some t \<longleftrightarrow> x = Some t"
    "rmutex_code t f (put_cells rmutex_cells 0 x' p) = (r, p')"
  shows "next_ok rmutex_ok rmutex_ret w (put_cells rmutex_cells v x p) t h r"
proof -
  have "f = Rm_lock Rl_check \<or> f = Rm_try Rt_check"
    using acc by (auto simp: rmutex_access_def access_kinds split: rmutex_access_cases)
  then show ?thesis using assms(2-5) by (auto simp: rm_weak split: if_splits)
qed

lemma rmutex_weak_store_id:
  assumes acc: "rmutex_access f = Ac_store_id mo" and "rmutex_minv w (put_cells rmutex_cells v x p)"
    "rmutex_ok w (put_cells rmutex_cells v x p) t h (Some f)"
    "rmutex_code t f (put_cells rmutex_cells 0 None p) = (r, p')"
  shows "w = Some t \<and> rmutex_minv w (put_cells rmutex_cells v (id_cell rmutex_cells p') p) \<and>
    next_ok rmutex_ok rmutex_ret w (put_cells rmutex_cells v (id_cell rmutex_cells p') p) t h r \<and>
    others_keep rmutex_ok t w (put_cells rmutex_cells v x p) w (put_cells rmutex_cells v (id_cell rmutex_cells p') p)"
proof -
  have "f = Rm_lock Rl_store \<or> f = Rm_try Rt_store \<or> f = Rm_unlock Ru_clear"
    using acc by (auto simp: rmutex_access_def access_kinds split: rmutex_access_cases)
  then show ?thesis using assms(2-4) by (elim disjE) (auto simp: rm_weak max_rec_locks_def)
qed

lemma rmutex_weak_count:
  "others_keep rmutex_ok t (Some t) (put_cells rmutex_cells v x p) (Some t)
     (put_cells rmutex_cells v x (p\<lparr>rm_count := c\<rparr>))"
  by (auto simp: others_keep_def rmutex_cells_def rmutex_ok_def intro: rmutex_view_count)

lemma rmutex_weak_again:
  assumes "rmutex_minv w (put_cells rmutex_cells v x p)"
    and "rmutex_ok w (put_cells rmutex_cells v x p) t h (Some f)"
    and f: "f = Rm_lock Rl_again \<or> f = Rm_try Rt_again" and code: "rmutex_code t f p = (r, p')"
  shows "w = Some t \<and> (\<exists>c. p' = p\<lparr>rm_count := c\<rparr>) \<and>
    rmutex_minv w (put_cells rmutex_cells v x p') \<and>
    next_ok rmutex_ok rmutex_ret w (put_cells rmutex_cells v x p') t h r"
proof -
  have c: "rm_count p \<noteq> max_rec_locks" "unat (rm_count p) = h" "w = Some t" "x = Some t" "0 < h"
    using assms(1-3) by (auto simp: rmutex_ok_def rmutex_cells_def rmutex_base_def)
  show ?thesis
  proof (cases "rm_full (rm_count p)")
    case True
    then have "p' = p\<lparr>rm_count := rm_count p\<rparr>" "next_ok rmutex_ok rmutex_ret w
        (put_cells rmutex_cells v x p) t h r"
      using assms(2) f code c rmtx_inc_lc_ok [OF c(1)] by (auto simp: rm_weak)
    then show ?thesis using assms(1) c(3) by (metis rmutex.surjective rmutex.update_convs(3))
  next
    case False
    then have n: "rmtx_inc_lc (rm_count p) = (True, rm_count p + 1)" "unat (rm_count p + 1) = Suc h"
      "rm_count p + 1 \<noteq> max_rec_locks"
      using rmtx_inc_lc_ok [OF c(1)] c(2) by simp_all
    then have "p' = p\<lparr>rm_count := rm_count p + 1\<rparr>" "next_ok rmutex_ok rmutex_ret w
        (put_cells rmutex_cells v x (p\<lparr>rm_count := rm_count p + 1\<rparr>)) t h r"
      using f code c by (auto simp: rm_weak)
    then show ?thesis using assms(1) c(3) by (auto simp: rmutex_minv_def rmutex_cells_def)
  qed
qed

lemma rmutex_weak_first:
  assumes "rmutex_minv w (put_cells rmutex_cells v x p)"
    and "rmutex_ok w (put_cells rmutex_cells v x p) t h (Some f)"
    and f: "f = Rm_lock Rl_first \<or> f = Rm_try Rt_first" and code: "rmutex_code t f p = (r, p')"
  shows "w = Some t \<and> (\<exists>c. p' = p\<lparr>rm_count := c\<rparr>) \<and>
    rmutex_minv w (put_cells rmutex_cells v x p') \<and>
    next_ok rmutex_ok rmutex_ret w (put_cells rmutex_cells v x p') t h r"
proof -
  have "w = Some t" "h = 0" "rm_count p = 0"
    using assms(1-3) by (auto simp: rmutex_ok_def rmutex_cells_def)
  moreover have "(1 :: u32) \<noteq> max_rec_locks" by (simp add: max_rec_locks_def)
  ultimately show ?thesis using assms rmtx_first by (elim disjE) (auto simp: rm_weak)
qed

lemma rmutex_weak_dec:
  assumes "rmutex_minv w (put_cells rmutex_cells v x p)"
    and "rmutex_ok w (put_cells rmutex_cells v x p) t h (Some (Rm_unlock Ru_dec))"
    and code: "rmutex_code t (Rm_unlock Ru_dec) p = (r, p')"
  shows "w = Some t \<and> (\<exists>c. p' = p\<lparr>rm_count := c\<rparr>) \<and>
    rmutex_minv w (put_cells rmutex_cells v x p') \<and>
    next_ok rmutex_ok rmutex_ret w (put_cells rmutex_cells v x p') t h r"
proof -
  have c: "w = Some t" "x = Some t" "unat (rm_count p) = Suc h" "rm_count p \<noteq> max_rec_locks"
    using assms(2) by (auto simp: rmutex_ok_def rmutex_cells_def)
  have less: "h < 2 ^ 32 - 1" using c(3) u32_unat_less [of "rm_count p"] by simp
  have dec: "unat (rmtx_dec_lc (rm_count p)) = h" "rmtx_dec_lc (rm_count p) = 0 \<longleftrightarrow> h = 0"
    using rmtx_dec_lc_ok [OF c(3)] unat_dec_zero [OF c(3)] by simp_all
  have "rmtx_dec_lc (rm_count p) \<noteq> max_rec_locks"
    using dec(1) less u32_unat_max by (auto simp: max_rec_locks_def)
  then have "next_ok rmutex_ok rmutex_ret w
      (put_cells rmutex_cells v x (p\<lparr>rm_count := rmtx_dec_lc (rm_count p)\<rparr>)) t h r"
    using code c(1,2) dec by (auto simp: rm_weak Let_def split: if_splits)
  moreover have "p' = p\<lparr>rm_count := rmtx_dec_lc (rm_count p)\<rparr>"
    using code by (auto simp: rm_weak Let_def)
  ultimately show ?thesis using assms(1) c(1) by (auto simp: rmutex_minv_def rmutex_cells_def)
qed

lemma rmutex_weak_plain:
  assumes acc: "rmutex_access f = Ac_plain" and ok: "rmutex_minv w (put_cells rmutex_cells v x p)"
    "rmutex_ok w (put_cells rmutex_cells v x p) t h (Some f)" and code: "rmutex_code t f p = (r, p')"
  shows "w = Some t \<and> rmutex_minv w (put_cells rmutex_cells v x p') \<and>
    next_ok rmutex_ok rmutex_ret w (put_cells rmutex_cells v x p') t h r \<and>
    others_keep rmutex_ok t w (put_cells rmutex_cells v x p) w (put_cells rmutex_cells v x p')"
proof -
  have "f = Rm_lock Rl_again \<or> f = Rm_try Rt_again \<or> f = Rm_lock Rl_first \<or> f = Rm_try Rt_first \<or>
     f = Rm_unlock Ru_dec"
    using acc by (auto simp: rmutex_access_def access_kinds split: rmutex_access_cases)
  then have *: "w = Some t \<and> (\<exists>c. p' = p\<lparr>rm_count := c\<rparr>) \<and>
      rmutex_minv w (put_cells rmutex_cells v x p') \<and>
      next_ok rmutex_ok rmutex_ret w (put_cells rmutex_cells v x p') t h r"
    using rmutex_weak_again [OF ok _ code] rmutex_weak_first [OF ok _ code]
      rmutex_weak_dec [of w v x p t h r p'] ok code by metis
  then show ?thesis using rmutex_weak_count by auto
qed

interpretation rmutex_weak: weak_lock rmutex_cells rmutex_access "\<lambda>h. 0 < h" rmutex_calls
  rmutex_code rmutex_ret rmutex_minv rmutex_ok
proof
  show "mo = Acquire" if "rmutex_access f = Ac_swap mo" for f mo
    using that swap_acquires
    by (auto simp: rmutex_access_def split: rmutex_access_cases)
  show "mo = Release" if "rmutex_access f = Ac_store mo" for f mo
    using that by (auto simp: rmutex_access_def access_kinds order_defs split: rmutex_access_cases)
  show "w = Some t" if "rmutex_ok w m t h q" "0 < h" for w m t h q
    using that rmutex_view_mine by (auto simp: rmutex_ok_def)
  show "x = None \<or> x = w" if "rmutex_minv w (put_cells rmutex_cells v x p)" for w v x p
    using that by (simp add: rmutex_minv_def rmutex_cells_def)
  show "rmutex_ok w m t h' (Some f)" if "rmutex_minv w m" "rmutex_ok w m t h None" "rmutex_calls h f h'"
    for w m t h f h'
    using that by (fact rmx.ok_call)
qed ((rule rmutex_weak_none rmutex_weak_plain rmutex_weak_load rmutex_weak_swap rmutex_weak_take
    rmutex_weak_store rmutex_weak_load_id rmutex_weak_store_id; assumption)+)

section \<open>Mutex\<close>

definition mutex_access :: "mutex_frame \<Rightarrow> access" where
  "mutex_access f = (case f of
       Mx_lock pc \<Rightarrow> (case pc of
           Ml_check \<Rightarrow> Ac_load_id tid_order | Ml_acquire g \<Rightarrow> plain_access g
         | Ml_store \<Rightarrow> Ac_store_id tid_order)
     | Mx_try g \<Rightarrow> cond_access (sp_pc g)
     | Mx_unlock pc \<Rightarrow> (case pc of
           Mu_clear \<Rightarrow> Ac_store_id tid_order | Mu_release \<Rightarrow> Ac_store spin_unlock_order))"

definition mutex_cells :: "mutex cells" where
  "mutex_cells = \<lparr>put_cells = (\<lambda>v x m. m\<lparr>mx_flag := v, mx_tid := x\<rparr>),
     flag_cell = mx_flag, id_cell = mx_tid\<rparr>"

lemmas mutex_access_cases = mutex_frame.splits mutex_lock_pc.splits mutex_unlock_pc.splits

lemmas mx_weak = mutex_cells_def mutex_ok_def mutex_code_def in_frame_def mutex_base_def
  mutex_minv_def next_ok_def others_keep_def mutex_ret_def flag_inv_def
  Mutex_lock_def Mutex_try_lock_def Mutex_unlock_def

lemma mutex_weak_flag_frames:
  assumes "mutex_access f = Ac_load mo \<or> mutex_access f = Ac_swap mo"
  obtains g where "f = Mx_lock (Ml_acquire g)" "plain_access g = mutex_access f"
    | g where "f = Mx_try g" "cond_access (sp_pc g) = mutex_access f"
  using assms by (auto simp: mutex_access_def split: mutex_access_cases)

lemma mutex_weak_none:
  assumes "mutex_access f = Ac_none" "mutex_minv w (put_cells mutex_cells v x p)"
    "mutex_ok w (put_cells mutex_cells v x p) t h (Some f)" "mutex_code t f p = (r, p')"
  shows "next_ok mutex_ok mutex_ret w (put_cells mutex_cells v x p) t h r"
proof -
  obtain g where f: "f = Mx_lock (Ml_acquire g)" "plain_access g = Ac_none"
    using assms(1) by (auto simp: mutex_access_def access_kinds split: mutex_access_cases)
  show ?thesis using plain_none [OF f(2), of "mx_flag p"] assms(3,4) by (auto simp: mx_weak f(1))
qed

lemma mutex_weak_load:
  assumes acc: "mutex_access f = Ac_load mo" and ok: "mutex_minv w (put_cells mutex_cells v x p)"
    "mutex_ok w (put_cells mutex_cells v x p) t h (Some f)"
    "mutex_code t f (put_cells mutex_cells v' None p) = (r, p')"
  shows "next_ok mutex_ok mutex_ret w (put_cells mutex_cells v x p) t h r"
proof (rule mutex_weak_flag_frames [OF disjI1 [OF acc]])
  show ?thesis if f: "f = Mx_lock (Ml_acquire g)" "plain_access g = mutex_access f" for g
    using plain_load [OF f(2) [unfolded acc], of v'] ok by (auto simp: mx_weak f(1))
  show ?thesis if f: "f = Mx_try g" "cond_access (sp_pc g) = mutex_access f" for g
    using try_load [OF f(2) [unfolded acc], of v'] ok
    by (auto simp: mx_weak f(1) Plain_try_lock_def)
qed

lemma mutex_weak_swap:
  assumes acc: "mutex_access f = Ac_swap mo" and ok: "mutex_minv w (put_cells mutex_cells v x p)"
    "mutex_ok w (put_cells mutex_cells v x p) t h (Some f)"
    "mutex_code t f (put_cells mutex_cells 1 None p) = (r, p')"
  shows "flag_cell mutex_cells p' = 1 \<and> next_ok mutex_ok mutex_ret w (put_cells mutex_cells v x p) t h r"
proof (rule mutex_weak_flag_frames [OF disjI2 [OF acc]])
  show ?thesis if f: "f = Mx_lock (Ml_acquire g)" "plain_access g = mutex_access f" for g
    using plain_swap [OF f(2) [unfolded acc], of 1] ok by (auto simp: mx_weak f(1))
  show ?thesis if f: "f = Mx_try g" "cond_access (sp_pc g) = mutex_access f" for g
    using try_swap [OF f(2) [unfolded acc], of 1] ok
    by (auto simp: mx_weak f(1) Plain_try_lock_def)
qed

lemma mutex_weak_take:
  assumes acc: "mutex_access f = Ac_swap mo" and ok: "mutex_minv None (put_cells mutex_cells 0 x p)"
    "mutex_ok None (put_cells mutex_cells 0 x p) t h (Some f)"
    "mutex_code t f (put_cells mutex_cells 0 None p) = (r, p')"
  shows "flag_cell mutex_cells p' = 1 \<and> mutex_minv (Some t) (put_cells mutex_cells 1 x p) \<and>
    next_ok mutex_ok mutex_ret (Some t) (put_cells mutex_cells 1 x p) t h r \<and>
    others_keep mutex_ok t None (put_cells mutex_cells 0 x p) (Some t) (put_cells mutex_cells 1 x p)"
proof (rule mutex_weak_flag_frames [OF disjI2 [OF acc]])
  show ?thesis if f: "f = Mx_lock (Ml_acquire g)" "plain_access g = mutex_access f" for g
    using plain_swap [OF f(2) [unfolded acc], of 0] ok by (auto simp: mx_weak f(1))
  show ?thesis if f: "f = Mx_try g" "cond_access (sp_pc g) = mutex_access f" for g
    using try_swap [OF f(2) [unfolded acc], of 0] ok
    by (auto simp: mx_weak f(1) Plain_try_lock_def)
qed

lemma mutex_weak_store:
  assumes "mutex_access f = Ac_store mo" and ok: "mutex_minv w (put_cells mutex_cells v x p)"
    "mutex_ok w (put_cells mutex_cells v x p) t h (Some f)"
    "mutex_code t f (put_cells mutex_cells 0 None p) = (r, p')"
  shows "w = Some t \<and> flag_cell mutex_cells p' = 0 \<and> mutex_minv None (put_cells mutex_cells 0 x p) \<and>
    next_ok mutex_ok mutex_ret None (put_cells mutex_cells 0 x p) t h r \<and>
    others_keep mutex_ok t w (put_cells mutex_cells v x p) None (put_cells mutex_cells 0 x p)"
proof -
  have f: "f = Mx_unlock Mu_release"
    using assms(1) by (auto simp: mutex_access_def access_kinds split: mutex_access_cases)
  show ?thesis using ok by (auto simp: mx_weak f Plain_unlock_def Spinlock_unlock_def)
qed

lemma mutex_weak_load_id:
  assumes "mutex_access f = Ac_load_id mo" and ok: "mutex_minv w (put_cells mutex_cells v x p)"
    "mutex_ok w (put_cells mutex_cells v x p) t h (Some f)" "x' = Some t \<longleftrightarrow> x = Some t"
    "mutex_code t f (put_cells mutex_cells 0 x' p) = (r, p')"
  shows "next_ok mutex_ok mutex_ret w (put_cells mutex_cells v x p) t h r"
proof -
  have f: "f = Mx_lock Ml_check"
    using assms(1) by (auto simp: mutex_access_def access_kinds split: mutex_access_cases)
  show ?thesis using ok by (auto simp: mx_weak f split: if_splits)
qed

lemma mutex_weak_store_id:
  assumes "mutex_access f = Ac_store_id mo" and ok: "mutex_minv w (put_cells mutex_cells v x p)"
    "mutex_ok w (put_cells mutex_cells v x p) t h (Some f)"
    "mutex_code t f (put_cells mutex_cells 0 None p) = (r, p')"
  shows "w = Some t \<and> mutex_minv w (put_cells mutex_cells v (id_cell mutex_cells p') p) \<and>
    next_ok mutex_ok mutex_ret w (put_cells mutex_cells v (id_cell mutex_cells p') p) t h r \<and>
    others_keep mutex_ok t w (put_cells mutex_cells v x p) w
      (put_cells mutex_cells v (id_cell mutex_cells p') p)"
proof -
  have "f = Mx_lock Ml_store \<or> f = Mx_unlock Mu_clear"
    using assms(1) by (auto simp: mutex_access_def access_kinds split: mutex_access_cases)
  then show ?thesis using ok by (elim disjE) (auto simp: mx_weak)
qed

lemma mutex_no_plain: "mutex_access f \<noteq> Ac_plain"
  by (auto simp: mutex_access_def access_kinds split: mutex_access_cases)

interpretation mutex_weak: weak_lock mutex_cells mutex_access "\<lambda>h. h \<noteq> Not_held" mutex_calls
  mutex_code mutex_ret mutex_minv mutex_ok
proof
  show "mo = Acquire" if "mutex_access f = Ac_swap mo" for f mo
    using that swap_acquires by (auto simp: mutex_access_def split: mutex_access_cases)
  show "mo = Release" if "mutex_access f = Ac_store mo" for f mo
    using that by (auto simp: mutex_access_def access_kinds order_defs split: mutex_access_cases)
  show "w = Some t" if "mutex_ok w m t h q" "h \<noteq> Not_held" for w m t h q
    using that mutex_view_mine by (auto simp: mutex_ok_def)
  show "x = None \<or> x = w" if "mutex_minv w (put_cells mutex_cells v x p)" for w v x p
    using that by (simp add: mutex_minv_def mutex_cells_def)
  show "mutex_ok w m t h' (Some f)" if "mutex_minv w m" "mutex_ok w m t h None" "mutex_calls h f h'"
    for w m t h f h'
    using that by (fact mx.ok_call)
qed (simp add: mutex_no_plain | (rule mutex_weak_none mutex_weak_load mutex_weak_swap mutex_weak_take
    mutex_weak_store mutex_weak_load_id mutex_weak_store_id; assumption))+

section \<open>Spinlock\<close>

text \<open>A spinlock has no \<open>m_tid\<close>; the second component is never used.\<close>

definition spin_cells :: "(u32 \<times> tid option) cells" where
  "spin_cells = \<lparr>put_cells = (\<lambda>v x m. (v, x)), flag_cell = fst, id_cell = snd\<rparr>"

definition spin_code_pair ::
  "tid \<Rightarrow> spin_call \<Rightarrow> u32 \<times> tid option \<Rightarrow> (spin_call + spin_result) \<times> (u32 \<times> tid option)" where
  "spin_code_pair t c m = (fst (spin_code t c (fst m)), (snd (spin_code t c (fst m)), snd m))"

definition call_access :: "spin_call \<Rightarrow> access" where
  "call_access c = (case c of
       Sc_lock f \<Rightarrow> spin_access f | Sc_try f \<Rightarrow> cond_access (sp_pc f) | Sc_timeout f \<Rightarrow> spin_access f
     | Sc_unlock \<Rightarrow> Ac_store spin_unlock_order)"

definition spin_minv :: "tid option \<Rightarrow> u32 \<times> tid option \<Rightarrow> bool" where
  "spin_minv w m \<longleftrightarrow> flag_inv w (fst m) \<and> snd m = None"

definition spin_ok_pair :: "tid option \<Rightarrow> u32 \<times> tid option \<Rightarrow> tid \<Rightarrow> bool \<Rightarrow> spin_call option \<Rightarrow> bool" where
  "spin_ok_pair w m t h q \<longleftrightarrow> spin_ok w (fst m) t h q"

lemmas spin_weak = spin_cells_def spin_code_pair_def call_access_def spin_minv_def spin_ok_pair_def
  spin_ok_def next_ok_def others_keep_def spin_ret_def flag_inv_def spin_code_def spin_result_of_def
  spin_access_def cond_access_def spin_defs Spinlock_unlock_def

interpretation spin_weak: weak_lock spin_cells call_access "\<lambda>h. h" spin_calls spin_code_pair spin_ret
  spin_minv spin_ok_pair
proof
  show "mo = Acquire" if "call_access c = Ac_swap mo" for c mo
    using that by (auto simp: call_access_def spin_access_def cond_access_def order_defs
        split: spin_call.splits if_splits)
  show "mo = Release" if "call_access c = Ac_store mo" for c mo
    using that by (auto simp: call_access_def spin_access_def cond_access_def order_defs
        split: spin_call.splits if_splits)
  show "spin_ok_pair w m t h' (Some f)" if "spin_ok_pair w m t h None" "spin_calls h f h'"
    for w m t h f h'
    using that by (auto simp: spin_ok_pair_def spin_ok_def spin_calls_def split: if_splits)
qed (auto simp: spin_weak split: spin_call.splits if_splits)

section \<open>Properties\<close>

definition weak_conf :: "'m \<Rightarrow> 'h \<Rightarrow> ('m weak_memory, 'h, 'f, 'r) conf" where
  "weak_conf p h = \<lparr>shared = weak_start p,
     thread_of = (\<lambda>t. \<lparr>th_held = h, th_call = None, th_last = None\<rparr>)\<rparr>"

abbreviation spin_weak_step where
  "spin_weak_step \<equiv> weak_step spin_cells call_access (\<lambda>h. h) spin_calls spin_code_pair spin_ret"

abbreviation mutex_weak_step where
  "mutex_weak_step \<equiv> weak_step mutex_cells mutex_access (\<lambda>h. h \<noteq> Not_held) mutex_calls mutex_code mutex_ret"

abbreviation rmutex_weak_step where
  "rmutex_weak_step \<equiv>
     weak_step rmutex_cells rmutex_access (\<lambda>h. 0 < h) rmutex_calls rmutex_code rmutex_ret"

lemma spin_weak_start: "spin_weak.weak_owned None (weak_conf (0, None) False)"
  unfolding weak_conf_def by (rule spin_weak.weak_owned_start) (auto simp: spin_weak)

lemma mutex_weak_start: "mutex_weak.weak_owned None (weak_conf Mutex_init Not_held)"
  unfolding weak_conf_def by (rule mutex_weak.weak_owned_start) (auto simp: mx_weak)

lemma rmutex_weak_start: "rmutex_weak.weak_owned None (weak_conf Recursive_mutex_init 0)"
  unfolding weak_conf_def
  by (rule rmutex_weak.weak_owned_start) (auto simp: rm_weak flag_inv_def Recursive_mutex_init_def)

text \<open>
  C23: The memory orders of \<open>Spinlock\<close> (relaxed load, acquire exchange, release store) are enough,
  whichever of the three routines the threads lock with: at most one thread holds the lock, no
  access to the data that it protects races with another, and everything done under the lock before
  happens before what its holder does.
\<close>

theorem Spinlock_memory_orders:
  assumes "spin_weak_step\<^sup>*\<^sup>* (weak_conf (0, None) False) c"
  shows "\<not> wm_race (shared c) \<and>
    (th_held (thread_of c t) \<longrightarrow> wm_touched (shared c) \<subseteq> wm_view (shared c) t) \<and>
    (th_held (thread_of c t) \<and> th_held (thread_of c u) \<longrightarrow> t = u)"
  using spin_weak.weak_exclusion [OF assms spin_weak_start] by blast

text \<open>
  Thread 1 takes the lock, accesses the data and releases it; thread 2 takes it, after a load that
  returned the first write to the flag, and accesses the data.
\<close>

definition spin_handed_acts :: "(tid \<times> (spin_call, bool) weak_act) list" where
  "spin_handed_acts = [(2, W_call (Sc_lock spin_enter) False), (2, W_access 0),
     (1, W_call (Sc_try spin_enter) False), (1, W_access 0), (1, W_access 0), (1, W_data),
     (1, W_call Sc_unlock False), (1, W_access 2), (2, W_access 2), (2, W_data)]"

definition spin_handed :: "((u32 \<times> tid option) weak_memory, bool, spin_call, spin_result) conf" where
  "spin_handed = the (weak_exec spin_cells call_access (\<lambda>h. h) spin_calls spin_code_pair spin_ret
     spin_handed_acts (weak_conf (0, None) False))"

lemmas weak_run = weak_conf_def weak_start_def weak_exec_step_def weak_access_def readable_def
  writable_def acquired_def released_def insert_at_def swap_at_def see_def tick_def touch_def Let_def

theorem Spinlock_memory_orders_witness:
  "th_held (thread_of spin_handed 2) \<and> wm_touched (shared spin_handed) \<subseteq> wm_view (shared spin_handed) 2"
proof -
  have e: "weak_exec spin_cells call_access (\<lambda>h. h) spin_calls spin_code_pair spin_ret
      spin_handed_acts (weak_conf (0, None) False) = Some spin_handed"
    and "th_held (thread_of spin_handed 2)"
    by (simp_all add: spin_handed_def spin_handed_acts_def weak_run spin_weak order_defs spin_enter_def
        spin_calls_def)
  then show ?thesis using Spinlock_memory_orders [OF weak_exec_sound [OF e], of 2 2] by simp
qed

text \<open>
  C24: The relaxed accesses of \<open>Mutex\<close> to \<open>m_tid\<close> are enough too: mutual exclusion, no race on the
  protected data, everything done under the mutex before happens before what its holder does, and
  \<open>lock\<close> reports the deadlock exactly when its caller holds the mutex by \<open>lock\<close>, although its check
  may read an old value.
\<close>

theorem Mutex_memory_orders:
  assumes "mutex_weak_step\<^sup>*\<^sup>* (weak_conf Mutex_init Not_held) c"
  shows "\<not> wm_race (shared c) \<and>
    (th_held (thread_of c t) \<noteq> Not_held \<longrightarrow> wm_touched (shared c) \<subseteq> wm_view (shared c) t) \<and>
    (th_held (thread_of c t) \<noteq> Not_held \<and> th_held (thread_of c u) \<noteq> Not_held \<longrightarrow> t = u) \<and>
    (th_call (thread_of c t) = Some (Mx_lock Ml_check) \<and>
      weak_access mutex_cells mutex_code mutex_access k t (Mx_lock Ml_check) (shared c) = Some (r, m')
      \<longrightarrow> (r = Inr Mx_deadlock \<longleftrightarrow> th_held (thread_of c t) = By_lock))"
proof -
  obtain w where own: "mutex_weak.weak_owned w c"
    by (rule mutex_weak.reach_weak_owned [OF assms mutex_weak_start])
  have "r = Inr Mx_deadlock \<longleftrightarrow> th_held (thread_of c t) = By_lock"
    if "th_call (thread_of c t) = Some (Mx_lock Ml_check)"
      "weak_access mutex_cells mutex_code mutex_access k t (Mx_lock Ml_check) (shared c) = Some (r, m')"
  proof -
    have k: "readable (wm_view (shared c) t) (wm_id (shared c)) k"
      and r: "r = (if msg_val (wm_id (shared c) ! k) = Some t then Inr Mx_deadlock
        else Inl (Mx_lock (Ml_acquire Plain_enter)))"
      using that(2) by (auto simp: weak_access_def mutex_access_def mx_weak Let_def split: if_splits)
    have "mutex_ok w (sc_memory mutex_cells w (shared c)) t (th_held (thread_of c t))
        (Some (Mx_lock Ml_check))"
      using own that(1) unfolding mutex_weak.weak_owned_def by metis
    then have "last_id (shared c) = Some t \<longleftrightarrow> th_held (thread_of c t) = By_lock"
      by (auto simp: mx_weak sc_memory_def)
    moreover have "msg_val (wm_id (shared c) ! k) = Some t \<longleftrightarrow> last_id (shared c) = Some t"
      using own by (intro mutex_weak.read_id [OF _ _ k]) (auto simp: mutex_weak.weak_owned_def)
    ultimately show ?thesis using r by simp
  qed
  then show ?thesis using mutex_weak.weak_exclusion [OF assms mutex_weak_start] by blast
qed

text \<open>Thread 3 takes the mutex with \<open>lock\<close> and calls \<open>lock\<close> again.\<close>

definition mutex_again_acts :: "(tid \<times> (mutex_frame, hold) weak_act) list" where
  "mutex_again_acts = [(3, W_call (Mx_lock Ml_check) Not_held), (3, W_access 0), (3, W_access 0),
     (3, W_access 0), (3, W_access 1), (3, W_data), (3, W_call (Mx_lock Ml_check) By_lock)]"

definition mutex_again :: "(mutex weak_memory, hold, mutex_frame, mutex_result) conf" where
  "mutex_again = the (weak_exec mutex_cells mutex_access (\<lambda>h. h \<noteq> Not_held) mutex_calls mutex_code
     mutex_ret mutex_again_acts (weak_conf Mutex_init Not_held))"

theorem Mutex_memory_orders_witness:
  "map_option fst (weak_access mutex_cells mutex_code mutex_access 1 3 (Mx_lock Ml_check)
     (shared mutex_again)) = Some (Inr Mx_deadlock)"
proof -
  have e: "weak_exec mutex_cells mutex_access (\<lambda>h. h \<noteq> Not_held) mutex_calls mutex_code
     mutex_ret mutex_again_acts (weak_conf Mutex_init Not_held) = Some mutex_again"
    and h: "th_held (thread_of mutex_again 3) = By_lock"
      "th_call (thread_of mutex_again 3) = Some (Mx_lock Ml_check)"
    and "weak_access mutex_cells mutex_code mutex_access 1 3 (Mx_lock Ml_check) (shared mutex_again)
      \<noteq> None"
    by (simp_all add: mutex_again_def mutex_again_acts_def weak_run mutex_code_defs mutex_cells_def
      mutex_access_def plain_access_def spin_access_def cond_access_def order_defs Mutex_init_def)
  then obtain r m' where "weak_access mutex_cells mutex_code mutex_access 1 3 (Mx_lock Ml_check)
      (shared mutex_again) = Some (r, m')" by auto
  then show ?thesis using Mutex_memory_orders [OF weak_exec_sound [OF e], of 3 3 1 r m'] h by simp
qed

text \<open>
  C25: \<open>Recursive_mutex\<close> under its memory orders: the lock count, an ordinary variable that is also
  accessed on the path where the mutex is recognised as already held by a relaxed load of \<open>m_tid\<close>, is
  accessed without a race, as is the protected data; and for a holder between calls it is the lock
  depth.
\<close>

theorem Recursive_mutex_memory_orders:
  assumes "rmutex_weak_step\<^sup>*\<^sup>* (weak_conf Recursive_mutex_init 0) c"
  shows "\<not> wm_race (shared c) \<and>
    (0 < th_held (thread_of c t) \<longrightarrow> wm_touched (shared c) \<subseteq> wm_view (shared c) t) \<and>
    (0 < th_held (thread_of c t) \<and> 0 < th_held (thread_of c u) \<longrightarrow> t = u) \<and>
    (th_call (thread_of c t) = None \<and> 0 < th_held (thread_of c t) \<longrightarrow>
      unat (rm_count (wm_plain (shared c))) = th_held (thread_of c t))"
proof -
  obtain w where own: "rmutex_weak.weak_owned w c"
    by (rule rmutex_weak.reach_weak_owned [OF assms rmutex_weak_start])
  have "unat (rm_count (wm_plain (shared c))) = th_held (thread_of c t)"
    if "th_call (thread_of c t) = None" "0 < th_held (thread_of c t)"
  proof -
    have "rmutex_ok w (sc_memory rmutex_cells w (shared c)) t (th_held (thread_of c t)) None"
      using own that(1) unfolding rmutex_weak.weak_owned_def by metis
    then show ?thesis using that(2) by (simp add: rmutex_ok_def rmutex_base_def sc_memory_def rmutex_cells_def)
  qed
  then show ?thesis using rmutex_weak.weak_exclusion [OF assms rmutex_weak_start] by blast
qed

text \<open>
  Thread 5 locks and unlocks, then thread 7 locks: its check returns the id of thread 5, which is old.
\<close>

definition rmutex_passed_acts :: "(tid \<times> (rmutex_frame, nat) weak_act) list" where
  "rmutex_passed_acts = [(5, W_call (Rm_try Rt_check) 0), (5, W_access 0), (5, W_access 0),
     (5, W_access 0), (5, W_access 0), (5, W_access 1),
     (5, W_call (Rm_unlock Ru_dec) 0), (5, W_access 0), (5, W_access 2), (5, W_access 2),
     (7, W_call (Rm_try Rt_check) 0), (7, W_access 1), (7, W_access 2), (7, W_access 2),
     (7, W_access 0), (7, W_access 3)]"

definition rmutex_passed :: "(rmutex weak_memory, nat, rmutex_frame, rmutex_result) conf" where
  "rmutex_passed = the (weak_exec rmutex_cells rmutex_access (\<lambda>h. 0 < h) rmutex_calls rmutex_code rmutex_ret
     rmutex_passed_acts (weak_conf Recursive_mutex_init 0))"

theorem Recursive_mutex_memory_orders_witness:
  "unat (rm_count (wm_plain (shared rmutex_passed))) = 1 \<and> \<not> wm_race (shared rmutex_passed)"
proof -
  have e: "weak_exec rmutex_cells rmutex_access (\<lambda>h. 0 < h) rmutex_calls rmutex_code rmutex_ret
      rmutex_passed_acts (weak_conf Recursive_mutex_init 0) = Some rmutex_passed"
    and "th_held (thread_of rmutex_passed 7) = 1" "th_call (thread_of rmutex_passed 7) = None"
    by (simp_all add: rmutex_passed_def rmutex_passed_acts_def weak_run rmutex_code_defs rmutex_cells_def
      rmutex_access_def cond_access_def order_defs Recursive_mutex_init_def rmtx_dec_lc_def Spinlock_unlock_def)
  then show ?thesis using Recursive_mutex_memory_orders [OF weak_exec_sound [OF e], of 7 7] by simp
qed

end
