(* ===== verification/Weak_notify.thy ===== *)
theory Weak_notify
  imports Weak_memory Sleep
begin

text \<open>
  Waking a scheduler under the memory orders of the code. What a scheduler looks at before it blocks,
  the conditions of its waiting workers, \<open>m_exit\<close> and the counter \<open>m_size\<close> of its task queue, is
  written and read with relaxed accesses; a thread that has written then calls \<open>Scheduler::notify\<close>,
  which takes and releases \<open>m_mtx\<close> before it signals the condition variable. Here \<open>notify\<close> and
  \<open>sleep\<close> are executed access by access on the memory of the theory Weak_memory, in which a relaxed
  load may return an old value.
\<close>

section \<open>Memory\<close>

text \<open>
  The writes to the three kinds of flags in modification order, the mutex \<open>m_mtx\<close> with what happens
  before its next owner, \<open>m_running\<close>, and whether a thread is blocked on \<open>m_cv\<close> without having been
  signalled. \<open>nm_view\<close> and \<open>nm_clock\<close> are as in Weak_memory.
\<close>

record notify_memory =
  nm_cond :: "nat \<Rightarrow> bool message list"
  nm_exit :: "bool message list"
  nm_size :: "u64 message list"
  nm_owner :: "tid option"
  nm_mtx_view :: "nat set"
  nm_running :: bool
  nm_blocked :: bool
  nm_view :: "tid \<Rightarrow> nat set"
  nm_clock :: nat

definition notify_start :: notify_memory where
  "notify_start =
    \<lparr>nm_cond = (\<lambda>w. [\<lparr>msg_val = False, msg_event = 0, msg_view = {0}, msg_taken = False\<rparr>]),
     nm_exit = [\<lparr>msg_val = False, msg_event = 0, msg_view = {0}, msg_taken = False\<rparr>],
     nm_size = [\<lparr>msg_val = 0, msg_event = 0, msg_view = {0}, msg_taken = False\<rparr>],
     nm_owner = None, nm_mtx_view = {0}, nm_running = True, nm_blocked = False,
     nm_view = (\<lambda>t. {0}), nm_clock = 1\<rparr>"

text \<open>A relaxed write is the next event of its thread and passes nothing on.\<close>

definition relaxed_msg :: "'v \<Rightarrow> notify_memory \<Rightarrow> 'v message" where
  "relaxed_msg v m = \<lparr>msg_val = v, msg_event = nm_clock m,
     msg_view = released Relaxed (nm_clock m) {}, msg_taken = False\<rparr>"

definition wrote :: "tid \<Rightarrow> notify_memory \<Rightarrow> notify_memory" where
  "wrote t m = m\<lparr>nm_view := (nm_view m)(t := insert (nm_clock m) (nm_view m t)),
     nm_clock := Suc (nm_clock m)\<rparr>"

definition mtx_lock :: "tid \<Rightarrow> notify_memory \<Rightarrow> notify_memory" where
  "mtx_lock t m = m\<lparr>nm_owner := Some t, nm_view := (nm_view m)(t := nm_view m t \<union> nm_mtx_view m)\<rparr>"

definition mtx_unlock :: "tid \<Rightarrow> notify_memory \<Rightarrow> notify_memory" where
  "mtx_unlock t m = m\<lparr>nm_owner := None, nm_mtx_view := nm_view m t\<rparr>"

text \<open>To block on the condition variable releases the mutex in the same step.\<close>

definition cv_block :: "tid \<Rightarrow> notify_memory \<Rightarrow> notify_memory" where
  "cv_block t m = (mtx_unlock t m)\<lparr>nm_blocked := True\<rparr>"

section \<open>The code\<close>

text \<open>\<open>Scheduler::notify\<close>. \<open>None\<close>: the mutex is not free.\<close>

datatype notify_pc = Np_lock | Np_running | Np_unlock | Np_signal

fun Scheduler_notify ::
  "tid \<Rightarrow> notify_pc \<Rightarrow> notify_memory \<Rightarrow> (notify_pc option \<times> notify_memory) option"
where
  "Scheduler_notify t Np_lock m =
     (if nm_owner m = None then Some (Some Np_running, mtx_lock t m) else None)"
| "Scheduler_notify t Np_running m = Some (Some Np_unlock, m\<lparr>nm_running := True\<rparr>)"
| "Scheduler_notify t Np_unlock m = Some (Some Np_signal, mtx_unlock t m)"
| "Scheduler_notify t Np_signal m = Some (None, m\<lparr>nm_blocked := False\<rparr>)"

text \<open>
  \<open>Scheduler::sleep\<close> from taking the lock, for a scheduler with the waiting workers \<open>sl_waiting\<close>;
  \<open>sl_idle\<close> says whether it has idle workers and \<open>sl_due\<close> whether the earliest of the sleepers is
  due when the clock is read. The queues of workers are its own. The wait with a time has the
  predicate \<open>m_running\<close>, the other one \<open>has_tasks() || exit_signaled()\<close>. A load reads the write at
  the place \<open>k\<close>; a blocked thread goes on when it has been signalled (\<open>k = 0\<close>), spuriously
  (\<open>k = 1\<close>), or at its time (\<open>k = 2\<close>). The scheduler is past its initialisation; the calls that touch
  nothing of this memory, \<open>set_state\<close> and \<open>signal_idle\<close>, are not steps.
\<close>

record sleep_call =
  sl_waiting :: "nat list"
  sl_idle :: bool
  sl_due :: bool

datatype sleep_pc =
    Sp_lock | Sp_tasks | Sp_exit | Sp_exit_tasks | Sp_conds "nat list" bool
  | Sp_timed | Sp_timed_pred | Sp_timed_blocked | Sp_timed_relock bool | Sp_timed_done
  | Sp_idle | Sp_pred_tasks | Sp_pred_exit | Sp_idle_blocked | Sp_idle_relock
  | Sp_unlock

definition sleep_kind :: "sleep_call \<Rightarrow> sleep_pc" where
  "sleep_kind a = (if sl_waiting a \<noteq> [] then Sp_conds (sl_waiting a) False else Sp_idle)"

definition relaxed_load :: "nat \<Rightarrow> tid \<Rightarrow> 'v message list \<Rightarrow> notify_memory \<Rightarrow> 'v option" where
  "relaxed_load k t ms m = (if readable (nm_view m t) ms k then Some (msg_val (ms ! k)) else None)"

definition wake_up :: "nat \<Rightarrow> notify_memory \<Rightarrow> notify_memory option" where
  "wake_up k m = (if nm_blocked m \<and> k = 0 then None else Some (m\<lparr>nm_blocked := False\<rparr>))"

definition relock :: "tid \<Rightarrow> sleep_pc \<Rightarrow> notify_memory \<Rightarrow> (sleep_pc option \<times> notify_memory) option" where
  "relock t pc m = (if nm_owner m = None then Some (Some pc, mtx_lock t m) else None)"

fun Scheduler_sleep ::
  "nat \<Rightarrow> tid \<Rightarrow> sleep_call \<Rightarrow> sleep_pc \<Rightarrow> notify_memory \<Rightarrow> (sleep_pc option \<times> notify_memory) option"
where
  "Scheduler_sleep k t a Sp_lock m = relock t Sp_tasks m"
| "Scheduler_sleep k t a Sp_tasks m = map_option (\<lambda>n.
     (Some (if n \<noteq> 0 \<and> sl_idle a then Sp_unlock else Sp_exit), m)) (relaxed_load k t (nm_size m) m)"
| "Scheduler_sleep k t a Sp_exit m = map_option (\<lambda>e.
     (Some (if e \<and> sl_waiting a = [] then Sp_exit_tasks else sleep_kind a), m))
     (relaxed_load k t (nm_exit m) m)"
| "Scheduler_sleep k t a Sp_exit_tasks m = map_option (\<lambda>n.
     (Some (if n = 0 then Sp_unlock else sleep_kind a), m)) (relaxed_load k t (nm_size m) m)"
| "Scheduler_sleep k t a (Sp_conds [] b) m =
     Some (Some (if b \<or> sl_due a then Sp_unlock else Sp_timed), m)"
| "Scheduler_sleep k t a (Sp_conds (w # ws) b) m = map_option (\<lambda>v.
     (Some (Sp_conds ws (b \<or> v)), m)) (relaxed_load k t (nm_cond m w) m)"
| "Scheduler_sleep k t a Sp_timed m = Some (Some Sp_timed_pred, m\<lparr>nm_running := False\<rparr>)"
| "Scheduler_sleep k t a Sp_timed_pred m =
     Some (if nm_running m then (Some Sp_timed_done, m) else (Some Sp_timed_blocked, cv_block t m))"
| "Scheduler_sleep k t a Sp_timed_blocked m =
     map_option (\<lambda>m'. (Some (Sp_timed_relock (k = 2)), m')) (wake_up k m)"
| "Scheduler_sleep k t a (Sp_timed_relock timeout) m =
     relock t (if timeout then Sp_timed_done else Sp_timed_pred) m"
| "Scheduler_sleep k t a Sp_timed_done m = Some (Some Sp_unlock, m\<lparr>nm_running := True\<rparr>)"
| "Scheduler_sleep k t a Sp_idle m = Some (Some Sp_pred_tasks, m\<lparr>nm_running := False\<rparr>)"
| "Scheduler_sleep k t a Sp_pred_tasks m = map_option (\<lambda>n.
     (Some (if n \<noteq> 0 then Sp_unlock else Sp_pred_exit), m)) (relaxed_load k t (nm_size m) m)"
| "Scheduler_sleep k t a Sp_pred_exit m = map_option (\<lambda>e.
     if e then (Some Sp_unlock, m) else (Some Sp_idle_blocked, cv_block t m))
     (relaxed_load k t (nm_exit m) m)"
| "Scheduler_sleep k t a Sp_idle_blocked m =
     map_option (\<lambda>m'. (Some Sp_idle_relock, m')) (wake_up k m)"
| "Scheduler_sleep k t a Sp_idle_relock m = relock t Sp_pred_tasks m"
| "Scheduler_sleep k t a Sp_unlock m = Some (None, mtx_unlock t m)"

text \<open>
  What the threads do: \<open>notify_waiter\<close> (\<open>set_cond\<close>), \<open>enqueue_task\<close> (the \<open>fetch_add\<close> of \<open>enque\<close>)
  and the destructor (\<open>signal_exit\<close>), each followed by \<open>notify\<close>; \<open>notify\<close> alone; \<open>deque\<close> by the
  scheduler or a thief (the \<open>fetch_sub\<close>); and, by the thread that executes the scheduler, \<open>clear_cond\<close>
  of a worker and \<open>sleep\<close>. A read-modify-write acts on the last write. The queue holds the tasks that
  are counted, and never 2^64 of them.
\<close>

datatype notify_frame =
    Nf_set_cond nat | Nf_enque | Nf_signal_exit | Nf_deque | Nf_clear_cond nat
  | Nf_notify notify_pc | Nf_sleep sleep_call sleep_pc

definition count_tasks :: "u64 \<Rightarrow> tid \<Rightarrow> notify_memory \<Rightarrow> notify_memory" where
  "count_tasks d t m =
     wrote t (m\<lparr>nm_size := nm_size m @ [relaxed_msg (msg_val (last (nm_size m)) + d) m]\<rparr>)"

definition store_cond :: "bool \<Rightarrow> nat \<Rightarrow> nat \<Rightarrow> tid \<Rightarrow> notify_memory \<Rightarrow> notify_memory option" where
  "store_cond b w k t m = (if writable (nm_view m t) (nm_cond m w) k
     then Some (wrote t (m\<lparr>nm_cond := (nm_cond m)(w := insert_at k (relaxed_msg b m) (nm_cond m w))\<rparr>))
     else None)"

definition store_exit :: "nat \<Rightarrow> tid \<Rightarrow> notify_memory \<Rightarrow> notify_memory option" where
  "store_exit k t m = (if writable (nm_view m t) (nm_exit m) k
     then Some (wrote t (m\<lparr>nm_exit := insert_at k (relaxed_msg True m) (nm_exit m)\<rparr>)) else None)"

fun notify_code ::
  "nat \<Rightarrow> tid \<Rightarrow> notify_frame \<Rightarrow> notify_memory \<Rightarrow> (notify_frame option \<times> notify_memory) option"
where
  "notify_code k t (Nf_set_cond w) m =
     map_option (\<lambda>m'. (Some (Nf_notify Np_lock), m')) (store_cond True w k t m)"
| "notify_code k t Nf_enque m = (if msg_val (last (nm_size m)) + 1 = 0 then None
     else Some (Some (Nf_notify Np_lock), count_tasks 1 t m))"
| "notify_code k t Nf_signal_exit m =
     map_option (\<lambda>m'. (Some (Nf_notify Np_lock), m')) (store_exit k t m)"
| "notify_code k t Nf_deque m =
     Some (None, if msg_val (last (nm_size m)) = 0 then m else count_tasks (- 1) t m)"
| "notify_code k t (Nf_clear_cond w) m = map_option (\<lambda>m'. (None, m')) (store_cond False w k t m)"
| "notify_code k t (Nf_notify pc) m =
     map_option (\<lambda>(r, m'). (map_option Nf_notify r, m')) (Scheduler_notify t pc m)"
| "notify_code k t (Nf_sleep a pc) m =
     map_option (\<lambda>(r, m'). (map_option (Nf_sleep a) r, m')) (Scheduler_sleep k t a pc m)"

section \<open>Interleaving\<close>

text \<open>
  Thread \<open>s\<close> executes the scheduler. Between calls, and in \<open>signal_idle\<close>, which \<open>sleep\<close> calls before
  the second wait, a thread may learn from another one, by any synchronisation of the user or of
  other parts of the library.
\<close>

record notify_conf =
  nc_mem :: notify_memory
  nc_frame :: "tid \<Rightarrow> notify_frame option"

definition notify_init :: notify_conf where
  "notify_init = \<lparr>nc_mem = notify_start, nc_frame = (\<lambda>t. None)\<rparr>"

fun notify_calls :: "tid \<Rightarrow> tid \<Rightarrow> notify_frame \<Rightarrow> bool" where
  "notify_calls s t (Nf_notify pc) \<longleftrightarrow> pc = Np_lock"
| "notify_calls s t (Nf_sleep a pc) \<longleftrightarrow> t = s \<and> pc = Sp_lock"
| "notify_calls s t (Nf_clear_cond w) \<longleftrightarrow> t = s"
| "notify_calls s t f \<longleftrightarrow> True"

fun may_learn :: "notify_frame option \<Rightarrow> bool" where
  "may_learn None \<longleftrightarrow> True"
| "may_learn (Some (Nf_sleep a pc)) \<longleftrightarrow> pc = Sp_idle"
| "may_learn (Some f) \<longleftrightarrow> False"

datatype notify_action = Na_call tid notify_frame | Na_access tid nat | Na_learn tid tid

fun notify_act :: "tid \<Rightarrow> notify_action \<Rightarrow> notify_conf \<Rightarrow> notify_conf option" where
  "notify_act s (Na_call t f) c = (if nc_frame c t = None \<and> notify_calls s t f
     then Some (c\<lparr>nc_frame := (nc_frame c)(t := Some f)\<rparr>) else None)"
| "notify_act s (Na_access t k) c = (case nc_frame c t of None \<Rightarrow> None
     | Some f \<Rightarrow> map_option (\<lambda>(r, m). \<lparr>nc_mem = m, nc_frame = (nc_frame c)(t := r)\<rparr>)
         (notify_code k t f (nc_mem c)))"
| "notify_act s (Na_learn t u) c = (if may_learn (nc_frame c t)
     then Some (c\<lparr>nc_mem := (nc_mem c)\<lparr>nm_view := (nm_view (nc_mem c))
       (t := nm_view (nc_mem c) t \<union> nm_view (nc_mem c) u)\<rparr>\<rparr>) else None)"

inductive notify_step :: "tid \<Rightarrow> notify_conf \<Rightarrow> notify_conf \<Rightarrow> bool" for s where
  act: "notify_act s a c = Some c' \<Longrightarrow> notify_step s c c'"

fun notify_run :: "tid \<Rightarrow> notify_action list \<Rightarrow> notify_conf \<Rightarrow> notify_conf option" where
  "notify_run s [] c = Some c"
| "notify_run s (a # as) c = (case notify_act s a c of
     None \<Rightarrow> None | Some c' \<Rightarrow> notify_run s as c')"

lemma notify_run_sound: "notify_run s as c = Some c' \<Longrightarrow> (notify_step s)\<^sup>*\<^sup>* c c'"
  by (induction s as c rule: notify_run.induct)
    (auto split: option.splits intro: converse_rtranclp_into_rtranclp notify_step.act)

lemmas notify_code_defs = wrote_def mtx_lock_def mtx_unlock_def cv_block_def relaxed_load_def
  wake_up_def relock_def count_tasks_def store_cond_def store_exit_def

section \<open>The two models of sleep\<close>

text \<open>
  Alone and reading the newest values, the accesses of \<open>sleep\<close> decide what \<open>sleep_enter\<close> of the
  theory Scheduler decides in one step, and leave the same \<open>m_running\<close>.
\<close>

fun newest_place :: "sleep_pc \<Rightarrow> notify_memory \<Rightarrow> nat" where
  "newest_place Sp_exit m = length (nm_exit m) - 1"
| "newest_place Sp_pred_exit m = length (nm_exit m) - 1"
| "newest_place (Sp_conds (w # ws) b) m = length (nm_cond m w) - 1"
| "newest_place pc m = length (nm_size m) - 1"

fun sleep_alone ::
  "nat \<Rightarrow> tid \<Rightarrow> sleep_call \<Rightarrow> sleep_pc \<Rightarrow> notify_memory \<Rightarrow> sleep_pc \<times> notify_memory"
where
  "sleep_alone 0 t a pc m = (pc, m)"
| "sleep_alone (Suc n) t a pc m =
     (if pc = Sp_timed_blocked \<or> pc = Sp_idle_blocked \<or> pc = Sp_unlock then (pc, m)
      else case Scheduler_sleep (newest_place pc m) t a pc m of
        Some (Some pc', m') \<Rightarrow> sleep_alone n t a pc' m' | _ \<Rightarrow> (pc, m))"

definition same_flags :: "'q stl \<Rightarrow> 'q scheduler \<Rightarrow> notify_memory \<Rightarrow> bool" where
  "same_flags L s m \<longleftrightarrow> nm_size m \<noteq> [] \<and> nm_exit m \<noteq> [] \<and> (\<forall>w. nm_cond m w \<noteq> []) \<and>
     (msg_val (last (nm_size m)) \<noteq> 0 \<longleftrightarrow> has_tasks s) \<and> (msg_val (last (nm_exit m)) \<longleftrightarrow> m_exit s) \<and>
     (\<forall>w\<in>set (queue_of L s W_waiting). msg_val (last (nm_cond m w)) \<longleftrightarrow> w_cond (workers s w)) \<and>
     nm_running m = sch_running s"

definition sleep_of :: "'q stl \<Rightarrow> time_point \<Rightarrow> 'q scheduler \<Rightarrow> sleep_call" where
  "sleep_of L now s = \<lparr>sl_waiting = queue_of L s W_waiting, sl_idle = has_idle_workers L s,
     sl_due = (now \<ge> wi_earliest_wait (waiters_info L s) - CFG_idle_sleep_threshold)\<rparr>"

lemma load_newest:
  "ms \<noteq> [] \<Longrightarrow> relaxed_load (length ms - 1) t ms m = Some (msg_val (last ms))"
  "ms \<noteq> [] \<Longrightarrow> relaxed_load (length ms - Suc 0) t ms m = Some (msg_val (last ms))"
  by (simp_all add: relaxed_load_def readable_def last_conv_nth)

lemma alone_conds:
  "(\<And>w. nm_cond m w \<noteq> []) \<Longrightarrow> sleep_alone (length ws + n) t a (Sp_conds ws b) m =
     sleep_alone n t a (Sp_conds [] (b \<or> list_ex (\<lambda>w. msg_val (last (nm_cond m w))) ws)) m"
  by (induction ws arbitrary: b) (simp_all add: load_newest disj_assoc)

lemma alone_decides:
  assumes "\<And>w. nm_cond m w \<noteq> []" "nm_size m \<noteq> []" "nm_exit m \<noteq> []" and "nm_owner m = None"
    and r: "sleep_alone (length (sl_waiting a) + 8) t a Sp_lock m = (pc, m')"
    and tasks: "tasks \<longleftrightarrow> msg_val (last (nm_size m)) \<noteq> 0" and exit: "exit \<longleftrightarrow> msg_val (last (nm_exit m))"
    and cond: "cond \<longleftrightarrow> list_ex (\<lambda>w. msg_val (last (nm_cond m w))) (sl_waiting a)"
  shows "pc = (if tasks \<and> sl_idle a \<or> exit \<and> sl_waiting a = [] \<and> \<not> tasks then Sp_unlock
      else if sl_waiting a \<noteq> [] then if cond \<or> sl_due a then Sp_unlock else Sp_timed_blocked
      else if tasks \<or> exit then Sp_unlock else Sp_idle_blocked) \<and>
    nm_running m' = (nm_running m \<and> (tasks \<and> sl_idle a \<or> exit \<and> sl_waiting a = [] \<and> \<not> tasks \<or>
      sl_waiting a \<noteq> [] \<and> (cond \<or> sl_due a)))"
proof -
  let ?m = "mtx_lock t m"
  have m: "nm_cond ?m = nm_cond m" "nm_size ?m = nm_size m" "nm_exit ?m = nm_exit m"
    "nm_running ?m = nm_running m"
    by (simp_all add: mtx_lock_def)
  show ?thesis
  proof (cases "sl_waiting a")
    case Nil
    then show ?thesis using r assms(1-4)
      by (auto simp: eval_nat_numeral relock_def load_newest m sleep_kind_def tasks exit cond
          mtx_unlock_def cv_block_def split: if_splits)
  next
    case (Cons w ws)
    have n: "length (sl_waiting a) + 8 = Suc (Suc (Suc (length (sl_waiting a) + 5)))" by simp
    show ?thesis using r assms(1-4) alone_conds [of ?m "sl_waiting a" 5 t a False] Cons
      unfolding n
      by (auto simp: eval_nat_numeral relock_def load_newest m sleep_kind_def tasks exit cond
          mtx_unlock_def cv_block_def simp del: add_Suc_right split: if_splits)
  qed
qed

theorem sleep_models_agree:
  assumes laws: "stl_laws L" and "same_flags L s m" and "nm_owner m = None"
    and "\<not> has_pending_io_workers L s" and spin: "should_idle_spin L t1 t2 s = (False, s1)"
    and e: "sleep_enter L t1 t2 t3 s = (r, s')"
    and "sleep_alone (length (queue_of L s W_waiting) + 8) t (sleep_of L t3 s) Sp_lock m = (pc, m')"
  shows "pc = (case r of Sl_return \<Rightarrow> Sp_unlock | Sl_wait_until tp \<Rightarrow> Sp_timed_blocked
      | Sl_idle_sleep \<Rightarrow> if idle_sleep_ready s' then Sp_unlock else Sp_idle_blocked) \<and>
    nm_running m' = sch_running s'"
proof -
  obtain tp where s1: "s1 = s\<lparr>idle_start_time := tp\<rparr>" using should_idle_spin_cases [OF spin] by blast
  have f: "has_tasks s1 = has_tasks s" "has_idle_workers L s1 = has_idle_workers L s"
    "has_waiting_workers L s1 = has_waiting_workers L s" "m_exit s1 = m_exit s"
    "waiters_info L s1 = waiters_info L s" "sch_running s1 = sch_running s"
    by (simp_all add: s1 has_tasks_def has_idle_workers_def has_waiting_workers_def waiters_info_def)
  have w: "has_waiting_workers L s \<longleftrightarrow> queue_of L s W_waiting \<noteq> []"
    by (simp add: stl_laws.has_simps [OF laws])
  have c: "wi_cond (waiters_info L s) \<longleftrightarrow>
      list_ex (\<lambda>w. msg_val (last (nm_cond m w))) (sl_waiting (sleep_of L t3 s))"
    using assms(2) by (auto simp: waiters_info_cond list_ex_iff sleep_of_def same_flags_def)
  note u = e [unfolded sleep_enter_def spin Let_def prod.case f]
  have sf: "nm_size m \<noteq> []" "nm_exit m \<noteq> []" "\<And>w. nm_cond m w \<noteq> []"
    "has_tasks s \<longleftrightarrow> msg_val (last (nm_size m)) \<noteq> 0" "m_exit s \<longleftrightarrow> msg_val (last (nm_exit m))"
    "nm_running m = sch_running s"
    using assms(2) by (simp_all add: same_flags_def)
  have "length (sl_waiting (sleep_of L t3 s)) = length (queue_of L s W_waiting)"
    by (simp add: sleep_of_def)
  note d = alone_decides [OF sf(3,1,2) assms(3) assms(7) [folded this] sf(4,5) c]
  have k: "sl_waiting (sleep_of L t3 s) = [] \<longleftrightarrow> \<not> has_waiting_workers L s"
    "sl_idle (sleep_of L t3 s) = has_idle_workers L s"
    "sl_due (sleep_of L t3 s) \<longleftrightarrow> t3 \<ge> wi_earliest_wait (waiters_info L s) - CFG_idle_sleep_threshold"
    by (simp_all add: sleep_of_def w)
  have i: "idle_sleep_ready s' \<longleftrightarrow> has_tasks s \<or> m_exit s" if "r = Sl_idle_sleep"
    using u assms(4) that by (auto simp: idle_sleep_ready_def f has_tasks_def s1 split: if_splits)
  show ?thesis
  proof (cases "has_waiting_workers L s")
    case True
    then show ?thesis using u d assms(4) by (clarsimp simp: k sf(6) f s1 split: if_splits)
  next
    case False
    then show ?thesis using u d assms(4) i by (clarsimp simp: k sf(6) f s1 split: if_splits)
  qed
qed

section \<open>What a relaxed load misses\<close>

text \<open>
  The event that made a flag what it is: the last write if that is \<open>True\<close>; for the counter of tasks
  the first write of the last run of non-zero values, which is that of an \<open>enque\<close>.
\<close>

definition raised :: "bool message list \<Rightarrow> nat option" where
  "raised ms = (case rev ms of [] \<Rightarrow> None | x # xs \<Rightarrow> if msg_val x then Some (msg_event x) else None)"

fun since_rev :: "u64 message list \<Rightarrow> nat option" where
  "since_rev [] = None"
| "since_rev (x # xs) = (if msg_val x = 0 then None
     else case since_rev xs of None \<Rightarrow> Some (msg_event x) | Some e \<Rightarrow> Some e)"

definition since :: "u64 message list \<Rightarrow> nat option" where
  "since ms = since_rev (rev ms)"

lemma raised_simps [simp]:
  "raised [] = None" "raised (ms @ [x]) = (if msg_val x then Some (msg_event x) else None)"
  by (simp_all add: raised_def)

lemma since_simps [simp]:
  "since [] = None"
  "since (ms @ [x]) = (if msg_val x = 0 then None
     else case since ms of None \<Rightarrow> Some (msg_event x) | Some e \<Rightarrow> Some e)"
  by (simp_all add: since_def)

lemma raised_iff: "ms \<noteq> [] \<Longrightarrow> raised ms \<noteq> None \<longleftrightarrow> msg_val (last ms)"
  by (cases ms rule: rev_cases) auto

lemma since_iff: "ms \<noteq> [] \<Longrightarrow> since ms \<noteq> None \<longleftrightarrow> msg_val (last ms) \<noteq> 0"
  by (cases ms rule: rev_cases) (auto split: option.splits)

lemma raised_insert:
  "k \<le> length ms \<Longrightarrow> raised (insert_at k x ms) =
     (if k < length ms then raised ms else if msg_val x then Some (msg_event x) else None)"
  by (cases ms rule: rev_cases) (auto simp: insert_at_def raised_def rev_drop)

text \<open>A load that knows of the event reads \<open>True\<close>, or a number other than 0.\<close>

lemma readable_snoc: "readable V (ms @ [x]) k \<longleftrightarrow> k = length ms \<or> readable V ms k \<and> msg_event x \<notin> V"
  by (auto simp: readable_def less_Suc_eq)

lemma read_raised: "readable V ms k \<Longrightarrow> raised ms = Some e \<Longrightarrow> e \<in> V \<Longrightarrow> msg_val (ms ! k)"
  by (cases ms rule: rev_cases) (auto simp: readable_snoc nth_append split: if_splits)

lemma read_since: "readable V ms k \<Longrightarrow> since ms = Some e \<Longrightarrow> e \<in> V \<Longrightarrow> msg_val (ms ! k) \<noteq> 0"
proof (induction ms rule: rev_induct)
  case (snoc x ms)
  then show ?case
    by (cases "since ms") (auto simp: readable_snoc nth_append readable_def split: if_splits)
qed (simp add: readable_def)

section \<open>Invariant\<close>

text \<open>Who holds the mutex, and who is on the way to signal.\<close>

fun holds_mtx :: "notify_frame option \<Rightarrow> bool" where
  "holds_mtx (Some (Nf_notify pc)) \<longleftrightarrow> pc = Np_running \<or> pc = Np_unlock"
| "holds_mtx (Some (Nf_sleep a (Sp_timed_relock b))) \<longleftrightarrow> False"
| "holds_mtx (Some (Nf_sleep a pc)) \<longleftrightarrow>
     pc \<noteq> Sp_lock \<and> pc \<noteq> Sp_timed_blocked \<and> pc \<noteq> Sp_idle_blocked \<and> pc \<noteq> Sp_idle_relock"
| "holds_mtx q \<longleftrightarrow> False"

definition notifying_frame :: "notify_frame option \<Rightarrow> bool" where
  "notifying_frame q \<longleftrightarrow> (\<exists>pc. q = Some (Nf_notify pc))"

definition signalling :: "notify_frame option \<Rightarrow> bool" where
  "signalling q \<longleftrightarrow> q = Some (Nf_notify Np_unlock) \<or> q = Some (Nf_notify Np_signal)"

definition frame_ok :: "tid \<Rightarrow> notify_memory \<Rightarrow> tid \<Rightarrow> notify_frame option \<Rightarrow> bool" where
  "frame_ok s m t q \<longleftrightarrow> nm_view m t \<subseteq> {..<nm_clock m} \<and>
     (holds_mtx q \<longrightarrow> nm_mtx_view m \<subseteq> nm_view m t) \<and>
     (q = Some (Nf_notify Np_unlock) \<longrightarrow> nm_running m) \<and>
     (q = Some (Nf_notify Np_signal) \<longrightarrow> nm_view m t \<subseteq> nm_mtx_view m) \<and>
     (\<forall>a pc. q = Some (Nf_sleep a pc) \<longrightarrow> t = s)"

definition mtx_inv :: "tid \<Rightarrow> notify_memory \<Rightarrow> (tid \<Rightarrow> notify_frame option) \<Rightarrow> bool" where
  "mtx_inv s m F \<longleftrightarrow> (\<forall>t. nm_owner m = Some t \<longleftrightarrow> holds_mtx (F t)) \<and>
     nm_mtx_view m \<subseteq> {..<nm_clock m} \<and> nm_size m \<noteq> [] \<and> (\<forall>t. frame_ok s m t (F t))"

text \<open>
  What a write changes, and what it makes of a flag; only a thread that will notify raises one.
\<close>

definition moved :: "bool \<Rightarrow> nat \<Rightarrow> nat option \<Rightarrow> nat option \<Rightarrow> bool" where
  "moved b e x y \<longleftrightarrow> y = x \<or> y = None \<or> b \<and> y = Some e"

definition flags_moved :: "bool \<Rightarrow> notify_memory \<Rightarrow> notify_memory \<Rightarrow> bool" where
  "flags_moved b m m' \<longleftrightarrow> moved b (nm_clock m) (since (nm_size m)) (since (nm_size m')) \<and>
     moved b (nm_clock m) (raised (nm_exit m)) (raised (nm_exit m')) \<and>
     (\<forall>w. moved b (nm_clock m) (raised (nm_cond m w)) (raised (nm_cond m' w)))"

definition writes :: "bool \<Rightarrow> tid \<Rightarrow> notify_memory \<Rightarrow> notify_memory \<Rightarrow> bool" where
  "writes b t m m' \<longleftrightarrow> flags_moved b m m' \<and> nm_size m' \<noteq> [] \<and> nm_owner m' = nm_owner m \<and>
     nm_mtx_view m' = nm_mtx_view m \<and> nm_running m' = nm_running m \<and> nm_blocked m' = nm_blocked m \<and>
     nm_view m' = (nm_view m)(t := insert (nm_clock m) (nm_view m t)) \<and> nm_clock m' = Suc (nm_clock m)"

lemma moved_same [simp]: "moved b e x x"
  by (simp add: moved_def)

lemma moved_insert: "k \<le> length ms \<Longrightarrow> moved b (nm_clock m) (raised ms) (raised (insert_at k (relaxed_msg b m) ms))"
  by (auto simp: moved_def raised_insert relaxed_msg_def)

lemma writes_cond: "store_cond b w k t m = Some m' \<Longrightarrow> nm_size m \<noteq> [] \<Longrightarrow> writes b t m m'"
  by (auto simp: writes_def flags_moved_def store_cond_def wrote_def writable_def moved_insert split: if_splits)

lemma writes_exit: "store_exit k t m = Some m' \<Longrightarrow> nm_size m \<noteq> [] \<Longrightarrow> writes True t m m'"
  using moved_insert [of k "nm_exit m" True m]
  by (auto simp: writes_def flags_moved_def store_exit_def wrote_def writable_def split: if_splits)

lemma moved_count:
  assumes "ms \<noteq> []" and "b \<or> msg_val (last ms) \<noteq> 0"
  shows "moved b (nm_clock m) (since ms) (since (ms @ [relaxed_msg v m]))"
  using assms since_iff [of ms] by (auto simp: moved_def relaxed_msg_def split: option.splits)

lemma writes_count:
  assumes "nm_size m \<noteq> []" and "b \<or> msg_val (last (nm_size m)) \<noteq> 0"
  shows "writes b t m (count_tasks d t m)"
  using moved_count [OF assms] by (simp add: writes_def flags_moved_def count_tasks_def wrote_def)

lemma mtx_inv_upd:
  assumes "mtx_inv s m F" and "\<And>u. nm_owner m' = Some u \<longleftrightarrow> (if u = t then holds_mtx q else nm_owner m = Some u)"
    and "nm_mtx_view m' \<subseteq> {..<nm_clock m'}" and "nm_size m' \<noteq> []" and "frame_ok s m' t q"
    and "\<And>u. u \<noteq> t \<Longrightarrow> frame_ok s m u (F u) \<Longrightarrow> frame_ok s m' u (F u)"
  shows "mtx_inv s m' (F(t := q))"
  using assms by (simp add: mtx_inv_def)

text \<open>The accesses that matter: none, a write, taking and releasing the mutex, a change of \<open>m_running\<close>.\<close>

lemma mtx_inv_frame:
  assumes "mtx_inv s m F" and "holds_mtx q = holds_mtx (F t)" and "frame_ok s m t q"
  shows "mtx_inv s m (F(t := q))"
  using assms by (intro mtx_inv_upd) (auto simp: mtx_inv_def)

lemma mtx_inv_wrote:
  assumes "mtx_inv s m F" and "\<not> holds_mtx q" and "\<not> holds_mtx (F t)"
    and "q = None \<or> q = Some (Nf_notify Np_lock)" and w: "writes b t m m'"
  shows "mtx_inv s m' (F(t := q))"
proof (rule mtx_inv_upd [OF assms(1)])
  have v: "nm_view m t \<subseteq> {..<nm_clock m}" using assms(1) by (simp add: mtx_inv_def frame_ok_def)
  then show "frame_ok s m' t q"
    using assms(2,4) w by (auto simp: frame_ok_def writes_def lessThan_Suc)
  show "nm_mtx_view m' \<subseteq> {..<nm_clock m'}" "nm_size m' \<noteq> []"
    using assms(1) w by (auto simp: mtx_inv_def writes_def lessThan_Suc)
  show "frame_ok s m' u (F u)" if "u \<noteq> t" "frame_ok s m u (F u)" for u
    using that w by (auto simp: frame_ok_def writes_def lessThan_Suc)
  show "nm_owner m' = Some u \<longleftrightarrow> (if u = t then holds_mtx q else nm_owner m = Some u)" for u
    using assms by (auto simp: mtx_inv_def writes_def)
qed

lemma mtx_inv_lock:
  assumes "mtx_inv s m F" and "nm_owner m = None" and "holds_mtx q" and "frame_ok s (mtx_lock t m) t q"
  shows "mtx_inv s (mtx_lock t m) (F(t := q))"
  using assms by (intro mtx_inv_upd) (auto simp: mtx_inv_def mtx_lock_def frame_ok_def)

lemma frame_ok_lock:
  assumes "mtx_inv s m F" and "q = Some (Nf_notify Np_running) \<or> t = s \<and> q = Some (Nf_sleep a pc)"
  shows "frame_ok s (mtx_lock t m) t q"
proof -
  have "frame_ok s m t (F t)" using assms(1) by (simp add: mtx_inv_def)
  then show ?thesis using assms by (auto simp: mtx_inv_def frame_ok_def mtx_lock_def)
qed

lemma frame_ok_unlock:
  assumes "mtx_inv s m F" and "q = None \<or> q = Some (Nf_notify Np_signal) \<or>
    t = s \<and> q = Some (Nf_sleep a pc) \<and> \<not> holds_mtx q"
  shows "frame_ok s (mtx_unlock t m) t q"
proof -
  have "frame_ok s m t (F t)" using assms(1) by (simp add: mtx_inv_def)
  then show ?thesis using assms by (auto simp: frame_ok_def mtx_unlock_def)
qed

lemma mtx_inv_unlock:
  assumes "mtx_inv s m F" and "holds_mtx (F t)" and "\<not> holds_mtx q" and "frame_ok s (mtx_unlock t m) t q"
  shows "mtx_inv s (mtx_unlock t m) (F(t := q))"
proof (rule mtx_inv_upd [OF assms(1)])
  have o: "nm_owner m = Some t" using assms(1,2) by (simp add: mtx_inv_def)
  show "nm_owner (mtx_unlock t m) = Some u \<longleftrightarrow> (if u = t then holds_mtx q else nm_owner m = Some u)" for u
    using o assms(3) by (simp add: mtx_unlock_def)
  have v: "nm_view m t \<subseteq> {..<nm_clock m}" "nm_mtx_view m \<subseteq> nm_view m t"
    using assms(1,2) by (auto simp: mtx_inv_def frame_ok_def)
  then show "nm_mtx_view (mtx_unlock t m) \<subseteq> {..<nm_clock (mtx_unlock t m)}"
    by (simp add: mtx_unlock_def)
  show "frame_ok s (mtx_unlock t m) u (F u)" if "u \<noteq> t" "frame_ok s m u (F u)" for u
  proof -
    have "\<not> holds_mtx (F u)" using o that(1) assms(1) by (auto simp: mtx_inv_def)
    then show ?thesis using that(2) v by (auto simp: mtx_unlock_def frame_ok_def)
  qed
qed (use assms in \<open>auto simp: mtx_inv_def mtx_unlock_def\<close>)

lemma mtx_inv_running:
  assumes "mtx_inv s m F" and "holds_mtx (F t)" and "holds_mtx q" and "frame_ok s (m\<lparr>nm_running := b\<rparr>) t q"
  shows "mtx_inv s (m\<lparr>nm_running := b\<rparr>) (F(t := q))"
proof (rule mtx_inv_upd [OF assms(1)])
  show "frame_ok s (m\<lparr>nm_running := b\<rparr>) u (F u)" if "u \<noteq> t" "frame_ok s m u (F u)" for u
  proof -
    have "\<not> holds_mtx (F u)" using assms(1,2) that(1) unfolding mtx_inv_def by (metis option.inject)
    then show ?thesis using that(2) by (auto simp: frame_ok_def)
  qed
qed (use assms in \<open>auto simp: mtx_inv_def\<close>)

lemma mtx_inv_blocked [simp]: "mtx_inv s (m\<lparr>nm_blocked := b\<rparr>) F = mtx_inv s m F"
  by (simp add: mtx_inv_def frame_ok_def)

lemma mtx_inv_notify:
  assumes inv: "mtx_inv s m F" and f: "F t = Some (Nf_notify pc)" and "Scheduler_notify t pc m = Some (r, m')"
  shows "mtx_inv s m' (F(t := map_option Nf_notify r))"
proof -
  have ok: "frame_ok s m t (Some (Nf_notify pc))" using inv f by (metis mtx_inv_def)
  show ?thesis
  proof (cases pc)
    case Np_lock
    then show ?thesis using assms frame_ok_lock [OF inv]
      by (auto split: if_splits intro!: mtx_inv_lock)
  next
    case Np_running
    then show ?thesis using assms ok by (auto simp: frame_ok_def intro!: mtx_inv_running)
  next
    case Np_unlock
    then show ?thesis using assms frame_ok_unlock [OF inv] by (auto intro!: mtx_inv_unlock)
  next
    case Np_signal
    then show ?thesis using assms ok by (auto simp: frame_ok_def intro!: mtx_inv_frame)
  qed
qed

lemma sleep_kind_holds [simp]: "holds_mtx (Some (Nf_sleep a (sleep_kind a)))"
  by (simp add: sleep_kind_def)

lemma mtx_inv_relock:
  assumes inv: "mtx_inv s m F" and f: "F t = Some (Nf_sleep a pc)" and "relock t pc' m = Some (r, m')"
    and "holds_mtx (Some (Nf_sleep a pc'))"
  shows "mtx_inv s m' (F(t := map_option (Nf_sleep a) r))"
proof -
  have "frame_ok s m t (F t)" using inv by (simp add: mtx_inv_def)
  then have "t = s" using f by (simp add: frame_ok_def)
  then show ?thesis
    using assms frame_ok_lock [OF inv] by (auto simp: relock_def split: if_splits intro!: mtx_inv_lock)
qed

lemma mtx_inv_sleep:
  assumes inv: "mtx_inv s m F" and f: "F t = Some (Nf_sleep a pc)"
    and e: "Scheduler_sleep k t a pc m = Some (r, m')"
  shows "mtx_inv s m' (F(t := map_option (Nf_sleep a) r))"
proof -
  have ok: "frame_ok s m t (Some (Nf_sleep a pc))" using inv f by (metis mtx_inv_def)
  have view: "frame_ok s m t (Some (Nf_sleep a pc'))" if "holds_mtx (Some (Nf_sleep a pc)) \<or>
      \<not> holds_mtx (Some (Nf_sleep a pc'))" for pc'
    using ok that by (auto simp: frame_ok_def)
  have same: "mtx_inv s m (F(t := Some (Nf_sleep a pc')))"
    if "holds_mtx (Some (Nf_sleep a pc')) = holds_mtx (Some (Nf_sleep a pc))" for pc'
    using that f view by (intro mtx_inv_frame [OF inv]) auto
  have unlock: "mtx_inv s (mtx_unlock t m) (F(t := q))"
    if "holds_mtx (Some (Nf_sleep a pc))" "\<not> holds_mtx q" "q = None \<or> (\<exists>pc'. q = Some (Nf_sleep a pc'))" for q
    using that f ok by (intro mtx_inv_unlock [OF inv]) (auto simp: frame_ok_def mtx_unlock_def)
  have running: "mtx_inv s (m\<lparr>nm_running := b\<rparr>) (F(t := Some (Nf_sleep a pc')))"
    if "holds_mtx (Some (Nf_sleep a pc))" "holds_mtx (Some (Nf_sleep a pc'))" for pc' b
    using that f ok by (intro mtx_inv_running [OF inv]) (auto simp: frame_ok_def)
  show ?thesis using e mtx_inv_relock [OF inv f] same unlock running
    by (cases "(k, t, a, pc, m)" rule: Scheduler_sleep.cases)
      (auto simp: relaxed_load_def wake_up_def cv_block_def split: if_splits)
qed

lemma mtx_inv_code:
  assumes inv: "mtx_inv s m F" and f: "F t = Some f" and "notify_code k t f m = Some (r, m')"
  shows "mtx_inv s m' (F(t := r))"
proof -
  have ok: "frame_ok s m t (Some f)" and "nm_size m \<noteq> []" using inv f by (auto simp: mtx_inv_def dest: spec [of _ t])
  note w = mtx_inv_wrote [OF inv, of r t _ m']
  show ?thesis
  proof (cases f)
    case (Nf_notify pc)
    then show ?thesis using assms mtx_inv_notify [OF inv] by (auto split: prod.splits)
  next
    case (Nf_sleep a pc)
    then show ?thesis using assms mtx_inv_sleep [OF inv] by (auto split: prod.splits)
  next
    case (Nf_set_cond w)
    then show ?thesis using assms \<open>nm_size m \<noteq> []\<close> w by (auto dest: writes_cond)
  next
    case Nf_enque
    then show ?thesis using assms \<open>nm_size m \<noteq> []\<close> w writes_count [of m True t 1] by (auto split: if_splits)
  next
    case Nf_signal_exit
    then show ?thesis using assms \<open>nm_size m \<noteq> []\<close> w by (auto dest: writes_exit)
  next
    case Nf_deque
    then show ?thesis
      using assms \<open>nm_size m \<noteq> []\<close> w writes_count [of m False t "- 1"] ok mtx_inv_frame [OF inv, of None t]
      by (auto simp: frame_ok_def split: if_splits)
  next
    case (Nf_clear_cond w)
    then show ?thesis using assms \<open>nm_size m \<noteq> []\<close> w by (auto dest: writes_cond)
  qed
qed

text \<open>Whatever is raised is known to whoever takes the mutex next, or its writer is still notifying.\<close>

definition pending :: "notify_memory \<Rightarrow> (tid \<Rightarrow> notify_frame option) \<Rightarrow> nat option \<Rightarrow> bool" where
  "pending m F x \<longleftrightarrow> (\<forall>e. x = Some e \<longrightarrow>
     e \<in> nm_mtx_view m \<or> (\<exists>t. notifying_frame (F t) \<and> e \<in> nm_view m t))"

definition flags_pending :: "notify_memory \<Rightarrow> (tid \<Rightarrow> notify_frame option) \<Rightarrow> bool" where
  "flags_pending m F \<longleftrightarrow> pending m F (since (nm_size m)) \<and> pending m F (raised (nm_exit m)) \<and>
     (\<forall>w. pending m F (raised (nm_cond m w)))"

definition flags_same :: "notify_memory \<Rightarrow> notify_memory \<Rightarrow> bool" where
  "flags_same m m' \<longleftrightarrow> nm_size m' = nm_size m \<and> nm_exit m' = nm_exit m \<and> nm_cond m' = nm_cond m"

text \<open>What a thread knows does not get lost.\<close>

definition keeps_known :: "tid \<Rightarrow> notify_memory \<Rightarrow> notify_memory \<Rightarrow> bool" where
  "keeps_known t m m' \<longleftrightarrow> nm_mtx_view m \<subseteq> nm_mtx_view m' \<and> nm_view m t \<subseteq> nm_view m' t \<and>
     (\<forall>u. u \<noteq> t \<longrightarrow> nm_view m' u = nm_view m u)"

lemma pending_keeps:
  assumes "pending m F x" and k: "keeps_known t m m'"
    and q: "notifying_frame (F t) \<Longrightarrow> notifying_frame q \<or> nm_view m t \<subseteq> nm_mtx_view m"
  shows "pending m' (F(t := q)) x"
  unfolding pending_def
proof (intro allI impI)
  fix e assume "x = Some e"
  with assms(1) consider "e \<in> nm_mtx_view m" | u where "notifying_frame (F u)" "e \<in> nm_view m u"
    by (auto simp: pending_def)
  then show "e \<in> nm_mtx_view m' \<or> (\<exists>u. notifying_frame ((F(t := q)) u) \<and> e \<in> nm_view m' u)"
  proof cases
    case 1
    then show ?thesis using k by (auto simp: keeps_known_def)
  next
    case (2 u)
    show ?thesis
    proof (cases "u = t")
      case True
      then show ?thesis using 2 q k by (auto simp: keeps_known_def)
    next
      case False
      then show ?thesis using 2 k by (intro disjI2 exI [of _ u]) (auto simp: keeps_known_def)
    qed
  qed
qed

lemma flags_pending_keeps:
  assumes "flags_pending m F" and "keeps_known t m m'" and "flags_same m m'"
    and "notifying_frame (F t) \<Longrightarrow> notifying_frame q \<or> nm_view m t \<subseteq> nm_mtx_view m"
  shows "flags_pending m' (F(t := q))"
  using assms pending_keeps [OF _ assms(2,4)] by (simp add: flags_pending_def flags_same_def)

lemma flags_pending_writes:
  assumes "flags_pending m F" and w: "writes b t m m'" and "\<not> notifying_frame (F t)"
    and "b \<Longrightarrow> q = Some (Nf_notify Np_lock)"
  shows "flags_pending m' (F(t := q))"
proof -
  have k: "keeps_known t m m'" using w by (auto simp: keeps_known_def writes_def)
  have "pending m' (F(t := q)) y" if "pending m F x" "moved b (nm_clock m) x y" for x y
  proof -
    have "pending m' (F(t := q)) (Some (nm_clock m))" if b
      using assms(4) [OF that] w
      by (auto simp: pending_def notifying_frame_def writes_def intro!: exI [of _ t])
    moreover have "pending m' (F(t := q)) x"
      using that(1) k assms(3) by (intro pending_keeps [of m F x]) auto
    moreover have "pending m' (F(t := q)) None" by (simp add: pending_def)
    ultimately show ?thesis using that(2) by (auto simp: moved_def)
  qed
  then show ?thesis
    using assms(1) w unfolding flags_pending_def writes_def flags_moved_def by blast
qed

lemma Scheduler_notify_keeps:
  assumes "mtx_inv s m F" and "F t = Some (Nf_notify pc)" and "Scheduler_notify t pc m = Some (r, m')"
  shows "keeps_known t m m' \<and> flags_same m m'"
proof -
  have "frame_ok s m t (Some (Nf_notify pc))" using assms(1,2) by (metis mtx_inv_def)
  then show ?thesis using assms(3)
    by (cases pc) (auto simp: frame_ok_def keeps_known_def flags_same_def notify_code_defs split: if_splits)
qed

lemma Scheduler_sleep_keeps:
  assumes "mtx_inv s m F" and "F t = Some (Nf_sleep a pc)" and "Scheduler_sleep k t a pc m = Some (r, m')"
  shows "keeps_known t m m' \<and> flags_same m m'"
proof -
  have "frame_ok s m t (Some (Nf_sleep a pc))" using assms(1,2) by (metis mtx_inv_def)
  then show ?thesis using assms(3)
    by (cases "(k, t, a, pc, m)" rule: Scheduler_sleep.cases)
      (auto simp: frame_ok_def keeps_known_def flags_same_def notify_code_defs split: if_splits)
qed

lemma flags_pending_code:
  assumes inv: "mtx_inv s m F" and p: "flags_pending m F" and f: "F t = Some f"
    and e: "notify_code k t f m = Some (r, m')"
  shows "flags_pending m' (F(t := r))"
proof -
  have ok: "frame_ok s m t (Some f)" and ne: "nm_size m \<noteq> []"
    using inv f by (auto simp: mtx_inv_def dest: spec [of _ t])
  note w = flags_pending_writes [OF p, of _ t m' r]
  show ?thesis
  proof (cases f)
    case (Nf_notify pc)
    then obtain r' where "Scheduler_notify t pc m = Some (r', m')" "r = map_option Nf_notify r'"
      using e by auto
    moreover have "notifying_frame r \<or> nm_view m t \<subseteq> nm_mtx_view m"
      using ok Nf_notify calculation by (cases pc) (auto simp: notifying_frame_def frame_ok_def split: if_splits)
    ultimately show ?thesis
      using flags_pending_keeps [OF p] Scheduler_notify_keeps [OF inv] f Nf_notify by blast
  next
    case (Nf_sleep a pc)
    then obtain r' where "Scheduler_sleep k t a pc m = Some (r', m')" using e by auto
    moreover have "\<not> notifying_frame (F t)" using f Nf_sleep by (simp add: notifying_frame_def)
    ultimately show ?thesis
      using flags_pending_keeps [OF p] Scheduler_sleep_keeps [OF inv] f Nf_sleep by blast
  next
    case (Nf_set_cond w')
    then show ?thesis using e f w ne by (auto simp: notifying_frame_def dest: writes_cond)
  next
    case Nf_enque
    then show ?thesis using e f w ne writes_count [of m True t 1]
      by (auto simp: notifying_frame_def split: if_splits)
  next
    case Nf_signal_exit
    then show ?thesis using e f w ne by (auto simp: notifying_frame_def dest: writes_exit)
  next
    case Nf_deque
    then show ?thesis
      using e f w ne writes_count [of m False t "- 1"] flags_pending_keeps [OF p, of t m None]
      by (auto simp: notifying_frame_def keeps_known_def flags_same_def split: if_splits)
  next
    case (Nf_clear_cond w')
    then show ?thesis using e f w ne by (auto simp: notifying_frame_def dest: writes_cond)
  qed
qed

section \<open>The scheduler in \<open>sleep\<close>\<close>

text \<open>Nothing is raised that is known with \<open>V\<close>: the loads of a thread with this view may have missed it.\<close>

definition unseen :: "nat set \<Rightarrow> nat option \<Rightarrow> bool" where
  "unseen V x \<longleftrightarrow> (\<forall>e. x = Some e \<longrightarrow> e \<notin> V)"

definition timed_unseen :: "sleep_call \<Rightarrow> notify_memory \<Rightarrow> nat set \<Rightarrow> bool" where
  "timed_unseen a m V \<longleftrightarrow> (sl_idle a \<longrightarrow> unseen V (since (nm_size m))) \<and>
     (\<forall>w\<in>set (sl_waiting a). unseen V (raised (nm_cond m w)))"

definition idle_unseen :: "notify_memory \<Rightarrow> nat set \<Rightarrow> bool" where
  "idle_unseen m V \<longleftrightarrow> unseen V (since (nm_size m)) \<and> unseen V (raised (nm_exit m))"

text \<open>
  What holds at each point of \<open>sleep\<close>; \<open>sig\<close>: a thread is about to signal. A thread that is blocked
  or about to lock again knows no more than the last owner of the mutex.
\<close>

fun sleep_ok :: "sleep_call \<Rightarrow> bool \<Rightarrow> notify_memory \<Rightarrow> nat set \<Rightarrow> sleep_pc \<Rightarrow> bool" where
  "sleep_ok a sig m V Sp_exit \<longleftrightarrow> (sl_idle a \<longrightarrow> unseen V (since (nm_size m)))"
| "sleep_ok a sig m V Sp_exit_tasks \<longleftrightarrow> (sl_idle a \<longrightarrow> unseen V (since (nm_size m)))"
| "sleep_ok a sig m V (Sp_conds ws b) \<longleftrightarrow> (sl_idle a \<longrightarrow> unseen V (since (nm_size m))) \<and>
     (\<not> b \<longrightarrow> (\<forall>w\<in>set (sl_waiting a). w \<in> set ws \<or> unseen V (raised (nm_cond m w))))"
| "sleep_ok a sig m V Sp_timed \<longleftrightarrow> timed_unseen a m V"
| "sleep_ok a sig m V Sp_timed_pred \<longleftrightarrow> nm_running m \<or> timed_unseen a m V"
| "sleep_ok a sig m V Sp_timed_blocked \<longleftrightarrow> V \<subseteq> nm_mtx_view m \<and>
     (nm_running m \<or> timed_unseen a m (nm_mtx_view m)) \<and>
     (nm_blocked m \<longrightarrow> sig \<or> timed_unseen a m (nm_mtx_view m))"
| "sleep_ok a sig m V (Sp_timed_relock b) \<longleftrightarrow> V \<subseteq> nm_mtx_view m \<and>
     (nm_running m \<or> timed_unseen a m (nm_mtx_view m))"
| "sleep_ok a sig m V Sp_pred_exit \<longleftrightarrow> unseen V (since (nm_size m))"
| "sleep_ok a sig m V Sp_idle_blocked \<longleftrightarrow> (nm_blocked m \<longrightarrow> sig \<or> idle_unseen m (nm_mtx_view m))"
| "sleep_ok a sig m V pc \<longleftrightarrow> True"

lemma unseen_moved: "unseen V x \<Longrightarrow> moved b e x y \<Longrightarrow> V \<subseteq> {..<e} \<Longrightarrow> unseen V y"
  by (auto simp: unseen_def moved_def)

lemma timed_unseen_moved:
  "timed_unseen a m V \<Longrightarrow> flags_moved b m m' \<Longrightarrow> V \<subseteq> {..<nm_clock m} \<Longrightarrow> timed_unseen a m' V"
  by (auto simp: timed_unseen_def flags_moved_def intro: unseen_moved)

lemma idle_unseen_moved:
  "idle_unseen m V \<Longrightarrow> flags_moved b m m' \<Longrightarrow> V \<subseteq> {..<nm_clock m} \<Longrightarrow> idle_unseen m' V"
  by (auto simp: idle_unseen_def flags_moved_def intro: unseen_moved)

text \<open>The writes of other threads.\<close>

lemma sleep_ok_writes:
  assumes "sleep_ok a sig m V pc" and w: "writes b t m m'" and v: "V \<subseteq> {..<nm_clock m}"
    and mv: "nm_mtx_view m \<subseteq> {..<nm_clock m}"
  shows "sleep_ok a sig m' V pc"
proof -
  have fm: "flags_moved b m m'" using w by (simp add: writes_def)
  note u = unseen_moved [OF _ _ v] timed_unseen_moved [OF _ fm v] timed_unseen_moved [OF _ fm mv]
    idle_unseen_moved [OF _ fm mv]
  have "unseen V (since (nm_size m')) " if "unseen V (since (nm_size m))"
    using u(1) [OF that] fm by (auto simp: flags_moved_def)
  moreover have "unseen V (raised (nm_cond m' w))" if "unseen V (raised (nm_cond m w))" for w
    using u(1) [OF that] fm by (auto simp: flags_moved_def)
  ultimately show ?thesis using assms(1) u(2-4) w
    by (cases "(a, sig, m, V, pc)" rule: sleep_ok.cases) (auto simp: writes_def)
qed

text \<open>The accesses of other threads in \<open>notify\<close>.\<close>

lemma unseen_same [simp]: "unseen V None"
  by (simp add: unseen_def)

lemma sleep_ok_mono:
  assumes "sleep_ok a sig m V pc" and same: "flags_same m m'" and "nm_mtx_view m \<subseteq> nm_mtx_view m'"
    and "nm_running m \<Longrightarrow> nm_running m'" and "nm_mtx_view m' = nm_mtx_view m \<or> nm_running m'"
    and "nm_blocked m' \<Longrightarrow> nm_blocked m \<and> (sig' \<or> nm_mtx_view m' = nm_mtx_view m \<and> \<not> sig)"
  shows "sleep_ok a sig' m' V pc"
proof -
  have u: "timed_unseen a m' W = timed_unseen a m W" "idle_unseen m' W = idle_unseen m W" for W
    using same by (simp_all add: timed_unseen_def idle_unseen_def flags_same_def)
  show ?thesis using assms(1,3-) same
    by (cases "(a, sig, m, V, pc)" rule: sleep_ok.cases) (auto simp: u flags_same_def)
qed

lemma sleep_ok_notify:
  assumes ok: "sleep_ok a sig m V pc" and e: "Scheduler_notify t np m = Some (r, m')"
    and "np = Np_unlock \<Longrightarrow> nm_running m \<and> nm_mtx_view m \<subseteq> nm_view m t"
    and "sig \<Longrightarrow> np \<noteq> Np_signal \<Longrightarrow> sig'" and "np = Np_running \<or> np = Np_unlock \<Longrightarrow> sig'"
  shows "sleep_ok a sig' m' V pc"
  using e assms(3-) by (intro sleep_ok_mono [OF ok])
    (cases np; auto simp: flags_same_def mtx_lock_def mtx_unlock_def split: if_splits)+

text \<open>Its own accesses: what a load does not show is unseen.\<close>

lemma load_zero: "relaxed_load k t ms m = Some 0 \<Longrightarrow> unseen (nm_view m t) (since ms)"
  by (auto simp: relaxed_load_def unseen_def dest: read_since split: if_splits)

lemma load_False: "relaxed_load k t ms m = Some False \<Longrightarrow> unseen (nm_view m t) (raised ms)"
  by (auto simp: relaxed_load_def unseen_def dest: read_raised split: if_splits)

lemma unblocked_flags:
  "timed_unseen a (m\<lparr>nm_owner := w, nm_mtx_view := V, nm_view := vs\<rparr>) W = timed_unseen a m W"
  "timed_unseen a (m\<lparr>nm_running := b\<rparr>) W = timed_unseen a m W"
  "timed_unseen a (m\<lparr>nm_blocked := b\<rparr>) W = timed_unseen a m W"
  "idle_unseen (m\<lparr>nm_blocked := b\<rparr>) W = idle_unseen m W"
  "timed_unseen a (mtx_lock t m) W = timed_unseen a m W"
  "timed_unseen a (mtx_unlock t m) W = timed_unseen a m W"
  "idle_unseen (mtx_unlock t m) W = idle_unseen m W"
  by (simp_all add: timed_unseen_def idle_unseen_def mtx_lock_def mtx_unlock_def)

lemma unlock_views [simp]: "nm_mtx_view (mtx_unlock t m) = nm_view m t" "nm_view (mtx_unlock t m) = nm_view m"
  by (simp_all add: mtx_unlock_def)

lemma sleep_kind_ok:
  "(sl_idle a \<Longrightarrow> unseen V (since (nm_size m))) \<Longrightarrow> sleep_ok a sig m V (sleep_kind a)"
  by (simp add: sleep_kind_def)

lemma conds_ok:
  "sleep_ok a sig m (nm_view m t) (Sp_conds (w # ws) b) \<Longrightarrow> relaxed_load k t (nm_cond m w) m = Some v \<Longrightarrow>
    sleep_ok a sig m (nm_view m t) (Sp_conds ws (b \<or> v))"
  by (cases v) (auto dest!: load_False)

lemma sleep_ok_sleep:
  assumes "sleep_ok a sig m (nm_view m t) pc" and "Scheduler_sleep k t a pc m = Some (Some pc', m')"
  shows "sleep_ok a sig m' (nm_view m' t) pc'"
proof (cases pc)
  case Sp_exit
  then show ?thesis using assms sleep_kind_ok [of a] by auto
next
  case Sp_exit_tasks
  then show ?thesis using assms sleep_kind_ok [of a] by auto
next
  case (Sp_conds ws b)
  show ?thesis
  proof (cases ws)
    case Nil
    then show ?thesis using assms Sp_conds by (auto simp: timed_unseen_def)
  next
    case (Cons w ws')
    then show ?thesis using assms Sp_conds conds_ok [of a sig m t w ws' b k]
      by (auto simp del: sleep_ok.simps(3))
  qed
next
  case (Sp_timed_relock timeout)
  then show ?thesis using assms
    by (auto simp: relock_def unblocked_flags split: if_splits) (auto simp: mtx_lock_def Un_absorb1)
next
  case Sp_pred_exit
  then show ?thesis using assms load_False [of k t "nm_exit m" m]
    by (auto simp: cv_block_def unblocked_flags split: if_splits) (auto simp: idle_unseen_def mtx_unlock_def)
qed (use assms in \<open>auto simp: relock_def wake_up_def cv_block_def unblocked_flags dest: load_zero split: if_splits\<close>)

section \<open>The whole system\<close>

definition notify_inv :: "tid \<Rightarrow> notify_conf \<Rightarrow> bool" where
  "notify_inv s c \<longleftrightarrow> mtx_inv s (nc_mem c) (nc_frame c) \<and> flags_pending (nc_mem c) (nc_frame c) \<and>
     (\<forall>a pc. nc_frame c s = Some (Nf_sleep a pc) \<longrightarrow>
       sleep_ok a (\<exists>t. signalling (nc_frame c t)) (nc_mem c) (nm_view (nc_mem c) s) pc)"

lemma notify_inv_init: "notify_inv s notify_init"
  by (auto simp: notify_inv_def notify_init_def notify_start_def mtx_inv_def frame_ok_def
      flags_pending_def pending_def raised_def since_def)

lemma notify_inv_call:
  assumes inv: "notify_inv s c" and "nc_frame c t = None" and "notify_calls s t f"
  shows "notify_inv s (c\<lparr>nc_frame := (nc_frame c)(t := Some f)\<rparr>)"
proof -
  let ?F = "(nc_frame c)(t := Some f)"
  have m: "mtx_inv s (nc_mem c) (nc_frame c)" and p: "flags_pending (nc_mem c) (nc_frame c)"
    using inv by (simp_all add: notify_inv_def)
  then have "frame_ok s (nc_mem c) t None" using assms(2) by (metis mtx_inv_def)
  then have "frame_ok s (nc_mem c) t (Some f) \<and> \<not> holds_mtx (Some f)"
    using assms(3) by (cases f) (auto simp: frame_ok_def)
  then have "mtx_inv s (nc_mem c) ?F" using assms(2) by (intro mtx_inv_frame [OF m]) auto
  moreover have "flags_pending (nc_mem c) ?F"
    using assms(2) by (intro flags_pending_keeps [OF p])
      (auto simp: keeps_known_def flags_same_def notifying_frame_def)
  moreover have "signalling (?F u) = signalling (nc_frame c u)" for u
    using assms(2,3) by (cases f) (auto simp: signalling_def)
  moreover have "sleep_ok a b m V pc" if "t = s" "f = Nf_sleep a pc" for a b m V pc
    using assms(3) that by simp
  ultimately show ?thesis
    using inv assms(2) by (auto simp: notify_inv_def simp del: fun_upd_apply) (auto split: if_splits)
qed

lemma notify_inv_learn:
  assumes inv: "notify_inv s c" and "may_learn (nc_frame c t)"
  shows "notify_inv s (c\<lparr>nc_mem := (nc_mem c)\<lparr>nm_view := (nm_view (nc_mem c))
       (t := nm_view (nc_mem c) t \<union> nm_view (nc_mem c) u)\<rparr>\<rparr>)" (is "notify_inv s (c\<lparr>nc_mem := ?m\<rparr>)")
proof -
  let ?F = "nc_frame c"
  have m: "mtx_inv s (nc_mem c) ?F" and p: "flags_pending (nc_mem c) ?F"
    using inv by (simp_all add: notify_inv_def)
  have f: "?F t = None \<or> (\<exists>a. ?F t = Some (Nf_sleep a Sp_idle))"
    using assms(2) by (cases "?F t" rule: may_learn.cases) auto
  have ok: "frame_ok s (nc_mem c) t (?F t)" "frame_ok s (nc_mem c) u (?F u)"
    using m by (simp_all add: mtx_inv_def)
  have "mtx_inv s ?m (?F(t := ?F t))"
    using m f ok by (intro mtx_inv_upd [OF m]) (auto simp: mtx_inv_def frame_ok_def)
  moreover have "flags_pending ?m (?F(t := ?F t))"
    by (intro flags_pending_keeps [OF p]) (auto simp: keeps_known_def flags_same_def)
  moreover have "sleep_ok a sig ?m (nm_view ?m s) pc"
    if "?F s = Some (Nf_sleep a pc)" "sleep_ok a sig (nc_mem c) (nm_view (nc_mem c) s) pc" for a sig pc
  proof (cases "t = s")
    case True
    then show ?thesis using f that by auto
  next
    case False
    then show ?thesis using sleep_ok_mono [OF that(2), of ?m sig] by (auto simp: flags_same_def)
  qed
  ultimately show ?thesis using inv by (simp add: notify_inv_def)
qed

lemma sleep_ok_other:
  assumes inv: "notify_inv s c" and f: "nc_frame c t = Some f" and "t \<noteq> s"
    and e: "notify_code k t f (nc_mem c) = Some (r, m')" and "nc_frame c s = Some (Nf_sleep a pc)"
  shows "sleep_ok a (\<exists>u. signalling (((nc_frame c)(t := r)) u)) m' (nm_view m' s) pc"
proof -
  let ?m = "nc_mem c" and ?F = "nc_frame c"
  let ?sig = "\<exists>u. signalling (?F u)" and ?sig' = "\<exists>u. signalling ((?F(t := r)) u)"
  have m: "mtx_inv s ?m ?F" and ok: "sleep_ok a ?sig ?m (nm_view ?m s) pc"
    using inv assms(5) by (simp_all add: notify_inv_def)
  have v: "nm_view ?m s \<subseteq> {..<nm_clock ?m}" "nm_mtx_view ?m \<subseteq> {..<nm_clock ?m}"
    and t: "frame_ok s ?m t (Some f)" and ne: "nm_size ?m \<noteq> []"
    using m f by (auto simp: mtx_inv_def frame_ok_def dest: spec [of _ t] spec [of _ s])
  have others: "?sig = ?sig'" if "\<not> signalling (Some f)" "\<not> signalling r"
    using that f by (metis fun_upd_apply)
  have quiet: "\<not> signalling (Some (Nf_notify Np_lock))" "\<not> signalling None"
    by (simp_all add: signalling_def)
  have w: ?thesis if "writes b t ?m m'" "\<not> signalling (Some f)" "r = None \<or> r = Some (Nf_notify Np_lock)" for b
  proof -
    have "?sig = ?sig'" by (rule others [OF that(2)]) (use that(3) quiet in auto)
    moreover have "nm_view m' s = nm_view ?m s" using that(1) assms(3) by (simp add: writes_def)
    ultimately show ?thesis using sleep_ok_writes [OF ok that(1) v] by (simp del: fun_upd_apply)
  qed
  show ?thesis
  proof (cases f)
    case (Nf_notify np)
    then obtain r' where r: "Scheduler_notify t np ?m = Some (r', m')" "r = map_option Nf_notify r'"
      using e by auto
    have "nm_view m' s = nm_view ?m s" 
      using r(1) assms(3) by (cases np) (auto simp: mtx_lock_def mtx_unlock_def split: if_splits)
    moreover have "?sig'" if ?sig "np \<noteq> Np_signal"
    proof -
      have "signalling r" if "signalling (Some f)"
        using that r Nf_notify \<open>np \<noteq> Np_signal\<close> by (auto simp: signalling_def)
      then show ?thesis using that(1) f by (metis fun_upd_apply)
    qed
    moreover have "?sig'" if "np = Np_running \<or> np = Np_unlock"
      using that r by (intro exI [of _ t]) (auto simp: signalling_def)
    ultimately show ?thesis
      using sleep_ok_notify [OF ok r(1), of ?sig'] t Nf_notify by (auto simp: frame_ok_def)
  next
    case (Nf_sleep a' pc')
    then show ?thesis using t assms(3) by (simp add: frame_ok_def)
  next
    case (Nf_set_cond x)
    then show ?thesis using e ne
      by (intro w [of True]) (auto simp: signalling_def dest: writes_cond)
  next
    case Nf_enque
    then show ?thesis using e ne
      by (intro w [of True]) (auto simp: signalling_def writes_count split: if_splits)
  next
    case Nf_signal_exit
    then show ?thesis using e ne
      by (intro w [of True]) (auto simp: signalling_def dest: writes_exit)
  next
    case Nf_deque
    show ?thesis
    proof (cases "msg_val (last (nm_size ?m)) = 0")
      case True
      then have "m' = ?m" "r = None" using e Nf_deque by auto
      then show ?thesis using ok others Nf_deque quiet by (simp add: signalling_def)
    next
      case False
      then show ?thesis using e Nf_deque ne
        by (intro w [of False]) (auto simp: signalling_def writes_count)
    qed
  next
    case (Nf_clear_cond x)
    then show ?thesis using e ne
      by (intro w [of False]) (auto simp: signalling_def dest: writes_cond)
  qed
qed

lemma notify_inv_access:
  assumes inv: "notify_inv s c" and f: "nc_frame c t = Some f"
    and e: "notify_code k t f (nc_mem c) = Some (r, m')"
  shows "notify_inv s \<lparr>nc_mem = m', nc_frame = (nc_frame c)(t := r)\<rparr>"
proof -
  let ?F = "(nc_frame c)(t := r)"
  have m: "mtx_inv s (nc_mem c) (nc_frame c)" and p: "flags_pending (nc_mem c) (nc_frame c)"
    using inv by (simp_all add: notify_inv_def)
  have "sleep_ok a (\<exists>u. signalling (?F u)) m' (nm_view m' s) pc" if q: "?F s = Some (Nf_sleep a pc)" for a pc
  proof (cases "t = s")
    case False
    then show ?thesis using sleep_ok_other [OF inv f False e] q by simp
  next
    case True
    then obtain pc' where f': "f = Nf_sleep a pc'" and
      e': "Scheduler_sleep k s a pc' (nc_mem c) = Some (Some pc, m')"
      using e q by (cases f) (auto split: if_splits)
    have "sleep_ok a (\<exists>u. signalling (nc_frame c u)) m' (nm_view m' s) pc"
      using inv f True f' by (intro sleep_ok_sleep [OF _ e']) (simp add: notify_inv_def)
    moreover have "signalling (?F u) = signalling (nc_frame c u)" for u
      using f f' q True by (auto simp: signalling_def)
    ultimately show ?thesis by (simp del: fun_upd_apply)
  qed
  then show ?thesis
    using mtx_inv_code [OF m f e] flags_pending_code [OF m p f e] by (simp add: notify_inv_def)
qed

lemma notify_inv_step: "notify_inv s c \<Longrightarrow> notify_step s c c' \<Longrightarrow> notify_inv s c'"
proof (erule notify_step.cases)
  fix a c1 c2 assume inv: "notify_inv s c" and "c = c1" "c' = c2" "notify_act s a c1 = Some c2"
  then have e: "notify_act s a c = Some c'" by simp
  show "notify_inv s c'"
  proof (cases a)
    case (Na_call t f)
    then show ?thesis using e notify_inv_call [OF inv] by (auto split: if_splits)
  next
    case (Na_access t k)
    then show ?thesis using e notify_inv_access [OF inv] by (auto split: option.splits)
  next
    case (Na_learn t u)
    then show ?thesis using e notify_inv_learn [OF inv] by (auto split: if_splits)
  qed
qed

interpretation wn: transition_system "notify_step s" "notify_inv s" for s
  by unfold_locales (rule notify_inv_step)

section \<open>No notification is lost\<close>

text \<open>What should keep a scheduler from staying blocked: the newest values of what it looks at.\<close>

fun should_wake :: "notify_memory \<Rightarrow> notify_frame option \<Rightarrow> bool" where
  "should_wake m (Some (Nf_sleep a Sp_timed_blocked)) \<longleftrightarrow>
     list_ex (\<lambda>w. raised (nm_cond m w) \<noteq> None) (sl_waiting a) \<or>
     sl_idle a \<and> msg_val (last (nm_size m)) \<noteq> 0"
| "should_wake m (Some (Nf_sleep a Sp_idle_blocked)) \<longleftrightarrow>
     raised (nm_exit m) \<noteq> None \<or> msg_val (last (nm_size m)) \<noteq> 0"
| "should_wake m q \<longleftrightarrow> False"

definition accesses_running :: "notify_frame option \<Rightarrow> bool" where
  "accesses_running q \<longleftrightarrow> q = Some (Nf_notify Np_running) \<or>
     (\<exists>a pc. q = Some (Nf_sleep a pc) \<and> pc \<in> {Sp_timed, Sp_timed_pred, Sp_timed_done, Sp_idle})"

lemma unseen_pending:
  assumes "pending m F x" and "unseen (nm_mtx_view m) x" and "x \<noteq> None"
  shows "\<exists>t. notifying_frame (F t)"
  using assms by (auto simp: pending_def unseen_def)

lemma should_wake_notified:
  assumes inv: "notify_inv s c" and b: "nm_blocked (nc_mem c)"
    and w: "should_wake (nc_mem c) (nc_frame c s)"
  shows "\<exists>t. notifying_frame (nc_frame c t)"
proof (cases "\<exists>t. signalling (nc_frame c t)")
  case True
  then show ?thesis by (auto simp: signalling_def notifying_frame_def)
next
  case False
  let ?m = "nc_mem c"
  have m: "mtx_inv s ?m (nc_frame c)" and p: "flags_pending ?m (nc_frame c)"
    using inv by (simp_all add: notify_inv_def)
  have n: "since (nm_size ?m) \<noteq> None \<longleftrightarrow> msg_val (last (nm_size ?m)) \<noteq> 0"
    using m since_iff by (auto simp: mtx_inv_def)
  have "\<exists>x. pending ?m (nc_frame c) x \<and> unseen (nm_mtx_view ?m) x \<and> x \<noteq> None"
    using w inv False b p n
    by (cases "(?m, nc_frame c s)" rule: should_wake.cases)
      (auto simp: notify_inv_def timed_unseen_def idle_unseen_def flags_pending_def list_ex_iff
        simp del: not_None_eq)
  then show ?thesis using unseen_pending by blast
qed

text \<open>
  C26: The relaxed flags cannot make a scheduler miss a notification. Although \<open>m_cond\<close>, \<open>m_exit\<close> and
  \<open>m_size\<close> are accessed relaxed, so that \<open>sleep\<close> may read old values, whenever the scheduler is
  blocked in one of its two waits and the newest values say that it should run, some thread is still
  in \<open>notify\<close>, before its \<open>notify_one\<close>; \<open>m_mtx\<close> is then free or held by a thread in \<open>notify\<close>. And
  \<open>m_running\<close>, an ordinary variable, is only accessed by the owner of \<open>m_mtx\<close>.
\<close>

theorem Notify_memory_orders:
  assumes "(notify_step s)\<^sup>*\<^sup>* notify_init c"
  shows "(nm_blocked (nc_mem c) \<and> should_wake (nc_mem c) (nc_frame c s) \<longrightarrow>
      (\<exists>t. notifying_frame (nc_frame c t)) \<and>
      (\<forall>t. nm_owner (nc_mem c) = Some t \<longrightarrow> notifying_frame (nc_frame c t))) \<and>
    (accesses_running (nc_frame c t) \<longrightarrow> nm_owner (nc_mem c) = Some t)"
proof -
  have inv: "notify_inv s c" by (rule wn.inv_steps [OF assms notify_inv_init])
  then have m: "mtx_inv s (nc_mem c) (nc_frame c)" by (simp add: notify_inv_def)
  have "notifying_frame (nc_frame c t)"
    if "should_wake (nc_mem c) (nc_frame c s)" "nm_owner (nc_mem c) = Some t" for t
  proof -
    have h: "holds_mtx (nc_frame c t)" and f: "frame_ok s (nc_mem c) t (nc_frame c t)"
      using m that(2) by (auto simp: mtx_inv_def)
    have "t \<noteq> s"
      using h that(1) by (cases "(nc_mem c, nc_frame c s)" rule: should_wake.cases) auto
    then show ?thesis using h f
      by (cases "nc_frame c t" rule: holds_mtx.cases) (auto simp: frame_ok_def notifying_frame_def)
  qed
  moreover have "holds_mtx (nc_frame c t)" if "accesses_running (nc_frame c t)"
    using that by (auto simp: accesses_running_def)
  ultimately show ?thesis using should_wake_notified [OF inv] m by (auto simp: mtx_inv_def)
qed

text \<open>
  Thread 1 has enqueued a task and is in \<open>notify\<close>; the scheduler, thread 0, reads the old size twice
  and blocks.
\<close>

definition notify_missed_acts :: "notify_action list" where
  "notify_missed_acts = [Na_call 1 Nf_enque, Na_access 1 0,
     Na_call 0 (Nf_sleep \<lparr>sl_waiting = [], sl_idle = True, sl_due = False\<rparr> Sp_lock),
     Na_access 0 0, Na_access 0 0, Na_access 0 0, Na_access 0 0, Na_access 0 0, Na_access 0 0]"

definition notify_missed :: notify_conf where
  "notify_missed = the (notify_run 0 notify_missed_acts notify_init)"

theorem Notify_memory_orders_witness:
  "nm_blocked (nc_mem notify_missed) \<and> should_wake (nc_mem notify_missed) (nc_frame notify_missed 0) \<and>
    (\<exists>t. notifying_frame (nc_frame notify_missed t))"
proof -
  have e: "notify_run 0 notify_missed_acts notify_init = Some notify_missed"
    and "nm_blocked (nc_mem notify_missed)" "should_wake (nc_mem notify_missed) (nc_frame notify_missed 0)"
    by (simp_all add: notify_missed_def notify_missed_acts_def notify_init_def notify_start_def
      notify_code_defs relaxed_msg_def readable_def sleep_kind_def)
  then show ?thesis using Notify_memory_orders [OF notify_run_sound [OF e]] by blast
qed

end
