(* ===== verification/Task.thy ===== *)
theory Task
  imports Wakeup "HOL-Library.Sublist"
begin

unbundle bit_operations_syntax

text \<open>
  \<open>TaskBase\<close>, \<open>TaskResult\<close>, \<open>TaskExec\<close> and \<open>Task\<close> of \<open>task.hpp\<close>. First the life of a task object
  as its consumer and its executor see it, interleaved: what \<open>get\<close> returns, when it blocks and is
  resumed, when it throws, and that it never reads storage that was not written. Then \<open>wait\<close> and \<open>notify\<close> as operations of a
  monitor that several threads use at once.
\<close>

section \<open>The object\<close>

definition Task_init :: u8 where "Task_init = 0"
definition Task_done :: u8 where "Task_done = 1"
definition Task_taken :: u8 where "Task_taken = 2"

text \<open>\<open>m_storage\<close> is raw memory: \<open>None\<close> until a value has been constructed in it.\<close>

record ('v, 'e) task =
  m_state :: u8
  m_exception :: "'e option"
  m_storage :: "'v option"

definition TaskBase_new :: "('v, 'e) task" where
  "TaskBase_new = \<lparr>m_state = Task_init, m_exception = None, m_storage = None\<rparr>"

definition is_state_done :: "('v, 'e) task \<Rightarrow> bool" where
  "is_state_done x \<longleftrightarrow> m_state x AND Task_done \<noteq> 0"

definition is_state_taken :: "('v, 'e) task \<Rightarrow> bool" where
  "is_state_taken x \<longleftrightarrow> m_state x AND Task_taken \<noteq> 0"

definition set_state_done :: "('v, 'e) task \<Rightarrow> ('v, 'e) task" where
  "set_state_done x = x\<lparr>m_state := m_state x OR Task_done\<rparr>"

definition set_state_taken :: "('v, 'e) task \<Rightarrow> ('v, 'e) task" where
  "set_state_taken x = x\<lparr>m_state := m_state x OR Task_taken\<rparr>"

definition has_exception :: "('v, 'e) task \<Rightarrow> bool" where
  "has_exception x \<longleftrightarrow> m_exception x \<noteq> None"

definition set_exception :: "'e \<Rightarrow> ('v, 'e) task \<Rightarrow> ('v, 'e) task" where
  "set_exception e x = x\<lparr>m_exception := Some e\<rparr>"

text \<open>
  The user's function is a parameter: it returns a value or throws. \<open>invoke\<close> constructs the value
  in the storage; a void result is a value of the unit type.
\<close>

definition TaskExec_invoke :: "'e + 'v \<Rightarrow> ('v, 'e) task \<Rightarrow> 'e + ('v, 'e) task" where
  "TaskExec_invoke fn x = (case fn of Inl e \<Rightarrow> Inl e | Inr v \<Rightarrow> Inr (x\<lparr>m_storage := Some v\<rparr>))"

definition invoke_noexcept :: "'e + 'v \<Rightarrow> ('v, 'e) task \<Rightarrow> ('v, 'e) task" where
  "invoke_noexcept fn x =
     (case TaskExec_invoke fn x of Inl e \<Rightarrow> set_exception e x | Inr x' \<Rightarrow> x')"

definition TaskBase_notify :: "('v, 'e) task \<Rightarrow> ('v, 'e) task" where
  "TaskBase_notify x = set_state_done x"

text \<open>
  What a call gives its caller: a value, an exception, or nothing (\<open>void\<close>). \<open>Blocked\<close> is no result:
  the call waits. \<open>Garbage\<close> is a read of storage that holds no value.
\<close>

datatype ('v, 'e) got =
  Got 'v | Void | Rethrown 'e | Result_already_taken | Invalid_task | Blocked | Garbage

text \<open>
  \<open>prepare_get\<close> has two stages, before and in \<open>wait\<close>. \<open>Inl\<close> is the stage in which the call goes on:
  a call that waits for the task stays in the second one until the task is done, and is then resumed
  there. \<open>Inr None\<close>: it has returned to \<open>get\<close>, which reads the storage; \<open>Inr (Some r)\<close>: it has
  thrown.
\<close>

datatype get_stage = Gs_check | Gs_wait

fun prepare_get ::
  "get_stage \<Rightarrow> ('v, 'e) task \<Rightarrow> (get_stage + ('v, 'e) got option) \<times> ('v, 'e) task"
where
  "prepare_get Gs_check x =
     (if is_state_taken x then (Inr (Some Result_already_taken), x) else (Inl Gs_wait, x))"
| "prepare_get Gs_wait x =
     (if \<not> is_state_done x then (Inl Gs_wait, x)
      else let x' = set_state_taken x in (Inr (map_option Rethrown (m_exception x')), x'))"

definition TaskResult_get ::
  "get_stage \<Rightarrow> ('v, 'e) task \<Rightarrow> (get_stage + ('v, 'e) got) \<times> ('v, 'e) task" where
  "TaskResult_get st x = (case prepare_get st x of
       (Inl st', x') \<Rightarrow> (Inl st', x')
     | (Inr (Some r), x') \<Rightarrow> (Inr r, x')
     | (Inr None, x') \<Rightarrow> (Inr (case m_storage x' of Some v \<Rightarrow> Got v | None \<Rightarrow> Garbage), x'))"

text \<open>The handle \<open>Task\<close>: the shared pointer is null after a move or in a default task.\<close>

definition Task_valid :: "('v, 'e) task option \<Rightarrow> bool" where
  "Task_valid h \<longleftrightarrow> h \<noteq> None"

definition Task_get ::
  "get_stage \<Rightarrow> ('v, 'e) task option \<Rightarrow> (get_stage + ('v, 'e) got) \<times> ('v, 'e) task option" where
  "Task_get st h = (case h of None \<Rightarrow> (Inr Invalid_task, None)
     | Some x \<Rightarrow> (let (r, x') = TaskResult_get st x in (r, Some x')))"

text \<open>\<open>None\<close>: the call returns.\<close>

definition Task_wait :: "('v, 'e) task option \<Rightarrow> ('v, 'e) got option" where
  "Task_wait h = (case h of None \<Rightarrow> Some Invalid_task
     | Some x \<Rightarrow> if is_state_done x then None else Some Blocked)"

subsection \<open>Consumer and executor\<close>

text \<open>
  The consumer makes a sequence of calls through its handle, one of which may move the handle away;
  the worker, which has its own shared pointer to the task, invokes the function and then notifies
  (\<open>Worker::main_loop\<close>). The two interleave. The call at the head of \<open>lf_calls\<close> is the one that the
  consumer is about to make or is blocked in; \<open>lf_answers\<close> is what the finished calls have given.
\<close>

datatype task_call = Getting | Waiting | Moving

datatype exec_stage = Ex_invoke | Ex_notify | Ex_over

record ('v, 'e) life =
  lf_task :: "('v, 'e) task"
  lf_handle :: bool
  lf_calls :: "task_call list"
  lf_stage :: get_stage
  lf_answers :: "('v, 'e) got list"
  lf_exec :: exec_stage

definition life_new :: "task_call list \<Rightarrow> ('v, 'e) life" where
  "life_new calls = \<lparr>lf_task = TaskBase_new, lf_handle = True, lf_calls = calls,
     lf_stage = Gs_check, lf_answers = [], lf_exec = Ex_invoke\<rparr>"

definition consumer_handle :: "('v, 'e) life \<Rightarrow> ('v, 'e) task option" where
  "consumer_handle c = (if lf_handle c then Some (lf_task c) else None)"

definition answered :: "('v, 'e) got \<Rightarrow> ('v, 'e) life \<Rightarrow> ('v, 'e) life" where
  "answered r c =
     c\<lparr>lf_calls := tl (lf_calls c), lf_stage := Gs_check, lf_answers := lf_answers c @ [r]\<rparr>"

definition consumer_step :: "('v, 'e) life \<Rightarrow> ('v, 'e) life" where
  "consumer_step c = (case lf_calls c of
       [] \<Rightarrow> c
     | Getting # cs \<Rightarrow> (case Task_get (lf_stage c) (consumer_handle c) of (r, h) \<Rightarrow>
         let c' = (case h of None \<Rightarrow> c | Some x \<Rightarrow> c\<lparr>lf_task := x\<rparr>)
         in case r of Inl st \<Rightarrow> c'\<lparr>lf_stage := st\<rparr> | Inr a \<Rightarrow> answered a c')
     | Waiting # cs \<Rightarrow> (case Task_wait (consumer_handle c) of
         None \<Rightarrow> answered Void c | Some Blocked \<Rightarrow> c | Some a \<Rightarrow> answered a c)
     | Moving # cs \<Rightarrow> answered Void (c\<lparr>lf_handle := False\<rparr>))"

definition executor_step :: "'e + 'v \<Rightarrow> ('v, 'e) life \<Rightarrow> ('v, 'e) life" where
  "executor_step fn c = (case lf_exec c of
       Ex_invoke \<Rightarrow> c\<lparr>lf_task := invoke_noexcept fn (lf_task c), lf_exec := Ex_notify\<rparr>
     | Ex_notify \<Rightarrow> c\<lparr>lf_task := TaskBase_notify (lf_task c), lf_exec := Ex_over\<rparr>
     | Ex_over \<Rightarrow> c)"

text \<open>An interleaving says whose step is next: \<open>True\<close> is the executor.\<close>

fun life_run :: "'e + 'v \<Rightarrow> bool list \<Rightarrow> ('v, 'e) life \<Rightarrow> ('v, 'e) life" where
  "life_run fn [] c = c"
| "life_run fn (e # es) c = life_run fn es (if e then executor_step fn c else consumer_step c)"

lemmas task_bits = Task_init_def Task_done_def Task_taken_def is_state_done_def is_state_taken_def
  set_state_done_def set_state_taken_def

text \<open>What the calls are to give, whenever the worker executes the task.\<close>

definition outcome_of :: "'e + 'v \<Rightarrow> ('v, 'e) got" where
  "outcome_of fn = (case fn of Inl e \<Rightarrow> Rethrown e | Inr v \<Rightarrow> Got v)"

definition call_result :: "'e + 'v \<Rightarrow> task_call \<Rightarrow> task_call list \<Rightarrow> ('v, 'e) got" where
  "call_result fn k earlier =
     (if k = Moving then Void
      else if Moving \<in> set earlier then Invalid_task
      else if k = Waiting then Void
      else if Getting \<in> set earlier then Result_already_taken else outcome_of fn)"

fun call_results :: "'e + 'v \<Rightarrow> task_call list \<Rightarrow> task_call list \<Rightarrow> ('v, 'e) got list" where
  "call_results fn earlier [] = []"
| "call_results fn earlier (k # ks) = call_result fn k earlier # call_results fn (earlier @ [k]) ks"

text \<open>
  The task of a life is in one of four states; the bit \<open>taken\<close> is set by the first \<open>get\<close> that was
  made before the handle was moved from.
\<close>

definition invoked :: "'e + 'v \<Rightarrow> ('v, 'e) task" where
  "invoked fn = invoke_noexcept fn TaskBase_new"

definition executed :: "'e + 'v \<Rightarrow> ('v, 'e) task" where
  "executed fn = TaskBase_notify (invoked fn)"

definition life_inv :: "'e + 'v \<Rightarrow> task_call list \<Rightarrow> ('v, 'e) life \<Rightarrow> bool" where
  "life_inv fn calls c \<longleftrightarrow> (\<exists>before. calls = before @ lf_calls c \<and>
     lf_answers c @ call_results fn before (lf_calls c) = call_results fn [] calls \<and>
     lf_handle c = (Moving \<notin> set before) \<and>
     (lf_stage c = Gs_wait \<longrightarrow>
        hd (lf_calls c) = Getting \<and> lf_calls c \<noteq> [] \<and> lf_handle c \<and> \<not> is_state_taken (lf_task c)) \<and>
     (lf_handle c \<longrightarrow> is_state_taken (lf_task c) = (Getting \<in> set before)) \<and>
     (case lf_exec c of
        Ex_invoke \<Rightarrow> lf_task c = TaskBase_new
      | Ex_notify \<Rightarrow> lf_task c = invoked fn
      | Ex_over \<Rightarrow> lf_task c = executed fn \<or> lf_task c = set_state_taken (executed fn)))"

lemma task_state_bits:
  "\<not> is_state_done TaskBase_new" "\<not> is_state_taken TaskBase_new"
  "\<not> is_state_done (invoked fn)" "\<not> is_state_taken (invoked fn)"
  "is_state_done (executed fn)" "\<not> is_state_taken (executed fn)"
  "is_state_done (set_state_taken (executed fn))" "is_state_taken (set_state_taken (executed fn))"
  by (cases fn; simp add: task_bits TaskBase_new_def invoked_def executed_def TaskBase_notify_def
      invoke_noexcept_def TaskExec_invoke_def set_exception_def)+

lemma get_executed:
  "TaskResult_get Gs_wait (executed fn) = (Inr (outcome_of fn), set_state_taken (executed fn))"
  using task_state_bits(5) [of fn]
  by (cases fn) (simp_all add: TaskResult_get_def executed_def invoked_def TaskBase_notify_def
      invoke_noexcept_def TaskExec_invoke_def set_exception_def outcome_of_def TaskBase_new_def
      set_state_done_def set_state_taken_def)

lemma get_not_done:
  "\<not> is_state_done x \<Longrightarrow> TaskResult_get Gs_wait x = (Inl Gs_wait, x)"
  by (simp add: TaskResult_get_def)

lemma get_check:
  "TaskResult_get Gs_check x =
     (if is_state_taken x then (Inr Result_already_taken, x) else (Inl Gs_wait, x))"
  by (simp add: TaskResult_get_def)

lemma life_new_inv: "life_inv fn calls (life_new calls)"
  by (simp add: life_inv_def life_new_def task_state_bits)

lemma executor_step_inv: "life_inv fn calls c \<Longrightarrow> life_inv fn calls (executor_step fn c)"
  by (auto simp: life_inv_def executor_step_def task_state_bits executed_def [symmetric]
      invoked_def [symmetric] split: exec_stage.splits)

lemma life_update_same:
  "lf_handle c = v \<Longrightarrow> c\<lparr>lf_handle := v\<rparr> = c" "lf_task c = x \<Longrightarrow> c\<lparr>lf_task := x\<rparr> = c"
  "lf_stage c = st \<Longrightarrow> c\<lparr>lf_stage := st\<rparr> = c"
  by auto

lemma consumer_step_inv:
  assumes "life_inv fn calls c" shows "life_inv fn calls (consumer_step c)"
proof (cases "lf_calls c")
  case Nil
  then show ?thesis using assms by (simp add: consumer_step_def)
next
  case (Cons k cs)
  from assms obtain before where *: "calls = before @ k # cs"
      "lf_answers c @ call_results fn before (k # cs) = call_results fn [] calls"
      "lf_handle c = (Moving \<notin> set before)"
      "lf_stage c = Gs_wait \<longrightarrow> k = Getting \<and> lf_handle c \<and> \<not> is_state_taken (lf_task c)"
      "lf_handle c \<longrightarrow> is_state_taken (lf_task c) = (Getting \<in> set before)"
    and st: "case lf_exec c of Ex_invoke \<Rightarrow> lf_task c = TaskBase_new
      | Ex_notify \<Rightarrow> lf_task c = invoked fn
      | Ex_over \<Rightarrow> lf_task c = executed fn \<or> lf_task c = set_state_taken (executed fn)"
    unfolding life_inv_def Cons by auto
  note step_simps = consumer_step_def Cons call_result_def life_update_same Task_get_def
    consumer_handle_def Let_def
  have answered: "life_inv fn calls (answered (call_result fn k before) (c\<lparr>lf_task := x, lf_handle := v\<rparr>))"
    if "v = (Moving \<notin> set (before @ [k]))" "v \<longrightarrow> is_state_taken x = (Getting \<in> set (before @ [k]))"
      "x = lf_task c \<or> lf_exec c = Ex_over \<and> x = set_state_taken (executed fn)" for x v
    unfolding life_inv_def
    by (intro exI [of _ "before @ [k]"])
      (use * st that in \<open>auto simp: answered_def Cons split: exec_stage.splits\<close>)
  show ?thesis
  proof (cases k)
    case Moving
    then show ?thesis using answered [of False "lf_task c"] *
      by (simp add: step_simps)
  next
    case Waiting
    then show ?thesis using answered [of "lf_handle c" "lf_task c"] * assms
      by (auto simp: step_simps Task_wait_def)
  next
    case Getting
    show ?thesis
    proof (cases "lf_handle c")
      case False
      then show ?thesis using answered [of False "lf_task c"] * Getting
        by (simp add: step_simps)
    next
      case v: True
      show ?thesis
      proof (cases "lf_stage c")
        case Gs_check
        show ?thesis
        proof (cases "is_state_taken (lf_task c)")
          case True
          then show ?thesis using answered [of True "lf_task c"] * Getting v Gs_check
            by (simp add: step_simps get_check)
        next
          case False
          have "life_inv fn calls (c\<lparr>lf_stage := Gs_wait\<rparr>)" unfolding life_inv_def
            by (intro exI [of _ before]) (use * st Getting v False in \<open>simp add: Cons split: exec_stage.splits\<close>)
          then show ?thesis using Getting v Gs_check False
            by (simp add: step_simps get_check)
        qed
      next
        case Gs_wait
        then have nt: "\<not> is_state_taken (lf_task c)" using * by simp
        show ?thesis
        proof (cases "is_state_done (lf_task c)")
          case False
          then show ?thesis using assms Getting v Gs_wait
            by (simp add: step_simps get_not_done)
        next
          case True
          then have e: "lf_exec c = Ex_over" "lf_task c = executed fn"
            using st nt by (auto simp: task_state_bits split: exec_stage.splits)
          then show ?thesis
            using answered [of True "set_state_taken (executed fn)"] * Getting v Gs_wait nt
            by (simp add: step_simps get_executed task_state_bits)
        qed
      qed
    qed
  qed
qed

lemma life_run_inv: "life_inv fn calls c \<Longrightarrow> life_inv fn calls (life_run fn es c)"
  by (induction es arbitrary: c) (simp_all add: executor_step_inv consumer_step_inv)

lemma life_run_append: "life_run fn (es @ es') c = life_run fn es' (life_run fn es c)"
  by (induction es arbitrary: c) simp_all

text \<open>Two steps of the executor are all it does; after them no call blocks.\<close>

lemma executor_over: "lf_exec (life_run fn [True, True] c) = Ex_over"
  by (cases "lf_exec c") (simp_all add: executor_step_def)

definition calls_left :: "('v, 'e) life \<Rightarrow> nat" where
  "calls_left c = 2 * length (lf_calls c) - (if lf_stage c = Gs_wait then 1 else 0)"

lemma consumer_step_left:
  assumes "lf_exec c = Ex_over" and "life_inv fn calls c"
  shows "calls_left (consumer_step c) \<le> calls_left c - 1 \<and> lf_exec (consumer_step c) = Ex_over"
proof (cases "lf_calls c")
  case (Cons k cs)
  have "is_state_done (lf_task c)" using assms by (auto simp: life_inv_def task_state_bits)
  then show ?thesis using assms(1) Cons
    by (cases k; cases "lf_stage c")
      (auto simp: consumer_step_def calls_left_def answered_def Task_wait_def Task_get_def
        consumer_handle_def
        TaskResult_get_def Let_def split: option.splits sum.splits prod.splits if_splits)
qed (use assms in \<open>simp add: consumer_step_def calls_left_def\<close>)

lemma consumer_finishes:
  "lf_exec c = Ex_over \<Longrightarrow> life_inv fn calls c \<Longrightarrow> calls_left c \<le> n \<Longrightarrow>
     lf_calls (life_run fn (replicate n False) c) = []"
proof (induction n arbitrary: c)
  case 0
  then show ?case by (cases "lf_calls c") (auto simp: calls_left_def split: if_splits)
next
  case (Suc n)
  then show ?case using consumer_step_left [OF Suc.prems(1,2)]
    by (auto intro!: Suc.IH consumer_step_inv)
qed

lemma life_inv_prefix:
  assumes "life_inv fn calls c"
  shows "prefix (lf_answers c) (call_results fn [] calls)"
    and "lf_calls c = [] \<Longrightarrow> lf_answers c = call_results fn [] calls"
    and "calls_left c \<le> 2 * length calls"
proof -
  from assms obtain before where b: "calls = before @ lf_calls c"
      "lf_answers c @ call_results fn before (lf_calls c) = call_results fn [] calls"
    unfolding life_inv_def by blast
  show "prefix (lf_answers c) (call_results fn [] calls)" using b(2) by (metis prefixI)
  show "lf_answers c = call_results fn [] calls" if "lf_calls c = []" using b(2) that by simp
  show "calls_left c \<le> 2 * length calls" using b(1) by (simp add: calls_left_def)
qed

text \<open>
  C36: The life of a task, seen by a consumer that makes any sequence of calls of \<open>get\<close> and \<open>wait\<close>
  and may move its handle away, in any interleaving with the worker that executes the task. The
  first \<open>get\<close> gives the value of the user's function, or rethrows what it threw; if the task is not
  done yet, the call blocks and gives this when it is resumed. Every later \<open>get\<close> throws \<open>Result
  already taken\<close>; after the move \<open>get\<close> and \<open>wait\<close> throw \<open>Invalid task\<close>. So the answers do not depend
  on when the task is executed, and the storage is never read before a value was constructed in it.
  Once the worker has executed the task, all calls return.
\<close>

theorem Task_life:
  "prefix (lf_answers (life_run fn es (life_new calls))) (call_results fn [] calls) \<and>
   lf_answers (life_run fn (es @ [True, True] @ replicate (2 * length calls) False) (life_new calls))
     = call_results fn [] calls"
proof
  show "prefix (lf_answers (life_run fn es (life_new calls))) (call_results fn [] calls)"
    by (intro life_inv_prefix(1) life_run_inv life_new_inv)
  let ?c = "life_run fn [True, True] (life_run fn es (life_new calls))"
  have i: "life_inv fn calls ?c" by (intro life_run_inv life_new_inv)
  have "lf_calls (life_run fn (replicate (2 * length calls) False) ?c) = []"
    by (rule consumer_finishes [OF executor_over i life_inv_prefix(3) [OF i]])
  then show "lf_answers (life_run fn (es @ [True, True] @ replicate (2 * length calls) False)
      (life_new calls)) = call_results fn [] calls"
    using life_inv_prefix(2) [OF life_run_inv [OF i]] by (simp only: life_run_append)
qed

section \<open>Waiting for a task\<close>

datatype task_phase = Tk_wait | Tk_notify

text \<open>The data are \<open>is_state_done()\<close>.\<close>

definition task_body :: "(task_phase, unit, bool) body" where
  "task_body t now b is_done = (case b of
       Tk_wait \<Rightarrow> wait_pred is_done 0 Tk_wait is_done (O_leave () [], is_done)
     | Tk_notify \<Rightarrow> (O_leave () [N_one 0], True))"

definition task_fail :: "task_phase \<Rightarrow> unit" where
  "task_fail b = ()"

lemmas task_body_defs = task_body_def wait_pred_def

text \<open>A consumer waits; the worker that executes the task notifies.\<close>

datatype task_role = Consumer | Executor | Bystander

definition task_calls :: "task_role \<Rightarrow> (task_phase, unit) mon_frame \<Rightarrow> task_role \<Rightarrow> bool" where
  "task_calls h f h' \<longleftrightarrow> h' = h \<and> (case f of
       M_lock b \<Rightarrow> b = (if h = Consumer then Tk_wait else Tk_notify) \<and> h \<noteq> Bystander
     | M_tick d \<Rightarrow> True
     | _ \<Rightarrow> False)"

definition task_ret :: "unit mon_result \<Rightarrow> task_role \<Rightarrow> task_role" where
  "task_ret r h = h"

text \<open>The ghost is the one consumer.\<close>

definition task_dok :: "tid \<Rightarrow> tid \<Rightarrow> task_role \<Rightarrow> (task_phase, unit) op_stage \<Rightarrow> bool" where
  "task_dok w t h s \<longleftrightarrow> (h = Consumer \<longrightarrow> w = t) \<and> (case s of
       St_to b \<Rightarrow> b = Tk_wait \<longrightarrow> h = Consumer
     | St_wait b \<Rightarrow> b = Tk_wait \<and> h = Consumer
     | St_try b \<Rightarrow> False
     | _ \<Rightarrow> True)"

interpretation task: wake_one task_calls task_body task_fail task_ret "\<lambda>w d. True" task_dok
  0 "\<lambda>is_done. \<not> is_done" "\<lambda>b. b = Tk_wait"
proof
  show "task_calls h f h' \<Longrightarrow> (\<exists>b. f = M_lock b \<or> f = M_try b) \<or> (\<exists>d. f = M_tick d)" for h f h'
    by (auto simp: task_calls_def split: mon_frame.splits)
  show "task_dok w t h St_out \<Longrightarrow> task_calls h f h' \<Longrightarrow> task_dok w t h' (stage (Some f))" for w t h f h'
    by (auto simp: task_calls_def task_dok_def split: mon_frame.splits if_splits)
  show "task_ret Mon_ticked h = h" for h by (simp add: task_ret_def)
  show "task_dok w t h (St_try b) \<Longrightarrow> task_dok w t h (St_to b)" for w t h b by (simp add: task_dok_def)
  show "task_dok w t h (St_wait b) \<Longrightarrow> task_dok w t h (St_to b)" for w t h b by (simp add: task_dok_def)
  show "task_dok w t h (St_try b) \<Longrightarrow> task_dok w t (task_ret (Mon_done (task_fail b)) h) St_out"
    for w t h b by (simp add: task_dok_def)
  show "task_dok w t h (St_done r) \<Longrightarrow> task_dok w t (task_ret (Mon_done r) h) St_out" for w t h r
    by (simp add: task_dok_def task_ret_def)
  fix w d t h b n out d'
  assume a: "task_dok w t h (St_to b)"
  show "task_body t n b d = (out, d') \<Longrightarrow> \<exists>w'. True \<and> task_dok w' t h (stage_after out) \<and>
      (\<forall>u k s. u \<noteq> t \<longrightarrow> task_dok w u k s \<longrightarrow> task_dok w' u k s)"
    using a by (intro exI [of _ w])
      (auto simp: task_body_defs task_dok_def split: task_phase.splits if_splits)
  show "task_body t n b d = (O_wait g tp b', d') \<Longrightarrow>
      if g = 0 then b' = Tk_wait \<and> \<not> d' else \<not> d' \<or> b \<noteq> Tk_wait \<and> \<not> \<not> d" for g tp b'
    by (auto simp: task_body_defs split: task_phase.splits if_splits)
  show "task_body t n b d = (O_goto b', d') \<Longrightarrow> \<not> d' \<or> b' = Tk_wait \<or> b \<noteq> Tk_wait \<and> \<not> \<not> d" for b'
    by (auto simp: task_body_defs split: task_phase.splits if_splits)
  show "task_body t n b d = (O_leave r ns, d') \<Longrightarrow> \<not> d' \<or> wakes 0 ns \<or> b \<noteq> Tk_wait \<and> \<not> \<not> d \<or>
      (\<forall>u k b'. u \<noteq> t \<longrightarrow> b' = Tk_wait \<longrightarrow> \<not> task_dok w u k (St_wait b'))" for r ns
    using a by (auto simp: task_body_defs task_dok_def wakes_def split: task_phase.splits if_splits)
qed

lemma task_start_owned:
  assumes "\<And>t. h t = Consumer \<Longrightarrow> t = w"
  shows "task.owned w (mon_start h False)"
  by (rule task.start_owned) (use assms in \<open>auto simp: task_dok_def\<close>)

text \<open>
  One consumer that waits for a task is always woken: when all threads are at rest and the
  consumer sleeps in \<open>wait\<close>, the task is not done.
\<close>

theorem Task_wait_woken:
  assumes "\<And>t. role t = Consumer \<Longrightarrow> t = consumer"
    and "task.sys\<^sup>*\<^sup>* (mon_start role False) c" and "at_rest c" and "waits_at 0 c t"
  shows "\<not> mon_data (shared c)"
  using task.no_lost_wakeup [OF assms(2) task_start_owned [OF assms(1)] assms(3,4)] .

definition task_asleep :: "(bool mon, task_role, (task_phase, unit) mon_frame, unit mon_result) conf" where
  "task_asleep = the (exec task_calls (mon_code task_body task_fail) task_ret
     [(1, Some (M_lock Tk_wait, Consumer)), (1, None), (1, None), (1, None), (1, None), (1, None)]
     (mon_start ((\<lambda>_. Executor)(1 := Consumer)) False))"

theorem Task_wait_woken_witness: "\<not> mon_data (shared task_asleep)"
proof -
  have e: "exec task_calls (mon_code task_body task_fail) task_ret
     [(1, Some (M_lock Tk_wait, Consumer)), (1, None), (1, None), (1, None), (1, None), (1, None)]
     (mon_start ((\<lambda>_. Executor)(1 := Consumer)) False) = Some task_asleep"
    and r: "at_rest task_asleep" "waits_at 0 task_asleep 1"
    by (simp_all add: task_asleep_def task_body_defs task_calls_def task_ret_def mon_exec_defs
        at_rest_def waits_at_def)
  have "((\<lambda>_. Executor)(1 := Consumer)) t = Consumer \<Longrightarrow> t = 1" for t by (simp split: if_splits)
  from Task_wait_woken [OF this exec_sound [OF e] r] show ?thesis .
qed

text \<open>
  C37: Two consumers that wait for the same task are not both woken: \<open>notify\<close> notifies only one of
  them, and a state is reachable in which the task is done, every thread is at rest, and the
  second consumer still sleeps.
\<close>

theorem Task_second_waiter_sleeps:
  "\<exists>c. task.sys\<^sup>*\<^sup>* (mon_start ((\<lambda>_. Executor)(1 := Consumer, 2 := Consumer)) False) c \<and>
     mon_data (shared c) \<and> at_rest c \<and> waits_at 0 c 2"
proof -
  let ?start = "mon_start ((\<lambda>_. Executor)(1 := Consumer, 2 := Consumer)) False"
  let ?wait = "\<lambda>t. [(t, Some (M_lock Tk_wait, Consumer)), (t, None), (t, None), (t, None), (t, None),
    (t, None)]"
  let ?run = "?wait 1 @ ?wait 2 @
    [(3, Some (M_lock Tk_notify, Executor)), (3, None), (3, None), (3, None), (3, None), (3, None),
     (1, None), (1, None), (1, None), (1, None), (1, None), (1, None)]"
  let ?c = "the (exec task_calls (mon_code task_body task_fail) task_ret ?run ?start)"
  have "exec task_calls (mon_code task_body task_fail) task_ret ?run ?start = Some ?c"
    and *: "mon_data (shared ?c)" "at_rest ?c" "waits_at 0 ?c 2"
    by (simp_all add: task_body_defs task_calls_def task_ret_def mon_exec_defs
        at_rest_def waits_at_def)
  from exec_sound [OF this(1)] * show ?thesis by blast
qed

end
