(* ===== verification/Async.thy ===== *)
theory Async
  imports Scheduler_Props Task "HOL-Library.Sublist"
begin

text \<open>
  \<open>async\<close> and \<open>asyncs\<close> of \<open>async.hpp\<close>: functions are made into tasks, which are queued one after the
  other, each at the scheduler of least load at that moment; then, if asked for, the caller waits
  for each of them. Here all of a call's tasks are queued before another thread runs; that
  submissions interleave with everything else is the subject of the theory Runtime.
\<close>

section \<open>Submitting and waiting\<close>

text \<open>
  A new task is named by its identifier; the function it executes is a parameter elsewhere. \<open>f\<close> gives
  the state of the tasks when the caller waits for them (\<open>Task_wait\<close>): the first component of a result
  is \<open>None\<close> if the call returns, otherwise what stops it, \<open>Blocked\<close> or the exception for a handle
  without a task. The outer \<open>None\<close> is the failure of \<open>min_load_scheduler\<close>.
\<close>

type_synonym ('v, 'e) tasks_state = "task_id \<Rightarrow> ('v, 'e) task option"

definition async ::
  "bool \<Rightarrow> ('v, 'e) tasks_state \<Rightarrow> task_id \<Rightarrow> 'q schedulers \<Rightarrow>
   (('v, 'e) got option \<times> task_id \<times> 'q schedulers) option" where
  "async wait f t g = (case enque_task t g of
       None \<Rightarrow> None
     | Some g' \<Rightarrow> Some (if wait then Task_wait (f t) else None, t, g'))"

text \<open>The helper calls \<open>async\<close> without waiting, whatever its own parameter.\<close>

fun asyncs_helper ::
  "('v, 'e) tasks_state \<Rightarrow> task_id list \<Rightarrow> task_id list \<Rightarrow> 'q schedulers \<Rightarrow>
   (task_id list \<times> 'q schedulers) option" where
  "asyncs_helper f tasks [] g = Some (tasks, g)"
| "asyncs_helper f tasks (t # ts) g = (case async False f t g of
     None \<Rightarrow> None | Some (r, h, g') \<Rightarrow> asyncs_helper f (tasks @ [h]) ts g')"

fun wait_each :: "('v, 'e) tasks_state \<Rightarrow> task_id list \<Rightarrow> ('v, 'e) got option" where
  "wait_each f [] = None"
| "wait_each f (t # ts) = (case Task_wait (f t) of None \<Rightarrow> wait_each f ts | Some r \<Rightarrow> Some r)"

definition asyncs ::
  "bool \<Rightarrow> ('v, 'e) tasks_state \<Rightarrow> task_id list \<Rightarrow> 'q schedulers \<Rightarrow>
   (('v, 'e) got option \<times> task_id list \<times> 'q schedulers) option" where
  "asyncs wait f ts g = (case asyncs_helper f [] ts g of
       None \<Rightarrow> None
     | Some (tasks, g') \<Rightarrow> Some (if wait then wait_each f tasks else None, tasks, g'))"

lemma wait_each_done:
  "wait_each f ts = None \<longleftrightarrow> (\<forall>t\<in>set ts. \<exists>x. f t = Some x \<and> is_state_done x)"
  by (induction ts) (auto simp: Task_wait_def split: option.splits if_splits)

section \<open>What one submission does\<close>

definition sched_load :: "'q schedulers \<Rightarrow> nat \<Rightarrow> int" where
  "sched_load g i = sint (load (scheds g ! i))"

definition queued :: "'q schedulers \<Rightarrow> nat \<Rightarrow> task_id list" where
  "queued g i = m_tasks (sch_tasks (scheds g ! i))"

text \<open>Few enough workers and tasks for the load to be exact, with room for \<open>n\<close> more tasks.\<close>

definition room :: "nat \<Rightarrow> 'q schedulers \<Rightarrow> bool" where
  "room n g \<longleftrightarrow> (\<forall>i<length (scheds g). workers_size (scheds g ! i) \<le> 256 \<and>
     length (queued g i) + n < 214748108)"

lemma enqueue_task_simps [simp]:
  "m_tasks (sch_tasks (enqueue_task t s)) = m_tasks (sch_tasks s) @ [t]"
  "sch_running (enqueue_task t s)" "workers_size (enqueue_task t s) = workers_size s"
  "state_load (enqueue_task t s) = state_load s" "cpu_id (enqueue_task t s) = cpu_id s"
  "workers (enqueue_task t s) = workers s"
  by (simp_all add: enqueue_task_def notify_sched_def state_load_def)

lemma enqueue_task_inv: assumes "sched_inv L s" shows "sched_inv L (enqueue_task t s)"
proof (rule sched_inv_cong [OF assms])
  show "queue_of L (enqueue_task t s) st = queue_of L s st" for st
    by (cases st) (simp_all add: queue_of.simps enqueue_task_def notify_sched_def)
  show "tasks_inv (sch_tasks (enqueue_task t s))"
    using assms by (simp add: sched_inv_def enqueue_task_def notify_sched_def tasks_inv_enque)
qed (use assms in \<open>auto simp: sched_inv_def workers_linked_def enqueue_task_def notify_sched_def\<close>)

lemma enqueue_task_bag: "task_bag (enqueue_task t s) = add_mset t (task_bag s)"
  by (simp add: task_bag_def assigned_tasks_def)

lemma enque_task_step:
  assumes inv: "glob_inv L g" and ne: "scheds g \<noteq> []" and room: "room (Suc n) g"
  obtains k where "k < length (scheds g)" "enque_task t g = Some (upd_sched k (enqueue_task t) g)"
    "glob_inv L (upd_sched k (enqueue_task t) g)" "room n (upd_sched k (enqueue_task t) g)"
    "glob_bag (upd_sched k (enqueue_task t) g) = add_mset t (glob_bag g)"
    "\<And>j. j < length (scheds g) \<Longrightarrow> sched_load g k \<le> sched_load g j"
    "\<And>j. j < length (scheds g) \<Longrightarrow> sched_load (upd_sched k (enqueue_task t) g) j =
       sched_load g j + (if j = k then 10 else 0)"
proof -
  have "\<exists>k. min_load_scheduler g = Some k"
    using ne by (simp add: min_load_scheduler_def split: list.split)
  then obtain k where m: "min_load_scheduler g = Some k" ..
  from min_load_scheduler_first_minimum [of g] m
  have k: "k < length (scheds g)" and least: "\<And>j. j < length (scheds g) \<Longrightarrow> sched_load g k \<le> sched_load g j"
    by (auto simp: sched_load_def word_sle_eq)
  let ?g = "upd_sched k (enqueue_task t) g"
  have e: "enque_task t g = Some ?g" by (simp add: enque_task_def m)
  have i: "sched_inv L (scheds g ! j)" if "j < length (scheds g)" for j
    using inv that by (simp add: glob_inv_def)
  have inv': "glob_inv L ?g" by (rule glob_inv_upd [OF inv]) (simp_all add: enqueue_task_inv i)
  have room': "room n ?g" unfolding room_def
  proof (intro allI impI)
    fix j assume "j < length (scheds ?g)"
    then have j: "j < length (scheds g)" by simp
    then show "workers_size (scheds ?g ! j) \<le> 256 \<and> length (queued ?g j) + n < 214748108"
      using room [unfolded room_def, rule_format, OF j] k by (cases "j = k") (auto simp: queued_def)
  qed
  have bag: "glob_bag ?g = add_mset t (glob_bag g)"
    using sum_list_update_mset [OF k, of task_bag "enqueue_task t (scheds g ! k)"]
    by (simp add: glob_bag_def upd_sched_def enqueue_task_bag)
  have ld: "sched_load ?g j = sched_load g j + (if j = k then 10 else 0)" if j: "j < length (scheds g)" for j
  proof (cases "j = k")
    case True
    have r: "workers_size (scheds g ! k) \<le> 256" "length (m_tasks (sch_tasks (scheds g ! k))) + Suc n < 214748108"
      using room [unfolded room_def, rule_format, OF k] by (simp_all add: queued_def)
    then show ?thesis using True k load_sum(4) [OF i [OF k]]
        load_sum(4) [OF enqueue_task_inv [OF i [OF k]], of t]
      by (simp add: sched_load_def)
  qed (simp add: sched_load_def)
  show ?thesis using that [OF k e inv' room' bag least ld] .
qed

section \<open>What a sequence of submissions does\<close>

text \<open>
  \<open>us\<close> has been submitted since \<open>g0\<close>: each queue has grown by a part of it, in order; a scheduler that
  received something has been notified, and exceeds no other's load by more than one task.
\<close>

definition spread :: "'q schedulers \<Rightarrow> task_id list \<Rightarrow> 'q schedulers \<Rightarrow> bool" where
  "spread g0 us g \<longleftrightarrow> length (scheds g) = length (scheds g0) \<and> glob_bag g = glob_bag g0 + mset us \<and>
     (\<forall>i<length (scheds g0). \<exists>vs. subseq vs us \<and> queued g i = queued g0 i @ vs \<and>
        (vs \<noteq> [] \<longrightarrow> sch_running (scheds g ! i) \<and>
          (\<forall>j<length (scheds g0). sched_load g i \<le> sched_load g j + 10)))"

lemma spread_refl: "spread g [] g"
  by (simp add: spread_def)

lemma spread_step:
  assumes sp: "spread g0 us g" and k: "k < length (scheds g)"
    and bag: "glob_bag (upd_sched k (enqueue_task t) g) = add_mset t (glob_bag g)"
    and least: "\<And>j. j < length (scheds g) \<Longrightarrow> sched_load g k \<le> sched_load g j"
    and ld: "\<And>j. j < length (scheds g) \<Longrightarrow> sched_load (upd_sched k (enqueue_task t) g) j =
       sched_load g j + (if j = k then 10 else 0)"
  shows "spread g0 (us @ [t]) (upd_sched k (enqueue_task t) g)"
proof -
  let ?g = "upd_sched k (enqueue_task t) g"
  have n: "length (scheds g) = length (scheds g0)" using sp by (simp add: spread_def)
  have "\<exists>vs. subseq vs (us @ [t]) \<and> queued ?g i = queued g0 i @ vs \<and>
      (vs \<noteq> [] \<longrightarrow> sch_running (scheds ?g ! i) \<and>
        (\<forall>j<length (scheds g0). sched_load ?g i \<le> sched_load ?g j + 10))"
    if i: "i < length (scheds g0)" for i
  proof -
    obtain vs where vs: "subseq vs us" "queued g i = queued g0 i @ vs"
      "vs \<noteq> [] \<Longrightarrow> sch_running (scheds g ! i)"
      "\<And>j. vs \<noteq> [] \<Longrightarrow> j < length (scheds g0) \<Longrightarrow> sched_load g i \<le> sched_load g j + 10"
      using sp i unfolding spread_def by blast
    show ?thesis
    proof (cases "i = k")
      case True
      then have "queued ?g i = queued g0 i @ (vs @ [t])" using k vs(2) by (simp add: queued_def)
      moreover have "subseq (vs @ [t]) (us @ [t])" using vs(1) by simp
      moreover have "sch_running (scheds ?g ! i)" using True k by simp
      moreover have "sched_load ?g i \<le> sched_load ?g j + 10" if "j < length (scheds g0)" for j
        using least [of j] ld [of j] ld [of k] True k that n by simp
      ultimately show ?thesis by blast
    next
      case False
      then have "queued ?g i = queued g0 i @ vs" using vs(2) by (simp add: queued_def)
      moreover have "subseq vs (us @ [t])" using vs(1) by (rule list_emb_prefix)
      moreover have "sch_running (scheds ?g ! i)" if "vs \<noteq> []" using vs(3) that False by simp
      moreover have "sched_load ?g i \<le> sched_load ?g j + 10"
        if "vs \<noteq> []" "j < length (scheds g0)" for j
        using vs(4) [OF that] ld [of i] ld [of j] False i that(2) n by (cases "j = k") simp_all
      ultimately show ?thesis by blast
    qed
  qed
  then show ?thesis using sp bag by (simp add: spread_def)
qed

lemma asyncs_helper_spread:
  assumes "glob_inv L g" and "scheds g \<noteq> []" and "room (length ts) g" and "spread g0 us g"
  shows "\<exists>g'. asyncs_helper f us ts g = Some (us @ ts, g') \<and> glob_inv L g' \<and> spread g0 (us @ ts) g'"
  using assms
proof (induction ts arbitrary: us g)
  case (Cons t ts)
  have "room (Suc (length ts)) g" using Cons.prems(3) by simp
  from enque_task_step [OF Cons.prems(1,2) this]
  obtain k where k: "k < length (scheds g)" "enque_task t g = Some (upd_sched k (enqueue_task t) g)"
    "glob_inv L (upd_sched k (enqueue_task t) g)" "room (length ts) (upd_sched k (enqueue_task t) g)"
    "glob_bag (upd_sched k (enqueue_task t) g) = add_mset t (glob_bag g)"
    "\<And>j. j < length (scheds g) \<Longrightarrow> sched_load g k \<le> sched_load g j"
    "\<And>j. j < length (scheds g) \<Longrightarrow> sched_load (upd_sched k (enqueue_task t) g) j =
       sched_load g j + (if j = k then 10 else 0)"
    by blast
  have "scheds (upd_sched k (enqueue_task t) g) \<noteq> []"
    using k(1) by (metis length_0_conv not_less_zero upd_sched_simps(1))
  from Cons.IH [OF k(3) this k(4) spread_step [OF Cons.prems(4) k(1,5-7)]]
  show ?case by (simp add: async_def k(2))
qed simp

section \<open>Properties\<close>

text \<open>
  C19: \<open>asyncs\<close> submits every one of its functions exactly once and returns their handles in order.
  Each scheduler gets a part of them, in order, behind what its queue held; one that gets any is
  notified and exceeds the load of no other by more than one task, however uneven the loads were
  before. All are submitted before the first wait, and with waiting the call returns exactly when
  every task is done.
\<close>

theorem asyncs_balanced:
  assumes "glob_inv L g" and "scheds g \<noteq> []" and "room (length ts) g"
  shows "\<exists>r g'. asyncs wait f ts g = Some (r, ts, g') \<and>
     (r = None \<longleftrightarrow> \<not> wait \<or> (\<forall>t\<in>set ts. \<exists>x. f t = Some x \<and> is_state_done x)) \<and>
     glob_inv L g' \<and> glob_bag g' = glob_bag g + mset ts \<and>
     (\<forall>i<length (scheds g). \<exists>us. subseq us ts \<and> queued g' i = queued g i @ us \<and>
        (us \<noteq> [] \<longrightarrow> sch_running (scheds g' ! i) \<and>
          (\<forall>j<length (scheds g). sched_load g' i \<le> sched_load g' j + 10)))"
proof -
  obtain g' where "asyncs_helper f [] ts g = Some (ts, g')" "glob_inv L g'" "spread g ts g'"
    using asyncs_helper_spread [OF assms spread_refl] by auto
  then show ?thesis by (auto simp: asyncs_def spread_def wait_each_done)
qed

theorem asyncs_balanced_witness:
  "\<exists>r g'. asyncs True (\<lambda>_. None :: (unit, unit) task option) [50, 51, 52] ex_g
     = Some (r, [50, 51, 52], g') \<and> r \<noteq> None \<and> glob_bag g' = glob_bag ex_g + mset [50, 51, 52]"
proof -
  have "scheds ex_g \<noteq> []" "room (length [50, 51, 52 :: task_id]) ex_g"
    by (simp_all add: ex_g_def room_def queued_def ex_defs Tasks_init_def All_less_Suc)
  from asyncs_balanced [OF ex_glob_inv this, of True "\<lambda>_. None :: (unit, unit) task option"]
  obtain r g' where g': "asyncs True (\<lambda>_. None :: (unit, unit) task option) [50, 51, 52] ex_g
     = Some (r, [50, 51, 52], g')" "glob_bag g' = glob_bag ex_g + mset [50, 51, 52]"
    and "r = None \<longleftrightarrow> \<not> True \<or> (\<forall>t\<in>set [50, 51, 52 :: task_id]. \<exists>x.
      (None :: (unit, unit) task option) = Some x \<and> is_state_done x)"
    by blast
  then have "r \<noteq> None" by auto
  with g' show ?thesis by blast
qed

end
