(* ===== verification/Demo.thy ===== *)
theory Demo
  imports Async Boot
begin

text \<open>
  \<open>main.cpp\<close>, the program that comes with the library: the functions it executes as tasks, what
  \<open>ums_main\<close> prints, and what \<open>main\<close> submits. \<open>f1\<close> (random numbers and the clock), the class \<open>A\<close>
  (its output only) and the loops of \<open>thread_function\<close> and \<open>ms3_function\<close> around \<open>async\<close> are left out.
\<close>

section \<open>The functions\<close>

text \<open>The state of both loops is the pair \<open>(first, second)\<close>; \<open>u64\<close> wraps around.\<close>

definition fib_next :: "u64 \<times> u64 \<Rightarrow> u64 \<times> u64" where
  "fib_next p = (snd p, fst p + snd p)"

lemma u64_inc: "(i :: u64) < n \<Longrightarrow> unat (i + 1) = Suc (unat i)"
proof -
  assume "i < n"
  moreover have "unat n < 2 ^ 64" by (rule order_less_le_trans [OF unsigned_less]) simp
  ultimately have "Suc (unat i) < 2 ^ 64" by (simp add: word_less_nat_alt)
  then show ?thesis by (simp add: unat_word_ariths)
qed

text \<open>\<open>f3\<close>, with its bound 3000000000 as the parameter \<open>n\<close>.\<close>

function f3_loop :: "u64 \<Rightarrow> u64 \<Rightarrow> u64 \<times> u64 \<Rightarrow> u64" where
  "f3_loop n i p = (if i < n then f3_loop n (i + 1) (fib_next p) else snd p)"
  by auto
termination
proof (relation "measure (\<lambda>(n, i, p). unat n - unat i)")
  fix n i :: u64 and p :: "u64 \<times> u64"
  assume "i < n"
  then have "unat (i + 1) = Suc (unat i)" by (rule u64_inc)
  then show "((n, i + 1, fib_next p), (n, i, p)) \<in> measure (\<lambda>(n, i, p). unat n - unat i)"
    using \<open>i < n\<close> by (simp add: word_less_nat_alt)
qed simp

declare f3_loop.simps [simp del]

definition f3 :: u64 where
  "f3 = f3_loop 3000000000 2 (0, 1)"

text \<open>\<open>fib\<close> returns \<open>second\<close> and prints numbers, here a list.\<close>

function fib_loop :: "u64 \<Rightarrow> u64 \<Rightarrow> u64 \<times> u64 \<Rightarrow> u64 list \<Rightarrow> u64 \<times> u64 list" where
  "fib_loop n i p out = (if i < n then let q = fib_next p in fib_loop n (i + 1) q (out @ [snd q])
     else (snd p, out))"
  by auto
termination
proof (relation "measure (\<lambda>(n, i, p, out). unat n - unat i)")
  fix n i :: u64 and p q :: "u64 \<times> u64" and out :: "u64 list"
  assume "i < n"
  then have "unat (i + 1) = Suc (unat i)" by (rule u64_inc)
  then show "((n, i + 1, q, out @ [snd q]), (n, i, p, out)) \<in> measure (\<lambda>(n, i, p, out). unat n - unat i)"
    using \<open>i < n\<close> by (simp add: word_less_nat_alt)
qed simp

declare fib_loop.simps [simp del]

definition fib :: "u64 \<Rightarrow> u64 \<times> u64 list" where
  "fib n = fib_loop n 1 (0, 1) (if n > 0 then [0] else [])"

text \<open>The lines that \<open>ums_main\<close> prints for its arguments: \<open>argv[0]\<close> in every round.\<close>

definition ums_main_args :: "string list \<Rightarrow> string list" where
  "ums_main_args argv = map (\<lambda>i. argv ! 0) [0 ..< length argv]"

section \<open>The Fibonacci numbers\<close>

fun Fib :: "nat \<Rightarrow> nat" where
  "Fib 0 = 0" | "Fib (Suc 0) = 1" | "Fib (Suc (Suc k)) = Fib k + Fib (Suc k)"

definition fib_pair :: "nat \<Rightarrow> u64 \<times> u64" where
  "fib_pair k = (of_nat (Fib k), of_nat (Fib (Suc k)))"

lemma fib_next_pair: "fib_next (fib_pair k) = fib_pair (Suc k)"
  by (simp add: fib_next_def fib_pair_def)

lemma snd_fib_pair: "snd (fib_pair (Suc k)) = of_nat (Fib (k + 2))"
  by (simp add: fib_pair_def)

lemma Fib_add2: "Fib (k + 2) = Fib k + Fib (Suc k)"
  by simp

declare Fib.simps(3) [simp del]

lemma f3_loop_Fib: "f3_loop n i (fib_pair k) = of_nat (Fib (Suc k + (unat n - unat i)))"
proof (induction "unat n - unat i" arbitrary: i k)
  case 0
  then have "\<not> i < n" by (simp add: word_less_nat_alt)
  then show ?case using 0 by (simp add: f3_loop.simps [of n i] fib_pair_def)
next
  case (Suc d)
  then have i: "i < n" by (simp add: word_less_nat_alt)
  have d: "d = unat n - unat (i + 1)" using Suc(2) u64_inc [OF i] by simp
  have "f3_loop n i (fib_pair k) = f3_loop n (i + 1) (fib_pair (Suc k))"
    using i by (simp add: f3_loop.simps [of n i] fib_next_pair)
  then show ?case using Suc(1) [OF d, of "Suc k"] by (simp flip: Suc(2) d)
qed

lemma fib_loop_Fib: "fib_loop n i (fib_pair k) out =
    (of_nat (Fib (Suc k + (unat n - unat i))),
     out @ map (\<lambda>j. of_nat (Fib j)) [k + 2 ..< k + 2 + (unat n - unat i)])"
proof (induction "unat n - unat i" arbitrary: i k out)
  case 0
  then have "\<not> i < n" by (simp add: word_less_nat_alt)
  then show ?case using 0 by (simp add: fib_loop.simps [of n i] fib_pair_def)
next
  case (Suc d)
  then have i: "i < n" by (simp add: word_less_nat_alt)
  have d: "d = unat n - unat (i + 1)" using Suc(2) u64_inc [OF i] by simp
  have "fib_loop n i (fib_pair k) out
      = fib_loop n (i + 1) (fib_pair (Suc k)) (out @ [of_nat (Fib (k + 2))])"
    using i by (simp add: fib_loop.simps [of n i] fib_next_pair Let_def snd_fib_pair)
  also have "\<dots> = (of_nat (Fib (Suc (Suc k) + d)), (out @ [of_nat (Fib (k + 2))]) @
      map (\<lambda>j. of_nat (Fib j)) [Suc k + 2 ..< Suc k + 2 + d])"
    using Suc(1) [OF d, of "Suc k" "out @ [of_nat (Fib (k + 2))]"] unfolding d .
  also have "\<dots> = (of_nat (Fib (Suc k + Suc d)),
      out @ map (\<lambda>j. of_nat (Fib j)) [k + 2 ..< k + 2 + Suc d])"
    by (simp add: upt_conv_Cons del: upt_Suc)
  finally show ?case unfolding Suc(2) .
qed

text \<open>
  \<open>f3\<close> and \<open>fib\<close> compute Fibonacci numbers modulo 2 ^ 64 (\<open>fib 0\<close> is 1, though). What \<open>fib\<close>
  prints is not the sequence up to there: of the two ones it prints one, so \<open>fib 4\<close> prints 0, 1, 2, 3.
\<close>

theorem fib_results:
  "f3 = of_nat (Fib 2999999999) \<and>
   fib n = (of_nat (Fib (max 1 (unat n))),
     if n = 0 then [] else 0 # map (\<lambda>j. of_nat (Fib j)) [2 ..< Suc (unat n)])"
proof -
  have p: "(0, 1) = fib_pair 0" by (simp add: fib_pair_def)
  have "f3 = of_nat (Fib 2999999999)"
    unfolding f3_def p f3_loop_Fib by (rule arg_cong [of _ _ "\<lambda>k. of_nat (Fib k)"]) simp
  moreover have "fib n = (of_nat (Fib (max 1 (unat n))),
     if n = 0 then [] else 0 # map (\<lambda>j. of_nat (Fib j)) [2 ..< Suc (unat n)])"
  proof (cases "n = 0")
    case False
    then have "0 < unat n" by (simp add: unat_gt_0)
    then have "Suc 0 + (unat n - 1) = max 1 (unat n)" "2 + (unat n - 1) = Suc (unat n)" by simp_all
    then show ?thesis using False unfolding fib_def p fib_loop_Fib by (simp add: word_gt_0 del: upt_Suc) (simp add: numeral_2_eq_2 del: upt_Suc)
  qed (simp add: fib_def p fib_loop_Fib)
  ultimately show ?thesis ..
qed

end
