(* ===== verification/Spec2Isabelle.thy ===== *)
theory Spec2Isabelle
  imports Options Io_Ring Runtime_Props Runtime_Cost Binding Timed_mutex Shared_max Semaphore
    Condition_variable_any Weak_locks Weak_notify Task Async Os Demo
begin

text \<open>
  A verification development for \<open>ums\<close>, a user-mode scheduler library in C++ (directory \<open>src/\<close>).

  The program. \<open>init_ums\<close> (\<open>ums.cpp\<close>) creates one \<open>Scheduler\<close> for each selected CPU
  (\<open>scheduler.cpp\<close>). A scheduler owns a fixed set of \<open>Worker\<close>s (\<open>worker.cpp\<close>), threads that execute
  tasks, of which exactly one runs at a time: when a task ends, yields, waits, sleeps or reads a
  file, its worker enters \<open>Scheduler::sync\<close>, parks itself in one of the scheduler's queues, executes
  the scheduling loop \<open>schedule\<close> itself and hands over to the worker that it has chosen. With nothing
  to run it steals a task from another scheduler, or blocks in \<open>sleep\<close>. \<open>async\<close> (\<open>async.hpp\<close>) puts a
  task (\<open>task.hpp\<close>) into the queue of the scheduler of least load and notifies that scheduler. The
  main thread waits until all schedulers are idle and shuts them down. For the tasks there are
  mutexes, condition variables and shared mutexes that block a worker and not its CPU.

  Method. Everything is translated into functions and records with the names of the code. An
  exception, a failed assertion, \<open>std::terminate\<close> or undefined behaviour is a value of an option or
  sum type. Integers have their width where it matters (\<open>u32\<close>, \<open>u64\<close>, \<open>i32\<close>); time points are
  integers. The list library and \<open>util.hpp\<close>, which are not in the repository, are a parameter with the
  laws \<open>stl_laws\<close> (theory Stl_Interface, with an instance); so are the operating system, liburing and
  the user's functions.
\<close>

section \<open>Theories and the code they model\<close>

text \<open>
  One scheduler, sequentially.
  \<^item> Options: \<open>config.hpp\<close>, \<open>options.hpp\<close>. Limits, switches, the clamping of the options.
  \<^item> Task_Queue: \<open>Tasks\<close> of \<open>task.hpp\<close> and \<open>task.cpp\<close>, with a locale for a first-in first-out queue.
  \<^item> Io, Io_Ring: \<open>io.hpp\<close>, \<open>io.cpp\<close>, the I/O part of \<open>os_specific.cpp\<close>. A request on Linux and on
    Windows; the io_uring of one worker over a sequence of requests.
  \<^item> Worker: \<open>worker.hpp\<close>, the state of a worker and the table of loads of \<open>scheduler.cpp\<close>.
  \<^item> Scheduler: the members of \<open>Scheduler\<close>, its queues, load, passes, \<open>sleep\<close>, \<open>exit\<close>, the two halves
    of \<open>sync\<close>, the constructor. Schedulers: stealing, load balancing, CPU selection, the idle counter,
    \<open>all_idle\<close>, and one iteration of \<open>schedule\<close>. Worker_Api: what a task calls on its worker.
  \<^item> Scheduler_Inv, Scheduler_Ops, Scheduler_Pass, Schedulers_Inv, Sleep: the invariant of a scheduler
    (each parked worker in the one queue of its state, load counter exact, idle workers without and
    suspended ones with a task), its preservation by every operation, the conservation of the bag of
    tasks, what is known when a scheduler blocks. Scheduler_Props: the properties.
  \<^item> Async: \<open>async.hpp\<close>. Os, Binding: CPU masks, thread binding and files of \<open>os_specific.cpp\<close>.

  The whole program, interleaved.
  \<^item> Runtime: a state with all schedulers, the phase each is in, and the main thread; \<open>rt_act\<close> executes
    one step of one thread: a scheduler in \<open>schedule\<close>, a task (\<open>user_op\<close>), a notification, a spurious
    wakeup, the main thread from the submission to the last join. Boot: \<open>init_ums\<close> up to there.
  \<^item> Runtime_Inv, Runtime_Steps, Runtime_User, Runtime_Open, Runtime_Safe: the invariant until the
    shutdown, one lemma per phase and operation. Runtime_Close: the invariant of the shutdown and its
    measure. Runtime_Live: progress. Runtime_Seq: equality with the sequential loop. Pool: an abstract
    pool of tasks, which the program implements. Runtime_Example, Runtime_Props: a concrete run, and
    the properties with their witnesses on it. Runtime_Cost: a potential that pays for every step of
    the library from the events outside it, among them the rounds in which a scheduler polls.
  \<^item> Demo: \<open>main.cpp\<close>, the functions that its tasks execute.

  Synchronisation objects, interleaved.
  \<^item> Threads: threads that call operations given as functions of one atomic access, and the proof
    principles as locales: an invariant relative to a ghost, a lock with an owner, a routine that
    acquires a flag, transition systems and refinement.
  \<^item> Spinlock, Mutex, Recursive_mutex: \<open>spinlock.cpp\<close>, the first half of \<open>mutex.cpp\<close>, access by access.
  \<^item> Weak_memory, Weak_locks: the same frames on a memory with the orders of C++ (modification order,
    happens-before views, release and acquire), a locale that carries the invariants of a lock over
    to it, and its three interpretations on \<open>Spinlock\<close>, \<open>Mutex\<close> and \<open>Recursive_mutex\<close>.
  \<^item> Weak_notify: \<open>Scheduler::notify\<close> and \<open>Scheduler::sleep\<close> access by access on such a memory, with the
    relaxed flags \<open>m_cond\<close> and \<open>m_exit\<close> and the relaxed counter \<open>m_size\<close>.
  \<^item> Condition_variable, Monitor: \<open>Condition_variable\<close>, and operations that run under a \<open>Mutex\<close>, wait on
    condition variables, leave and notify. Wakeup, Wakeup_All: two locales that give the absence of lost
    wake-ups, for objects that notify one waiter and for objects that notify all.
  \<^item> Timed_mutex, Shared_mutex, Shared_gates, Task: the timed mutexes, the shared mutexes with their
    packed state and two gates, and task objects, on the monitor. Task has also the life of a task with
    its result, seen by the consumer and the worker that executes it. Shared_max: a shared mutex whose
    number of shares has reached its maximum. Semaphore: a client of the condition variable.
  \<^item> Condition_variable_any: the condition variable for any lock, with its second mutex.
\<close>

section \<open>What is shown\<close>

text \<open>
  \<^item> Safety of the program in every interleaving: no task is lost or finishes twice, one executing
    worker per scheduler, exact idle counter, no failed assertion; the shutdown begins only when every
    submitted task has finished, and at the end every worker can be joined.
  \<^item> Progress: no notification of a scheduler is lost, nor with the relaxed accesses of the code; the
    shutdown takes a bounded number of steps, and the library makes a bounded number of steps for each
    event from outside, so schedulers do not keep each other busy. A round of \<open>schedule\<close> after which
    \<open>sleep\<close> does not block is such an event only if I/O is pending, the scheduler spins for the fixed
    time after it got idle, or a sleeping worker is due within the threshold. The end of the last task is noticed
    and the program is never stuck, with one exception, which is an error of the code: the signal to
    the main thread can come after \<open>all_idle\<close> has returned false in the predicate of \<open>wait_exit\<close>, which
    is evaluated with the mutex unlocked, and before the thread blocks. Then all is done and the
    program does not end (\<open>signal_missed\<close>); a run that gets there is in Runtime_Example.
  \<^item> Refinement of the pool of tasks.
  \<^item> Functional behaviour: the order of the passes, the choice of the scheduler, stealing, the sleeps,
    CPU masks, options, tasks and their results, files, I/O requests.
  \<^item> Mutual exclusion of all locks, lock counts, when errors are reported, and that no waiter sleeps on
    while its object is free. There are three exceptions, which are errors of the code, each with a run
    that gets there: a second waiter for the same task, the second of two calls of \<open>notify_one\<close> that
    come before the first waiter has woken up, and a waiter for a share of a shared mutex that has
    reached its maximum.

  Bounds. The load is exact for up to 256 workers and fewer than 214748108 queued tasks; a queue holds
  fewer than 2^64 tasks and there are fewer than 2^32 schedulers (at most 64 are created). A
  \<open>lock_with_timeout\<close> makes at most 17088 steps with 15999 pauses. No definition has fuel: \<open>wait_left\<close>
  and \<open>shutdown_left\<close> count the steps that the main thread and the shutdown have still to make.
  For \<open>n\<close> schedulers the library makes at most \<open>5 * n + 26\<close> steps for each event from outside and
  \<open>6 * n + 34\<close> besides (\<open>potential\<close>). The properties of condition variables and shared mutexes hold
  for any number of threads; at gate 1 of a shared mutex nobody is left behind in the runs that do
  not reach the maximum of 2147483647 shares.
\<close>

section \<open>Granularity and assumptions\<close>

text \<open>
  \<^item> Atomic accesses are sequentially consistent, except in Weak_memory, Weak_locks and Weak_notify:
    there the orders are those of the code, loads may return old writes, and the accesses to the data
    that a lock protects are checked for races. Writes are read after they have been made, so results
    out of thin air are excluded. The counters \<open>m_idle_schedulers\<close> and \<open>m_state_load\<close> stay sequentially
    consistent.
  \<^item> In Runtime a critical section under \<open>m_mtx\<close> is one step, a locked operation of a task queue is one
    step (that of \<open>sleep\<close> includes \<open>signal_idle\<close>), and a pass over a queue that belongs to the scheduler is one step; accesses to anything that
    several schedulers share are separate steps. In the synchronisation objects every atomic access
    of a spinlock is a step; the objects above take the mutex in one step, as justified by its proof.
  \<^item> Tasks are submitted by tasks and by the main thread, only workers notify other workers, and a
    task may submit to any scheduler (the loads it compares change while it reads them).
  \<^item> The destructor of a scheduler destroys its workers in ascending order.
  \<^item> Clients follow the contracts of the locks: they unlock what they hold.
\<close>

section \<open>Not modelled\<close>

text \<open>
  \<^item> Tests, benchmarks and tools, and of \<open>main.cpp\<close> the function \<open>f1\<close> (random numbers), the class \<open>A\<close>
    and the loops that only call \<open>async\<close> and \<open>get\<close>: programs that use the library.
  \<^item> Tracing (\<open>tracy\<close>) and messages on \<open>std::cerr\<close>: no effect on the state.
  \<^item> \<open>worker::get\<close> outside a worker: the thread-local pointer is then null, and so no operation of the
    library that blocks may be called there.
  \<^item> \<open>notify_all_at_thread_exit\<close> and \<open>print_thread_affinity\<close>, which are declared and not defined.
  \<^item> The storage of tasks (\<open>std::shared_ptr\<close>, tuples of arguments): a task is an identifier in the
    schedulers and a record of state, exception and value in Task.
  \<^item> The end of a program that never gets idle: \<open>init_ums\<close> then does not return.
\<close>

end
